(* ===== verification/Prelude.thy ===== *)
theory Prelude
  imports Main "HOL-Library.Word" "HOL-Library.Signed_Division" "HOL-Library.Multiset"
begin

text \<open>
  Shared vocabulary of the development: what a C function of the library can do besides
  returning a value (the faults), the sequencing of such functions, C integer conversions,
  and the generic lemmas on results, lists and maps the component theories use.
\<close>

section \<open>Faults and results\<close>

text \<open>
  A C function of the library returns a value, or stops the program in one of these ways.
  \<open>Assert_fail\<close> is a failed \<^verbatim>\<open>assert\<close> (\<^verbatim>\<open>abort\<close>), \<open>Exit_failure\<close> is
  \<^verbatim>\<open>exit(EXIT_FAILURE)\<close>; the next six are accesses or arithmetic that C leaves undefined;
  \<open>Deadlock\<close> is a thread that locks a mutex it already holds; \<open>Diverged\<close> is a loop
  that did not end within the iterations its model allows.
\<close>

datatype fault =
    Assert_fail
  | Exit_failure
  | Null_deref
  | Bad_pointer
  | Use_after_free
  | Out_of_bounds
  | Uninit_read
  | Int_overflow
  | Deadlock
  | Diverged

type_synonym 'a res = "fault + 'a"

definition andthen :: "'a res \<Rightarrow> ('a \<Rightarrow> 'b res) \<Rightarrow> 'b res" where
  "andthen m f = (case m of Inl e \<Rightarrow> Inl e | Inr x \<Rightarrow> f x)"

definition c_assert :: "bool \<Rightarrow> unit res" where
  "c_assert b = (if b then Inr () else Inl Assert_fail)"

text \<open>Assertions compiled in only when \<^verbatim>\<open>DEBUG\<close> is defined.\<close>

definition debug_assert :: "bool \<Rightarrow> bool \<Rightarrow> unit res" where
  "debug_assert dbg b = (if dbg then c_assert b else Inr ())"

text \<open>Whether a call returned normally.\<close>

definition returns :: "'a res \<Rightarrow> bool" where
  "returns r = (case r of Inl _ \<Rightarrow> False | Inr _ \<Rightarrow> True)"

section \<open>C integers\<close>

text \<open>
  \<^verbatim>\<open>long\<close>, \<^verbatim>\<open>time_t\<close> and \<^verbatim>\<open>ssize_t\<close> are 64 bits wide, \<^verbatim>\<open>int\<close> is 32 bits wide (the
  LP64 ABI of the amd64 build). Signed arithmetic that leaves its type is undefined; the
  implicit conversion of a \<^verbatim>\<open>long\<close> to an \<^verbatim>\<open>int\<close> keeps the low 32 bits.
\<close>

definition c_long :: "int \<Rightarrow> int res" where
  "c_long x = (if - (2 ^ 63) \<le> x \<and> x < 2 ^ 63 then Inr x else Inl Int_overflow)"

definition c_int :: "int \<Rightarrow> int res" where
  "c_int x = (if - (2 ^ 31) \<le> x \<and> x < 2 ^ 31 then Inr x else Inl Int_overflow)"

definition long_to_int :: "int \<Rightarrow> int" where
  "long_to_int x = signed_take_bit 31 x"

definition size_max :: nat where
  "size_max = 2 ^ 64"

section \<open>Collections of facts\<close>

named_theorems res_simps \<open>sequencing of results\<close>
named_theorems cint_simps \<open>C integer conversions\<close>

section \<open>Lemmas on results\<close>

lemma andthen_Inl [simp, res_simps]: "andthen (Inl e) f = Inl e"
  by (simp add: andthen_def)

lemma andthen_Inr [simp, res_simps]: "andthen (Inr x) f = f x"
  by (simp add: andthen_def)

lemma andthen_eq_Inr_iff [res_simps]:
  "andthen m f = Inr y \<longleftrightarrow> (\<exists>x. m = Inr x \<and> f x = Inr y)"
  by (auto simp: andthen_def split: sum.splits)

lemma andthenE: "andthen m f = Inr y \<Longrightarrow> (\<And>x. m = Inr x \<Longrightarrow> f x = Inr y \<Longrightarrow> R) \<Longrightarrow> R"
  by (auto simp: andthen_eq_Inr_iff)

lemma andthen_eq_Inl_iff:
  "andthen m f = Inl e \<longleftrightarrow> m = Inl e \<or> (\<exists>x. m = Inr x \<and> f x = Inl e)"
  by (auto simp: andthen_def split: sum.splits)

lemma andthen_assoc: "andthen (andthen m f) g = andthen m (\<lambda>x. andthen (f x) g)"
  by (simp add: andthen_def split: sum.splits)

lemma andthen_cong [fundef_cong]:
  "m = m' \<Longrightarrow> (\<And>x. m' = Inr x \<Longrightarrow> f x = f' x) \<Longrightarrow> andthen m f = andthen m' f'"
  by (auto simp: andthen_def split: sum.splits)

lemma andthen_Inr_right [simp]: "andthen m Inr = m"
  by (simp add: andthen_def split: sum.splits)

lemma c_assert_True [simp, res_simps]: "c_assert True = Inr ()"
  by (simp add: c_assert_def)

lemma c_assert_False [simp, res_simps]: "c_assert False = Inl Assert_fail"
  by (simp add: c_assert_def)

lemma c_assert_eq_Inr [simp, res_simps]: "c_assert b = Inr u \<longleftrightarrow> b"
  by (auto simp: c_assert_def)

lemma debug_assert_simps [simp, res_simps]:
  "debug_assert False b = Inr ()"
  "debug_assert dbg True = Inr ()"
  "debug_assert True False = Inl Assert_fail"
  by (simp_all add: debug_assert_def)

lemma returns_simps [simp]: "returns (Inr x)" "\<not> returns (Inl e)"
  by (simp_all add: returns_def)

lemma returns_iff: "returns r \<longleftrightarrow> (\<exists>x. r = Inr x)"
  by (cases r) simp_all

section \<open>Lemmas on C integers\<close>

lemma c_long_ok [simp, cint_simps]: "- (2 ^ 63) \<le> x \<Longrightarrow> x < 2 ^ 63 \<Longrightarrow> c_long x = Inr x"
  by (simp add: c_long_def)

lemma c_long_abs: "\<bar>x\<bar> < 2 ^ 63 \<Longrightarrow> c_long x = Inr x"
  by (simp add: c_long_def abs_less_iff)

lemma c_int_ok [simp, cint_simps]: "- (2 ^ 31) \<le> x \<Longrightarrow> x < 2 ^ 31 \<Longrightarrow> c_int x = Inr x"
  by (simp add: c_int_def)

lemma long_to_int_small [simp, cint_simps]:
  "- (2 ^ 31) \<le> x \<Longrightarrow> x < 2 ^ 31 \<Longrightarrow> long_to_int x = x"
  unfolding long_to_int_def by (rule signed_take_bit_int_eq_self) simp_all

lemma long_to_int_range: "- (2 ^ 31) \<le> long_to_int x \<and> long_to_int x < 2 ^ 31"
  unfolding long_to_int_def
  using signed_take_bit_int_greater_eq_minus_exp [of 31 x] signed_take_bit_int_less_exp [of 31 x]
  by simp

section \<open>Truncating division\<close>

text \<open>C's \<open>/\<close> and \<open>%\<close> on signed operands round towards zero.\<close>

lemma sdiv_pos_div: "0 \<le> (a::int) \<Longrightarrow> 0 < b \<Longrightarrow> a sdiv b = a div b"
  by (cases "a = 0") (simp_all add: signed_divide_int_def sgn_if)

lemma sdiv_neg_div: "(a::int) \<le> 0 \<Longrightarrow> 0 < b \<Longrightarrow> a sdiv b = - ((- a) div b)"
  by (cases "a = 0") (simp_all add: signed_divide_int_def sgn_if)

lemma smod_pos_mod: "0 \<le> (a::int) \<Longrightarrow> 0 < b \<Longrightarrow> a smod b = a mod b"
  by (cases "a = 0") (simp_all add: smod_int_alt_def sgn_if)

section \<open>Lemmas on lists\<close>

lemma distinct_snoc [simp]: "distinct (xs @ [x]) \<longleftrightarrow> x \<notin> set xs \<and> distinct xs"
  by auto

lemma rotate1_Cons_last: "x # xs = ys \<Longrightarrow> rotate1 ys = xs @ [x]"
  by auto

end
