(* ===== verification/Context.thy ===== *)
theory Context
  imports Prelude
begin

text \<open>
  Execution contexts: the assembly routines of \<^verbatim>\<open>src/arch/context_gcc_amd64.S\<close>, instruction by
  instruction over a machine state, and the C functions of \<^verbatim>\<open>src/context.h\<close> built on them.
\<close>

section \<open>The machine\<close>

type_synonym w64 = "64 word"

text \<open>
  The registers the routines name, 8-byte memory cells by address, and the 4-byte cells that
  hold C ints (a coroutine's state field), which no 8-byte access of these routines overlaps.
  Every 8-byte access of the routines is aligned, so distinct addresses are disjoint cells.
\<close>

record cpu =
  rax :: w64
  rbx :: w64
  rcx :: w64
  rdx :: w64
  rsi :: w64
  rdi :: w64
  rbp :: w64
  rsp :: w64
  r12 :: w64
  r13 :: w64
  r14 :: w64
  r15 :: w64
  rip :: w64
  mem :: "w64 \<Rightarrow> w64"
  ints :: "w64 \<Rightarrow> 32 word"

definition store :: "w64 \<Rightarrow> w64 \<Rightarrow> cpu \<Rightarrow> cpu" where
  "store a v s = s\<lparr>mem := (mem s)(a := v)\<rparr>"

definition ret :: "cpu \<Rightarrow> cpu" where
  "ret s = s\<lparr>rip := mem s (rsp s), rsp := rsp s + 8\<rparr>"

text \<open>A call pushes its return address; \<open>arg\<close> is the first argument.\<close>

definition call :: "w64 \<Rightarrow> w64 \<Rightarrow> cpu \<Rightarrow> cpu" where
  "call ra arg s = store (rsp s - 8) ra (s\<lparr>rsp := rsp s - 8, rdi := arg\<rparr>)"

section \<open>The assembly routines\<close>

text \<open>The moves between registers and memory, and a straight-line run of instructions.\<close>

definition mov_to_mem :: "(cpu \<Rightarrow> w64) \<Rightarrow> w64 \<Rightarrow> (cpu \<Rightarrow> w64) \<Rightarrow> cpu \<Rightarrow> cpu" where
  "mov_to_mem src off base s = store (base s + off) (src s) s"

definition mov_from_mem :: "w64 \<Rightarrow> (cpu \<Rightarrow> w64) \<Rightarrow> (w64 \<Rightarrow> cpu \<Rightarrow> cpu) \<Rightarrow> cpu \<Rightarrow> cpu" where
  "mov_from_mem off base set_reg s = set_reg (mem s (base s + off)) s"

primrec exec :: "(cpu \<Rightarrow> cpu) list \<Rightarrow> cpu \<Rightarrow> cpu" where
  "exec [] s = s"
| "exec (i # is) s = exec is (i s)"

definition create_context :: "cpu \<Rightarrow> cpu" where
  "create_context = exec
     [mov_to_mem rsi 56 rdi,
      \<lambda>s. s\<lparr>rdx := rdx s - 16\<rparr>,
      mov_to_mem (\<lambda>_. 132) 0 rdx,
      mov_to_mem rdx 16 rdi,
      ret]"

definition context_save :: "cpu \<Rightarrow> cpu" where
  "context_save = exec
     [mov_to_mem rbx 0 rdi,
      mov_to_mem rbp 8 rdi,
      mov_to_mem rsp 16 rdi,
      mov_to_mem r12 24 rdi,
      mov_to_mem r13 32 rdi,
      mov_to_mem r14 40 rdi,
      mov_to_mem r15 48 rdi,
      mov_from_mem 0 rsp (\<lambda>v s. s\<lparr>rax := v\<rparr>),
      mov_to_mem rax 56 rdi,
      \<lambda>s. s\<lparr>rax := 0\<rparr>,
      ret]"

definition context_restore :: "cpu \<Rightarrow> cpu" where
  "context_restore = exec
     [mov_from_mem 0 rdi (\<lambda>v s. s\<lparr>rbx := v\<rparr>),
      mov_from_mem 8 rdi (\<lambda>v s. s\<lparr>rbp := v\<rparr>),
      mov_from_mem 16 rdi (\<lambda>v s. s\<lparr>rsp := v\<rparr>),
      mov_from_mem 24 rdi (\<lambda>v s. s\<lparr>r12 := v\<rparr>),
      mov_from_mem 32 rdi (\<lambda>v s. s\<lparr>r13 := v\<rparr>),
      mov_from_mem 40 rdi (\<lambda>v s. s\<lparr>r14 := v\<rparr>),
      mov_from_mem 48 rdi (\<lambda>v s. s\<lparr>r15 := v\<rparr>),
      mov_from_mem 56 rdi (\<lambda>v s. s\<lparr>rax := v\<rparr>),
      mov_to_mem rax 0 rsp,
      \<lambda>s. s\<lparr>rax := 1\<rparr>,
      ret]"

text \<open>
  \<^verbatim>\<open>lock cmpxchg\<close> compares \<^verbatim>\<open>eax\<close> with the int at \<^verbatim>\<open>(rsi)\<close>, atomically stores \<^verbatim>\<open>ecx\<close> there if they
  are equal, and loads the int into \<^verbatim>\<open>eax\<close> otherwise.
\<close>

definition context_cmpxchg_restore :: "cpu \<Rightarrow> cpu" where
  "context_cmpxchg_restore s =
     (let s = s\<lparr>rax := ucast (ucast (rdx s) :: 32 word)\<rparr> in
      if ints s (rsi s) = ucast (rax s)
      then context_restore (s\<lparr>ints := (ints s)(rsi s := ucast (rcx s))\<rparr>)
      else ret (s\<lparr>rax := ucast (ints s (rsi s))\<rparr>))"

section \<open>The functions of context.h\<close>

text \<open>
  \<^verbatim>\<open>struct context\<close> is ten words of memory: eight registers, the stack (at offset 64) and its
  size (at offset 72). Its \<^verbatim>\<open>context_empty\<close> does nothing.
\<close>

definition context_create :: "w64 option \<Rightarrow> w64 \<Rightarrow> w64 \<Rightarrow> w64 \<Rightarrow> w64 \<Rightarrow> cpu \<Rightarrow> cpu res" where
  "context_create malloc_result ctx fn stack_size ra s =
     andthen (c_assert (malloc_result \<noteq> None)) (\<lambda>_.
     let stack = the malloc_result;
         s = store (ctx + 64) stack s;
         s = store (ctx + 72) stack_size s
     in Inr (create_context (call ra ctx (s\<lparr>rsi := fn, rdx := stack + stack_size\<rparr>))))"

text \<open>\<open>ra\<close> is the return address of the call of \<^verbatim>\<open>context_save\<close>, \<open>ra'\<close> that of \<^verbatim>\<open>context_restore\<close>.\<close>

definition context_switch :: "w64 \<Rightarrow> w64 \<Rightarrow> w64 \<Rightarrow> w64 \<Rightarrow> cpu \<Rightarrow> cpu" where
  "context_switch src dest ra ra' s =
     (let s = context_save (call ra src s) in
      if rax s = 0 then context_restore (call ra' dest s) else s)"

definition context_empty :: "w64 \<Rightarrow> cpu \<Rightarrow> cpu" where
  "context_empty ctx s = s"

text \<open>\<^verbatim>\<open>context_free\<close> frees the stack; \<open>live\<close> is the set of allocated blocks.\<close>

definition context_free :: "w64 set \<Rightarrow> w64 \<Rightarrow> cpu \<Rightarrow> w64 set res" where
  "context_free live ctx s =
     (let stack = mem s (ctx + 64) in
      if stack = 0 then Inr live
      else if stack \<in> live then Inr (live - {stack}) else Inl Use_after_free)"

section \<open>Saving and restoring\<close>

text \<open>
  The eight words of a context, and what a routine must give back to its caller: the
  callee-saved registers, the stack pointer and the address to continue at.
\<close>

definition context_words :: "w64 \<Rightarrow> cpu \<Rightarrow> w64 list" where
  "context_words ctx s = map (\<lambda>k. mem s (ctx + k)) [0, 8, 16, 24, 32, 40, 48, 56]"

definition frame :: "cpu \<Rightarrow> w64 list" where
  "frame s = [rbx s, rbp s, rsp s, r12 s, r13 s, r14 s, r15 s, rip s]"

definition outside :: "w64 \<Rightarrow> w64 \<Rightarrow> bool" where
  "outside a ctx \<longleftrightarrow> a \<notin> (\<lambda>k. ctx + k) ` {0, 8, 16, 24, 32, 40, 48, 56}"

text \<open>Clear of all ten words of the context at \<open>ctx\<close>.\<close>

definition clear_of :: "w64 \<Rightarrow> w64 \<Rightarrow> bool" where
  "clear_of a ctx \<longleftrightarrow> outside a ctx \<and> a \<noteq> ctx + 64 \<and> a \<noteq> ctx + 72"

definition apart :: "w64 \<Rightarrow> w64 \<Rightarrow> bool" where
  "apart c d \<longleftrightarrow> (\<forall>k\<in>{0, 8, 16, 24, 32, 40, 48, 56}. outside (d + k) c)"

named_theorems cpu_simps \<open>machine instructions\<close>

lemmas [cpu_simps] = store_def ret_def mov_to_mem_def mov_from_mem_def

lemma frame_simps:
  "frame s = [b, bp, sp, x12, x13, x14, x15, pc] \<longleftrightarrow>
     rbx s = b \<and> rbp s = bp \<and> rsp s = sp \<and> r12 s = x12 \<and> r13 s = x13 \<and> r14 s = x14 \<and>
     r15 s = x15 \<and> rip s = pc"
  by (simp add: frame_def)

lemma context_words_outside:
  "outside a ctx \<Longrightarrow> mem s' = (mem s)(a := v) \<Longrightarrow> context_words ctx s' = context_words ctx s"
  by (auto simp: context_words_def outside_def)

lemma context_save_words:
  assumes "outside (rsp s) (rdi s)"
  shows "context_words (rdi s) (context_save s) =
    [rbx s, rbp s, rsp s, r12 s, r13 s, r14 s, r15 s, mem s (rsp s)]"
  using assms by (simp add: context_save_def context_words_def cpu_simps outside_def)

lemma context_save_returns:
  assumes "outside (rsp s) (rdi s)"
  shows "frame (context_save s) =
      [rbx s, rbp s, rsp s + 8, r12 s, r13 s, r14 s, r15 s, mem s (rsp s)]"
    and "rax (context_save s) = 0"
  using assms by (simp_all add: context_save_def frame_def cpu_simps outside_def)

lemma context_save_mem: "outside a (rdi s) \<Longrightarrow> mem (context_save s) a = mem s a"
  by (simp add: context_save_def cpu_simps outside_def)

lemma context_save_apart:
  "apart (rdi s) ctx \<Longrightarrow> context_words ctx (context_save s) = context_words ctx s"
  by (simp add: context_words_def apart_def context_save_mem)

lemma context_restore_frame:
  assumes "context_words (rdi s) s = [b, bp, sp, x12, x13, x14, x15, pc]"
  shows "frame (context_restore s) = [b, bp, sp + 8, x12, x13, x14, x15, pc]"
    and "rax (context_restore s) = 1"
    and "mem (context_restore s) = (mem s)(sp := pc)"
  using assms by (simp_all add: context_restore_def context_words_def frame_def cpu_simps)

lemma call_simps:
  "rdi (call ra ctx s) = ctx" "rsp (call ra ctx s) = rsp s - 8"
  "mem (call ra ctx s) = (mem s)(rsp s - 8 := ra)"
  by (simp_all add: call_def store_def)

text \<open>Saving into a context from a call: the saved words are the caller's frame.\<close>

lemma context_save_call:
  assumes "outside (rsp s - 8) ctx"
  shows "context_words ctx (context_save (call ra ctx s)) =
    [rbx s, rbp s, rsp s - 8, r12 s, r13 s, r14 s, r15 s, ra]"
  using context_save_words [of "call ra ctx s"] assms by (simp add: call_simps) (simp add: call_def store_def)

lemma context_restore_call:
  assumes "context_words ctx s = [b, bp, sp, x12, x13, x14, x15, pc]" "outside (rsp s - 8) ctx"
  shows "frame (context_restore (call ra ctx s)) = [b, bp, sp + 8, x12, x13, x14, x15, pc]"
    and "rax (context_restore (call ra ctx s)) = 1"
    and "mem (context_restore (call ra ctx s)) = (mem s)(rsp s - 8 := ra, sp := pc)"
proof -
  have w: "context_words (rdi (call ra ctx s)) (call ra ctx s) = [b, bp, sp, x12, x13, x14, x15, pc]"
    using assms context_words_outside [of "rsp s - 8" ctx "call ra ctx s" s] by (simp add: call_simps)
  show "frame (context_restore (call ra ctx s)) = [b, bp, sp + 8, x12, x13, x14, x15, pc]"
    "rax (context_restore (call ra ctx s)) = 1"
    "mem (context_restore (call ra ctx s)) = (mem s)(rsp s - 8 := ra, sp := pc)"
    using context_restore_frame [OF w] by (simp_all add: call_simps)
qed

lemma context_switch_eq:
  "outside (rsp s - 8) src \<Longrightarrow>
   context_switch src dest ra ra' s = context_restore (call ra' dest (context_save (call ra src s)))"
  using context_save_returns(2) [of "call ra src s"] by (simp add: context_switch_def call_simps)

lemma rsp_save_call: "outside (rsp s - 8) ctx \<Longrightarrow> rsp (context_save (call ra ctx s)) = rsp s"
  using context_save_returns(1) [of "call ra ctx s"] by (simp add: call_simps frame_simps)

lemma context_words_save_call:
  assumes "apart ctx other" "outside (rsp s - 8) other"
  shows "context_words other (context_save (call ra ctx s)) = context_words other s"
  using context_save_apart [of "call ra ctx s" other] assms
    context_words_outside [of "rsp s - 8" other "call ra ctx s" s] by (simp add: call_simps)

text \<open>
  A switch resumes the destination where it was saved and leaves the source's words such that
  restoring them gives the caller's frame back.
\<close>

lemma context_switch_ok:
  assumes words: "context_words dest s = [b, bp, sp, x12, x13, x14, x15, pc]"
    and sep: "apart src dest" "outside (rsp s - 8) src" "outside (rsp s - 8) dest" "outside sp src"
  shows "frame (context_switch src dest ra ra' s) = [b, bp, sp + 8, x12, x13, x14, x15, pc]"
    and "rax (context_switch src dest ra ra' s) = 1"
    and "context_words src (context_switch src dest ra ra' s) =
      [rbx s, rbp s, rsp s - 8, r12 s, r13 s, r14 s, r15 s, ra]"
proof -
  let ?t = "context_save (call ra src s)"
  have w: "context_words dest ?t = [b, bp, sp, x12, x13, x14, x15, pc]"
    using words sep by (simp add: context_words_save_call)
  have r: "rsp ?t = rsp s" using sep(2) by (rule rsp_save_call)
  note go = context_restore_call [OF w, of ra'] 
  show "frame (context_switch src dest ra ra' s) = [b, bp, sp + 8, x12, x13, x14, x15, pc]"
    "rax (context_switch src dest ra ra' s) = 1"
    using go sep r by (simp_all add: context_switch_eq)
  have "context_words src (context_restore (call ra' dest ?t)) = context_words src ?t"
    using go(3) sep r context_words_outside [of sp src _ "?t\<lparr>mem := (mem ?t)(rsp s - 8 := ra')\<rparr>"]
      context_words_outside [of "rsp s - 8" src "?t\<lparr>mem := (mem ?t)(rsp s - 8 := ra')\<rparr>" ?t]
    by simp
  with sep show "context_words src (context_switch src dest ra ra' s) =
      [rbx s, rbp s, rsp s - 8, r12 s, r13 s, r14 s, r15 s, ra]"
    by (simp add: context_switch_eq context_save_call)
qed

lemma clear_ofD:
  assumes "clear_of a ctx"
  shows "a \<noteq> ctx + 16" "a \<noteq> ctx + 56" "a \<noteq> ctx + 64" "a \<noteq> ctx + 72" "outside a ctx"
  using assms by (auto simp: clear_of_def outside_def)

lemma low_half_id: "(ucast (ucast (x :: 32 word) :: w64) :: 32 word) = x"
  by transfer simp

section \<open>Properties\<close>

text \<open>
  C38: A context switch saves the caller and continues the destination exactly where it was
  saved, with its callee-saved registers and stack pointer; whatever runs then, as long as
  the saved words stay untouched, a switch back makes the first call return 1 to its call
  site with all callee-saved registers and the stack pointer as they were.
\<close>

theorem context_switch_roundtrip:
  assumes "context_words B s = [b, bp, sp, x12, x13, x14, x15, pc]"
    and "apart A B" "apart B A" "outside (rsp s - 8) A" "outside (rsp s - 8) B" "outside sp A"
    and "context_words A s2 = context_words A (context_switch A B ra ra' s)"
    and "outside (rsp s2 - 8) A" "outside (rsp s2 - 8) B"
  shows "frame (context_switch A B ra ra' s) = [b, bp, sp + 8, x12, x13, x14, x15, pc] \<and>
    frame (context_switch B A here here' s2) = (frame s)[7 := ra] \<and>
    rax (context_switch B A here here' s2) = 1"
proof -
  note out = context_switch_ok [OF assms(1,2,4,5,6), of ra ra']
  have "context_words A s2 = [rbx s, rbp s, rsp s - 8, r12 s, r13 s, r14 s, r15 s, ra]"
    using assms(7) out(3) by simp
  then show ?thesis
    using context_switch_ok [of A s2 _ _ _ _ _ _ _ ra B here here'] assms(3,5,8,9) out(1)
    by (simp add: frame_def)
qed

text \<open>
  A machine with two contexts at 4096 and 8192; the second one was saved on a stack at 65528.
\<close>

definition two_contexts :: cpu where
  "two_contexts = \<lparr>rax = 0, rbx = 1, rcx = 0, rdx = 0, rsi = 0, rdi = 0, rbp = 2, rsp = 32768,
     r12 = 3, r13 = 4, r14 = 5, r15 = 6, rip = 100,
     mem = (\<lambda>_. 0)(8208 := 65528, 8248 := 777), ints = \<lambda>_. 2\<rparr>"

lemma two_contexts_words:
  "context_words 8192 two_contexts = [0, 0, 65528, 0, 0, 0, 0, 777]" "rsp two_contexts = 32768"
  "frame two_contexts = [1, 2, 32768, 3, 4, 5, 6, 100]"
  by (simp_all add: context_words_def frame_def two_contexts_def)

lemma two_contexts_apart:
  "apart 4096 8192" "apart 8192 4096" "outside 32760 4096" "outside 32760 8192" "outside 65528 4096"
  "outside 65528 8192"
  by (simp_all add: apart_def outside_def)

theorem context_switch_roundtrip_witness:
  "frame (context_switch 8192 4096 11 12 (context_switch 4096 8192 9 10 two_contexts)) =
     [1, 2, 32768, 3, 4, 5, 6, 9]"
proof -
  have "frame (context_switch 4096 8192 9 10 two_contexts) = [0, 0, 65536, 0, 0, 0, 0, 777]"
    using context_switch_ok(1) [OF two_contexts_words(1), of 4096 9 10] two_contexts_apart
    by (simp add: two_contexts_words)
  then have "rsp (context_switch 4096 8192 9 10 two_contexts) = 65536" by (simp add: frame_simps)
  with context_switch_roundtrip [OF two_contexts_words(1) two_contexts_apart(1,2), of
      "context_switch 4096 8192 9 10 two_contexts" 9 10 11 12] two_contexts_apart
  show ?thesis by (simp add: two_contexts_words)
qed

text \<open>
  C39: \<^verbatim>\<open>context_cmpxchg_restore\<close> either finds the expected value, stores the new one and
  continues in the context writing nothing to memory but that context's own return slot
  (in particular nothing to the caller's stack), or leaves all memory as it was and
  returns the value it found to its caller with the callee-saved registers kept.
\<close>

theorem context_cmpxchg_restore_atomic:
  assumes "context_words (rdi s) s = [b, bp, sp, x12, x13, x14, x15, pc]"
  defines "s' \<equiv> context_cmpxchg_restore s"
  shows "if ints s (rsi s) = ucast (rdx s)
    then frame s' = [b, bp, sp + 8, x12, x13, x14, x15, pc] \<and> rax s' = 1 \<and>
      mem s' = (mem s)(sp := pc) \<and> ints s' = (ints s)(rsi s := ucast (rcx s))
    else frame s' = [rbx s, rbp s, rsp s + 8, r12 s, r13 s, r14 s, r15 s, mem s (rsp s)] \<and>
      rax s' = ucast (ints s (rsi s)) \<and> mem s' = mem s \<and> ints s' = ints s"
proof (cases "ints s (rsi s) = ucast (rdx s)")
  case True
  let ?t = "s\<lparr>rax := ucast (ucast (rdx s) :: 32 word), ints := (ints s)(rsi s := ucast (rcx s))\<rparr>"
  have w: "context_words (rdi ?t) ?t = [b, bp, sp, x12, x13, x14, x15, pc]"
    using assms(1) by (simp add: context_words_def)
  have "s' = context_restore ?t"
    using True by (simp add: s'_def context_cmpxchg_restore_def Let_def low_half_id)
  moreover have "ints (context_restore ?t) = ints ?t"
    by (simp add: context_restore_def cpu_simps)
  ultimately show ?thesis using True context_restore_frame [OF w] by simp
next
  case False
  then show ?thesis
    by (simp add: s'_def context_cmpxchg_restore_def Let_def low_half_id ret_def frame_def)
qed

theorem context_cmpxchg_restore_atomic_witness:
  "ints (context_cmpxchg_restore (two_contexts\<lparr>rdi := 8192, rsi := 40, rdx := 2, rcx := 4\<rparr>)) 40 = 4 \<and>
   rip (context_cmpxchg_restore (two_contexts\<lparr>rdi := 8192, rsi := 40, rdx := 2, rcx := 4\<rparr>)) = 777"
  using context_cmpxchg_restore_atomic [of "two_contexts\<lparr>rdi := 8192, rsi := 40, rdx := 2, rcx := 4\<rparr>"
      0 0 65528 0 0 0 0 777]
  by (simp add: two_contexts_def context_words_def frame_simps)

text \<open>
  A created context starts its function with the stack pointer 8 below the top of the
  stack, the alignment a called function expects. The return address the function finds
  there is whatever the fresh stack held: the word that creation stores as a
  return address lies one slot lower and is replaced by the entry point when the context is
  first restored.
\<close>

theorem context_create_enters:
  assumes "tos = stack + stack_size" "clear_of (tos - 16) ctx" "clear_of (tos - 8) ctx"
    and "clear_of (rsp s - 8) ctx" "rsp s - 8 \<noteq> tos - 16" "rsp s - 8 \<noteq> tos - 8"
    and "clear_of (rsp t - 8) ctx" "rsp t - 8 \<noteq> tos - 8"
  shows "\<exists>s1. context_create (Some stack) ctx fn stack_size ra s = Inr s1 \<and>
    rip s1 = ra \<and> rsp s1 = rsp s \<and> mem s1 (ctx + 64) = stack \<and>
    (context_words ctx t = context_words ctx s1 \<and> mem t (tos - 8) = mem s1 (tos - 8) \<longrightarrow>
     (let s3 = context_restore (call here ctx t) in
      rip s3 = fn \<and> rsp s3 = tos - 8 \<and> mem s3 (rsp s3) = mem s (tos - 8)))"
proof -
  let ?s = "store (ctx + 72) stack_size (store (ctx + 64) stack s)\<lparr>rsi := fn, rdx := tos\<rparr>"
  define s1 where "s1 = create_context (call ra ctx ?s)"
  have c: "context_create (Some stack) ctx fn stack_size ra s = Inr s1"
    using assms(1) by (simp add: s1_def context_create_def c_assert_def Let_def)
  have m: "mem s1 = (mem s)(ctx + 64 := stack, ctx + 72 := stack_size, rsp s - 8 := ra,
      ctx + 56 := fn, tos - 16 := 132, ctx + 16 := tos - 16)"
    by (simp add: s1_def create_context_def cpu_simps call_def)
  have r: "rip s1 = mem s1 (rsp s - 8)" "rsp s1 = rsp s"
    by (simp_all add: s1_def create_context_def cpu_simps call_def)
  note d = clear_ofD(1-4) [OF assms(2)] clear_ofD(1-4) [OF assms(3)] clear_ofD(1-4) [OF assms(4)] assms(5,6)
  have neq: "tos - 8 \<noteq> tos - 16" by simp
  have m1: "mem s1 (ctx + 16) = tos - 16" "mem s1 (ctx + 56) = fn" "mem s1 (ctx + 64) = stack"
    "mem s1 (rsp s - 8) = ra" "mem s1 (tos - 8) = mem s (tos - 8)"
    unfolding m by (simp_all add: d d [symmetric] neq del: diff_eq_eq eq_diff_eq)
  have "rip s3 = fn \<and> rsp s3 = tos - 8 \<and> mem s3 (rsp s3) = mem s (tos - 8)"
    if same: "context_words ctx t = context_words ctx s1" "mem t (tos - 8) = mem s1 (tos - 8)"
      and s3: "s3 = context_restore (call here ctx t)" for s3
  proof -
    obtain b bp x12 x13 x14 x15 where w: "context_words ctx t = [b, bp, tos - 16, x12, x13, x14, x15, fn]"
      using same(1) m1(1,2) by (simp add: context_words_def)
    have f: "frame s3 = [b, bp, tos - 8, x12, x13, x14, x15, fn]" "mem s3 = (mem t)(rsp t - 8 := here, tos - 16 := fn)"
      unfolding s3 using context_restore_call [OF w clear_ofD(5) [OF assms(7)], of here] by simp_all
    then have "rsp s3 = tos - 8" "rip s3 = fn" by (simp_all add: frame_simps)
    moreover have "mem s3 (tos - 8) = mem s (tos - 8)"
      using f(2) same(2) m1(5) assms(8) neq by simp
    ultimately show ?thesis by simp
  qed
  from this [OF _ _ refl] c r m1(3,4) show ?thesis
    unfolding Let_def by (intro exI [of _ s1]) (simp only: simp_thms, blast)
qed

definition fresh_machine :: cpu where
  "fresh_machine = two_contexts\<lparr>mem := (\<lambda>_. 0)(81912 := 55)\<rparr>"

theorem context_create_enters_witness:
  "\<exists>s1. context_create (Some 65536) 4096 900 16384 9 fresh_machine = Inr s1 \<and> rip s1 = 9 \<and>
     (let s3 = context_restore (call 10 4096 s1) in rip s3 = 900 \<and> rsp s3 = 81912 \<and> mem s3 81912 = 55)"
proof -
  have r: "rsp fresh_machine = 32768" "mem fresh_machine 81912 = 55"
    by (simp_all add: fresh_machine_def two_contexts_def)
  have o: "clear_of 81904 4096" "clear_of 32760 4096" "clear_of 81912 4096"
    by (simp_all add: outside_def clear_of_def)
  obtain s1 where s1: "context_create (Some 65536) 4096 900 16384 9 fresh_machine = Inr s1"
      and "rip s1 = 9" "rsp s1 = 32768"
    using context_create_enters [where tos = 81920 and ctx = 4096 and s = fresh_machine and
      stack = 65536 and stack_size = 16384 and t = fresh_machine and fn = 900 and ra = 9] o
    by (simp add: r) blast
  moreover have "let s3 = context_restore (call 10 4096 s1) in rip s3 = 900 \<and> rsp s3 = 81912 \<and> mem s3 81912 = 55"
    using context_create_enters [where tos = 81920 and ctx = 4096 and s = fresh_machine and
      stack = 65536 and stack_size = 16384 and t = s1 and fn = 900 and ra = 9 and here = 10] o s1 calculation
    by (simp add: r Let_def) metis
  ultimately show ?thesis by blast
qed

end
