(* ===== verification/Context_x86.thy ===== *)
theory Context_x86
  imports Prelude
begin

text \<open>
  The 32-bit routines of \<^verbatim>\<open>src/arch/context_gcc_x86.S\<close>, instruction by instruction: arguments on the stack
  and six saved words. Its \<^verbatim>\<open>_context_create\<close> is 64-bit code, which a 32-bit assembler refuses.
\<close>

section \<open>The machine\<close>

type_synonym w32 = "32 word"

text \<open>
  Registers and 4-byte memory cells by address. Every access of the routines is a 4-byte access,
  and all are aligned when the stack, the context and the int are.
\<close>

record cpu32 =
  eax :: w32
  ebx :: w32
  ecx :: w32
  edx :: w32
  esi :: w32
  edi :: w32
  ebp :: w32
  esp :: w32
  eip :: w32
  mem32 :: "w32 \<Rightarrow> w32"

definition put32 :: "(cpu32 \<Rightarrow> w32) \<Rightarrow> w32 \<Rightarrow> (cpu32 \<Rightarrow> w32) \<Rightarrow> cpu32 \<Rightarrow> cpu32" where
  "put32 src off base s = s\<lparr>mem32 := (mem32 s)(base s + off := src s)\<rparr>"

definition get32 :: "w32 \<Rightarrow> (cpu32 \<Rightarrow> w32) \<Rightarrow> (w32 \<Rightarrow> cpu32 \<Rightarrow> cpu32) \<Rightarrow> cpu32 \<Rightarrow> cpu32" where
  "get32 off base set_reg s = set_reg (mem32 s (base s + off)) s"

definition ret32 :: "cpu32 \<Rightarrow> cpu32" where
  "ret32 s = s\<lparr>eip := mem32 s (esp s), esp := esp s + 4\<rparr>"

primrec steps :: "(cpu32 \<Rightarrow> cpu32) list \<Rightarrow> cpu32 \<Rightarrow> cpu32" where
  "steps [] s = s"
| "steps (i # is) s = steps is (i s)"

definition set_eax where "set_eax v s = s\<lparr>eax := v :: w32\<rparr>" for s :: cpu32
definition set_ebx where "set_ebx v s = s\<lparr>ebx := v :: w32\<rparr>" for s :: cpu32
definition set_ecx where "set_ecx v s = s\<lparr>ecx := v :: w32\<rparr>" for s :: cpu32
definition set_edx where "set_edx v s = s\<lparr>edx := v :: w32\<rparr>" for s :: cpu32
definition set_esi where "set_esi v s = s\<lparr>esi := v :: w32\<rparr>" for s :: cpu32
definition set_edi where "set_edi v s = s\<lparr>edi := v :: w32\<rparr>" for s :: cpu32
definition set_ebp where "set_ebp v s = s\<lparr>ebp := v :: w32\<rparr>" for s :: cpu32
definition set_esp where "set_esp v s = s\<lparr>esp := v :: w32\<rparr>" for s :: cpu32

text \<open>A call: the arguments are pushed from the last to the first, then the return address.\<close>

definition push32 :: "w32 \<Rightarrow> cpu32 \<Rightarrow> cpu32" where
  "push32 v s = s\<lparr>esp := esp s - 4, mem32 := (mem32 s)(esp s - 4 := v)\<rparr>"

definition call32 :: "w32 \<Rightarrow> w32 list \<Rightarrow> cpu32 \<Rightarrow> cpu32" where
  "call32 ra args s = push32 ra (foldr push32 args s)"

section \<open>The routines\<close>

definition context_save_x86 :: "cpu32 \<Rightarrow> cpu32" where
  "context_save_x86 = steps
     [get32 4 esp set_ecx,
      put32 ebx 0 ecx,
      put32 ebp 4 ecx,
      put32 edi 8 ecx,
      put32 esi 12 ecx,
      put32 esp 16 ecx,
      get32 0 esp set_edx,
      put32 edx 20 ecx,
      set_eax 0,
      ret32]"

definition context_restore_nostack :: "cpu32 \<Rightarrow> cpu32" where
  "context_restore_nostack = steps
     [get32 0 ecx set_ebx,
      get32 4 ecx set_ebp,
      get32 8 ecx set_edi,
      get32 12 ecx set_esi,
      get32 16 ecx set_esp,
      get32 20 ecx set_edx,
      put32 edx 0 esp,
      set_eax 1,
      ret32]"

definition context_restore_x86 :: "cpu32 \<Rightarrow> cpu32" where
  "context_restore_x86 s = context_restore_nostack (get32 4 esp set_ecx s)"

text \<open>
  The instructions of \<^verbatim>\<open>context_cmpxchg_restore\<close> before \<^verbatim>\<open>lock cmpxchg\<close>, which compares \<^verbatim>\<open>eax\<close> with the int at \<^verbatim>\<open>(edi)\<close>,
  stores \<^verbatim>\<open>edx\<close> there if they are equal and loads the int into \<^verbatim>\<open>eax\<close> if not, and those after the jump.
\<close>

definition cmpxchg_load :: "cpu32 \<Rightarrow> cpu32" where
  "cmpxchg_load = steps
     [put32 edi (- 4) esp,
      get32 4 esp set_ecx,
      get32 8 esp set_edi,
      get32 12 esp set_eax,
      get32 16 esp set_edx]"

definition cmpxchg_fail :: "cpu32 \<Rightarrow> cpu32" where
  "cmpxchg_fail = steps [get32 (- 4) esp set_edi, ret32]"

definition context_cmpxchg_restore_x86 :: "cpu32 \<Rightarrow> cpu32" where
  "context_cmpxchg_restore_x86 s =
     (let s = cmpxchg_load s in
      if mem32 s (edi s) = eax s then context_restore_nostack (put32 edx 0 edi s)
      else cmpxchg_fail (set_eax (mem32 s (edi s)) s))"

text \<open>\<^verbatim>\<open>context_switch\<close> of \<^verbatim>\<open>src/context.h\<close> over these; the caller takes its argument off the stack again.\<close>

definition context_switch_x86 :: "w32 \<Rightarrow> w32 \<Rightarrow> w32 \<Rightarrow> w32 \<Rightarrow> cpu32 \<Rightarrow> cpu32" where
  "context_switch_x86 src dest ra ra' s =
     (let s = context_save_x86 (call32 ra [src] s); s = s\<lparr>esp := esp s + 4\<rparr> in
      if eax s = 0 then context_restore_x86 (call32 ra' [dest] s) else s)"

section \<open>Saving and restoring\<close>

definition saved_words :: "w32 \<Rightarrow> cpu32 \<Rightarrow> w32 list" where
  "saved_words ctx s = map (\<lambda>k. mem32 s (ctx + k)) [0, 4, 8, 12, 16, 20]"

definition frame32 :: "cpu32 \<Rightarrow> w32 list" where
  "frame32 s = [ebx s, ebp s, edi s, esi s, esp s, eip s]"

definition off_context :: "w32 \<Rightarrow> w32 \<Rightarrow> bool" where
  "off_context a ctx \<longleftrightarrow> a \<notin> (\<lambda>k. ctx + k) ` {0, 4, 8, 12, 16, 20}"

definition disjoint_contexts :: "w32 \<Rightarrow> w32 \<Rightarrow> bool" where
  "disjoint_contexts c d \<longleftrightarrow> (\<forall>k\<in>{0, 4, 8, 12, 16, 20}. off_context (d + k) c)"

lemmas instructions = put32_def get32_def ret32_def push32_def set_eax_def set_ebx_def set_ecx_def set_edx_def set_esi_def
  set_edi_def set_ebp_def set_esp_def

lemma off_contextD: "off_context a ctx \<Longrightarrow> k \<in> {0, 4, 8, 12, 16, 20} \<Longrightarrow> ctx + k \<noteq> a"
  by (auto simp: off_context_def)

lemma saved_words_cong:
  assumes "\<And>k. k \<in> {0, 4, 8, 12, 16, 20} \<Longrightarrow> mem32 s' (ctx + k) = mem32 s (ctx + k)"
  shows "saved_words ctx s' = saved_words ctx s"
  unfolding saved_words_def by (rule map_cong [OF refl], rule assms) simp

lemma saved_words_off:
  "off_context a ctx \<Longrightarrow> mem32 s' = (mem32 s)(a := v) \<Longrightarrow> saved_words ctx s' = saved_words ctx s"
  by (auto simp: saved_words_def off_context_def)

lemma context_save_x86_ok:
  assumes "off_context (esp s) ctx" "mem32 s (esp s + 4) = ctx"
  shows "saved_words ctx (context_save_x86 s) = [ebx s, ebp s, edi s, esi s, esp s, mem32 s (esp s)]"
    and "frame32 (context_save_x86 s) = [ebx s, ebp s, edi s, esi s, esp s + 4, mem32 s (esp s)]"
    and "eax (context_save_x86 s) = 0"
    and "off_context a ctx \<Longrightarrow> mem32 (context_save_x86 s) a = mem32 s a"
  using assms by (auto simp: context_save_x86_def saved_words_def frame32_def instructions off_context_def)

lemma restore_nostack_ok:
  assumes "saved_words (ecx s) s = [b, bp, d, si, sp, pc]"
  shows "frame32 (context_restore_nostack s) = [b, bp, d, si, sp + 4, pc]"
    and "eax (context_restore_nostack s) = 1" "mem32 (context_restore_nostack s) = (mem32 s)(sp := pc)"
  using assms by (simp_all add: context_restore_nostack_def saved_words_def frame32_def instructions)

lemma call32_simps:
  "esp (call32 ra [x] s) = esp s - 8" "mem32 (call32 ra [x] s) = (mem32 s)(esp s - 4 := x, esp s - 8 := ra)"
  "ebx (call32 ra [x] s) = ebx s" "ebp (call32 ra [x] s) = ebp s" "edi (call32 ra [x] s) = edi s" "esi (call32 ra [x] s) = esi s"
  by (simp_all add: call32_def push32_def)

lemma slots: "(a :: w32) - 8 + 4 = a - 4" "a - 4 \<noteq> a - 8" "a - 4 + 4 = a"
  by simp_all

lemma save_call:
  assumes "off_context (esp s - 8) ctx"
  shows "saved_words ctx (context_save_x86 (call32 ra [ctx] s)) = [ebx s, ebp s, edi s, esi s, esp s - 8, ra]"
    and "frame32 (context_save_x86 (call32 ra [ctx] s)) = [ebx s, ebp s, edi s, esi s, esp s - 4, ra]"
    and "eax (context_save_x86 (call32 ra [ctx] s)) = 0"
    and "off_context a ctx \<Longrightarrow> mem32 (context_save_x86 (call32 ra [ctx] s)) a = mem32 (call32 ra [ctx] s) a"
proof -
  let ?s = "call32 ra [ctx] s"
  have "off_context (esp ?s) ctx" "mem32 ?s (esp ?s + 4) = ctx" using assms by (simp_all add: call32_simps slots)
  note save = context_save_x86_ok [OF this]
  show "saved_words ctx (context_save_x86 ?s) = [ebx s, ebp s, edi s, esi s, esp s - 8, ra]"
    "frame32 (context_save_x86 ?s) = [ebx s, ebp s, edi s, esi s, esp s - 4, ra]" "eax (context_save_x86 ?s) = 0"
    "off_context a ctx \<Longrightarrow> mem32 (context_save_x86 ?s) a = mem32 ?s a"
    using save by (simp_all add: call32_simps slots)
qed

lemma restore_call:
  assumes "saved_words ctx s = [b, bp, d, si, sp, pc]" "off_context (esp s - 4) ctx" "off_context (esp s - 8) ctx"
  shows "frame32 (context_restore_x86 (call32 ra [ctx] s)) = [b, bp, d, si, sp + 4, pc]"
    and "eax (context_restore_x86 (call32 ra [ctx] s)) = 1"
    and "mem32 (context_restore_x86 (call32 ra [ctx] s)) = (mem32 s)(esp s - 4 := ctx, esp s - 8 := ra, sp := pc)"
proof -
  let ?s = "get32 4 esp set_ecx (call32 ra [ctx] s)"
  have m: "ecx ?s = ctx" "mem32 ?s = (mem32 s)(esp s - 4 := ctx, esp s - 8 := ra)"
    by (simp_all add: instructions call32_simps slots)
  have "saved_words ctx ?s = saved_words ctx (s\<lparr>mem32 := (mem32 s)(esp s - 4 := ctx)\<rparr>)"
    using m(2) assms(3) by (intro saved_words_off) simp_all
  also have "\<dots> = saved_words ctx s" using assms(2) by (intro saved_words_off) simp_all
  finally have "saved_words (ecx ?s) ?s = [b, bp, d, si, sp, pc]" using m(1) assms(1) by simp
  from restore_nostack_ok [OF this] show "frame32 (context_restore_x86 (call32 ra [ctx] s)) = [b, bp, d, si, sp + 4, pc]"
    "eax (context_restore_x86 (call32 ra [ctx] s)) = 1"
    "mem32 (context_restore_x86 (call32 ra [ctx] s)) = (mem32 s)(esp s - 4 := ctx, esp s - 8 := ra, sp := pc)"
    by (simp_all add: context_restore_x86_def m(2))
qed

text \<open>The two slots that a call with one argument writes are clear of a context.\<close>

definition calls_off :: "cpu32 \<Rightarrow> w32 \<Rightarrow> bool" where
  "calls_off s ctx \<longleftrightarrow> off_context (esp s - 4) ctx \<and> off_context (esp s - 8) ctx"

lemma switch_x86_ok:
  assumes words: "saved_words dest s = [b, bp, d, si, sp, pc]"
    and sep: "disjoint_contexts src dest" "calls_off s src" "calls_off s dest" "off_context sp src"
  shows "frame32 (context_switch_x86 src dest ra ra' s) = [b, bp, d, si, sp + 4, pc]"
    and "eax (context_switch_x86 src dest ra ra' s) = 1"
    and "saved_words src (context_switch_x86 src dest ra ra' s) = [ebx s, ebp s, edi s, esi s, esp s - 8, ra]"
proof -
  let ?u = "context_save_x86 (call32 ra [src] s)"
  let ?t = "?u\<lparr>esp := esp ?u + 4\<rparr>"
  have off: "off_context (esp s - 8) src" "off_context (esp s - 4) src" "off_context (esp s - 8) dest" "off_context (esp s - 4) dest"
    using sep(2,3) by (simp_all add: calls_off_def)
  note save = save_call [OF off(1)]
  have esp: "esp ?t = esp s" using save(2) [of ra] by (simp add: frame32_def slots)
  have "mem32 ?t (dest + k) = mem32 s (dest + k)" if "k \<in> {0, 4, 8, 12, 16, 20}" for k
  proof -
    have "off_context (dest + k) src" using sep(1) that unfolding disjoint_contexts_def by blast
    moreover have "dest + k \<noteq> esp s - 4" "dest + k \<noteq> esp s - 8" using off_contextD [OF off(3) that] off_contextD [OF off(4) that] by simp_all
    ultimately show ?thesis by (simp add: save(4) call32_simps)
  qed
  from saved_words_cong [OF this] have words': "saved_words dest ?t = [b, bp, d, si, sp, pc]" using words by simp
  have off': "off_context (esp ?t - 4) dest" "off_context (esp ?t - 8) dest" unfolding esp by (rule off)+
  have eq: "context_switch_x86 src dest ra ra' s = context_restore_x86 (call32 ra' [dest] ?t)"
    using save(3) by (simp add: context_switch_x86_def Let_def)
  note go = restore_call [OF words' off', of ra', unfolded esp]
  show "frame32 (context_switch_x86 src dest ra ra' s) = [b, bp, d, si, sp + 4, pc]" "eax (context_switch_x86 src dest ra ra' s) = 1"
    using go(1,2) by (simp_all only: eq)
  have "mem32 (context_switch_x86 src dest ra ra' s) (src + k) = mem32 ?t (src + k)" if "k \<in> {0, 4, 8, 12, 16, 20}" for k
  proof -
    have "src + k \<noteq> esp s - 4" "src + k \<noteq> esp s - 8" "src + k \<noteq> sp" using off_contextD [OF off(1) that] off_contextD [OF off(2) that] off_contextD [OF sep(4) that] by simp_all
    then show ?thesis by (simp add: eq go(3))
  qed
  from saved_words_cong [OF this] save(1) [of ra]
  show "saved_words src (context_switch_x86 src dest ra ra' s) = [ebx s, ebp s, edi s, esi s, esp s - 8, ra]"
    by (simp add: saved_words_def)
qed

section \<open>Properties\<close>

text \<open>
  C40: On 32-bit machines too a switch continues the destination where it was saved, and when a later
  switch comes back, \<^verbatim>\<open>context_save\<close> returns a second time: to the same place, with the same
  callee-saved registers and stack pointer as the first time, and with 1 for 0.
\<close>

theorem context_switch_x86_roundtrip:
  assumes "saved_words B s = [b, bp, d, si, sp, pc]"
    and "disjoint_contexts A B" "disjoint_contexts B A" "calls_off s A" "calls_off s B" "off_context sp A"
    and "saved_words A s2 = saved_words A (context_switch_x86 A B ra ra' s)"
    and "calls_off s2 A" "calls_off s2 B"
  shows "frame32 (context_switch_x86 A B ra ra' s) = [b, bp, d, si, sp + 4, pc] \<and>
    frame32 (context_switch_x86 B A here here' s2) = frame32 (context_save_x86 (call32 ra [A] s)) \<and>
    eax (context_save_x86 (call32 ra [A] s)) = 0 \<and> eax (context_switch_x86 B A here here' s2) = 1"
proof -
  note out = switch_x86_ok [OF assms(1,2,4,5,6), of ra ra']
  have off: "off_context (esp s - 8) A" "off_context (esp s - 8) B" using assms(4,5) by (simp_all add: calls_off_def)
  have "saved_words A s2 = [ebx s, ebp s, edi s, esi s, esp s - 8, ra]" using assms(7) out(3) by simp
  from switch_x86_ok [OF this assms(3,9,8) off(2), of here here'] out(1) save_call(2,3) [OF off(1), of ra]
  show ?thesis by (simp add: slots)
qed

text \<open>Contexts at 4096 and 8192; the second was saved on a stack at 65528.\<close>

definition two_contexts32 :: cpu32 where
  "two_contexts32 = \<lparr>eax = 0, ebx = 1, ecx = 0, edx = 0, esi = 3, edi = 4, ebp = 2, esp = 32768, eip = 100,
     mem32 = (\<lambda>_. 0)(8208 := 65528, 8212 := 777)\<rparr>"

lemma two_contexts32_ok:
  "saved_words 8192 two_contexts32 = [0, 0, 0, 0, 65528, 777]" "disjoint_contexts 4096 8192" "disjoint_contexts 8192 4096"
  "calls_off two_contexts32 4096" "calls_off two_contexts32 8192" "off_context 65528 4096"
  by (simp_all add: saved_words_def two_contexts32_def disjoint_contexts_def off_context_def calls_off_def)

theorem context_switch_x86_roundtrip_witness:
  "frame32 (context_switch_x86 8192 4096 11 12 (context_switch_x86 4096 8192 9 10 two_contexts32)) =
     frame32 (context_save_x86 (call32 9 [4096] two_contexts32)) \<and>
   esp (context_switch_x86 4096 8192 9 10 two_contexts32) = 65532"
proof -
  let ?t = "context_switch_x86 4096 8192 9 10 two_contexts32"
  have "frame32 ?t = [0, 0, 0, 0, 65532, 777]"
    using switch_x86_ok(1) [OF two_contexts32_ok(1,2,4,5,6), of 9 10] by simp
  then have esp: "esp ?t = 65532" by (simp add: frame32_def)
  then have "calls_off ?t 4096" "calls_off ?t 8192" by (simp_all add: calls_off_def off_context_def)
  from context_switch_x86_roundtrip [OF two_contexts32_ok refl this, of 11 12] esp show ?thesis by simp
qed

text \<open>
  \<^verbatim>\<open>context_cmpxchg_restore\<close> on 32-bit machines, called with a context, the address of an int, an old
  and a new value: it exchanges and continues in the context, or returns what it found with all
  callee-saved registers kept; the only other word it writes is the one below the stack pointer.
\<close>

theorem context_cmpxchg_restore_x86_exchanges:
  assumes "saved_words ctx s = [b, bp, d, si, sp, pc]"
    and "map (\<lambda>k. mem32 s (esp s + k)) [4, 8, 12, 16] = [ctx, addr, old, new]"
    and "off_context (esp s - 4) ctx" "off_context addr ctx" "addr \<noteq> esp s - 4"
  defines "s' \<equiv> context_cmpxchg_restore_x86 s"
  shows "if mem32 s addr = old
    then frame32 s' = [b, bp, d, si, sp + 4, pc] \<and> eax s' = 1 \<and> mem32 s' = (mem32 s)(esp s - 4 := edi s, addr := new, sp := pc)
    else frame32 s' = [ebx s, ebp s, edi s, esi s, esp s + 4, mem32 s (esp s)] \<and> eax s' = mem32 s addr \<and>
      mem32 s' = (mem32 s)(esp s - 4 := edi s)"
proof -
  let ?m = "(mem32 s)(esp s - 4 := edi s)"
  have load: "cmpxchg_load s = s\<lparr>mem32 := ?m, ecx := ctx, edi := addr, eax := old, edx := new\<rparr>"
    using assms(2) by (simp add: cmpxchg_load_def instructions)
  show ?thesis
  proof (cases "mem32 s addr = old")
    case True
    let ?t = "s\<lparr>ecx := ctx, edi := addr, eax := old, edx := new, mem32 := ?m(addr := new)\<rparr>"
    have eq: "s' = context_restore_nostack ?t"
      using True assms(5) by (simp add: s'_def context_cmpxchg_restore_x86_def load put32_def)
    have "saved_words ctx ?t = saved_words ctx (s\<lparr>mem32 := ?m\<rparr>)" using assms(4) by (intro saved_words_off) simp_all
    also have "\<dots> = saved_words ctx s" using assms(3) by (intro saved_words_off) simp_all
    finally have "saved_words (ecx ?t) ?t = [b, bp, d, si, sp, pc]" using assms(1) by simp
    from restore_nostack_ok [OF this] True show ?thesis by (simp add: eq)
  next
    case False
    then show ?thesis
      using assms(5) by (simp add: s'_def context_cmpxchg_restore_x86_def load cmpxchg_fail_def instructions frame32_def)
  qed
qed

definition exchanging :: cpu32 where
  "exchanging = two_contexts32\<lparr>mem32 := (mem32 two_contexts32)(32772 := 8192, 32776 := 40, 32780 := 2, 32784 := 4, 40 := 2)\<rparr>"

theorem context_cmpxchg_restore_x86_exchanges_witness:
  "mem32 (context_cmpxchg_restore_x86 exchanging) 40 = 4 \<and> eip (context_cmpxchg_restore_x86 exchanging) = 777"
  using context_cmpxchg_restore_x86_exchanges [of 8192 exchanging 0 0 0 0 65528 777 40 2 4]
  by (simp add: exchanging_def two_contexts32_def saved_words_def off_context_def frame32_def)

text \<open>
  The word below the stack pointer is not the routine's own on this machine: a signal that
  arrives between the exchange and the reload of \<^verbatim>\<open>edi\<close> pushes its frame there, and the caller gets
  back whatever the signal left.
\<close>

theorem x86_signal_overwrites_edi:
  assumes "s1 = set_eax v (cmpxchg_load s)"
  shows "edi (cmpxchg_fail (s1\<lparr>mem32 := (mem32 s1)(esp s1 - 4 := x)\<rparr>)) = x"
  by (simp add: cmpxchg_fail_def instructions)

end
