(* ===== verification/Util_List.thy ===== *)
theory Util_List
  imports Prelude
begin

text \<open>
  The intrusive circular doubly-linked list of \<^verbatim>\<open>src/util/list.h\<close>, over an explicit memory
  of list nodes, and the proof that its pointer operations implement sequences.
\<close>

section \<open>Nodes and memory\<close>

record 'p list_node =
  node_next :: "'p option"
  node_prev :: "'p option"

text \<open>A memory maps the addresses of live nodes to their contents; \<open>None\<close> as a pointer is NULL.\<close>

type_synonym 'p memory = "'p \<Rightarrow> 'p list_node option"

definition get_next :: "'p memory \<Rightarrow> 'p option \<Rightarrow> 'p option res" where
  "get_next m p = (case p of None \<Rightarrow> Inl Null_deref
     | Some a \<Rightarrow> (case m a of None \<Rightarrow> Inl Bad_pointer | Some n \<Rightarrow> Inr (node_next n)))"

definition get_prev :: "'p memory \<Rightarrow> 'p option \<Rightarrow> 'p option res" where
  "get_prev m p = (case p of None \<Rightarrow> Inl Null_deref
     | Some a \<Rightarrow> (case m a of None \<Rightarrow> Inl Bad_pointer | Some n \<Rightarrow> Inr (node_prev n)))"

definition set_next :: "'p memory \<Rightarrow> 'p option \<Rightarrow> 'p option \<Rightarrow> 'p memory res" where
  "set_next m p v = (case p of None \<Rightarrow> Inl Null_deref
     | Some a \<Rightarrow> (case m a of None \<Rightarrow> Inl Bad_pointer
         | Some n \<Rightarrow> Inr (m(a \<mapsto> n\<lparr>node_next := v\<rparr>))))"

definition set_prev :: "'p memory \<Rightarrow> 'p option \<Rightarrow> 'p option \<Rightarrow> 'p memory res" where
  "set_prev m p v = (case p of None \<Rightarrow> Inl Null_deref
     | Some a \<Rightarrow> (case m a of None \<Rightarrow> Inl Bad_pointer
         | Some n \<Rightarrow> Inr (m(a \<mapsto> n\<lparr>node_prev := v\<rparr>))))"

section \<open>The operations of list.h\<close>

definition list_init :: "'p memory \<Rightarrow> 'p \<Rightarrow> 'p memory res" where
  "list_init m l =
     andthen (set_next m (Some l) (Some l)) (\<lambda>m. set_prev m (Some l) (Some l))"

definition list_node_init :: "'p memory \<Rightarrow> 'p \<Rightarrow> 'p memory res" where
  "list_node_init m n =
     andthen (set_next m (Some n) None) (\<lambda>m. set_prev m (Some n) None)"

definition list_debug_check :: "bool \<Rightarrow> 'p memory \<Rightarrow> 'p option \<Rightarrow> unit res" where
  "list_debug_check dbg m p =
     (if dbg then andthen (get_next m p) (\<lambda>n. andthen (get_prev m p) (\<lambda>q.
        c_assert (n \<noteq> None \<and> q \<noteq> None)))
      else Inr ())"

definition list_empty :: "bool \<Rightarrow> 'p memory \<Rightarrow> 'p \<Rightarrow> bool res" where
  "list_empty dbg m l =
     andthen (list_debug_check dbg m (Some l)) (\<lambda>_.
     andthen (get_next m (Some l)) (\<lambda>n. Inr (n = Some l)))"

definition list_in_list :: "'p memory \<Rightarrow> 'p \<Rightarrow> bool res" where
  "list_in_list m p =
     andthen (get_next m (Some p)) (\<lambda>n.
     if n \<noteq> None then Inr True
     else andthen (get_prev m (Some p)) (\<lambda>q. Inr (q \<noteq> None)))"

definition list_front :: "bool \<Rightarrow> 'p memory \<Rightarrow> 'p \<Rightarrow> 'p option res" where
  "list_front dbg m l =
     andthen (list_debug_check dbg m (Some l)) (\<lambda>_. get_next m (Some l))"

definition list_back :: "bool \<Rightarrow> 'p memory \<Rightarrow> 'p \<Rightarrow> 'p option res" where
  "list_back dbg m l =
     andthen (list_debug_check dbg m (Some l)) (\<lambda>_. get_prev m (Some l))"

definition list_insert :: "bool \<Rightarrow> 'p memory \<Rightarrow> 'p option \<Rightarrow> 'p option \<Rightarrow> 'p memory res" where
  "list_insert dbg m aft item =
     andthen (list_debug_check dbg m aft) (\<lambda>_.
     andthen (debug_assert dbg (aft \<noteq> item)) (\<lambda>_.
     andthen (get_next m aft) (\<lambda>n.
     andthen (set_next m item n) (\<lambda>m.
     andthen (set_prev m item aft) (\<lambda>m.
     andthen (set_next m aft item) (\<lambda>m.
     andthen (get_next m item) (\<lambda>n'.
     set_prev m n' item)))))))"

definition list_remove :: "bool \<Rightarrow> 'p memory \<Rightarrow> 'p option \<Rightarrow> 'p memory res" where
  "list_remove dbg m item =
     andthen (list_debug_check dbg m item) (\<lambda>_.
     andthen (get_prev m item) (\<lambda>q.
     andthen (get_next m item) (\<lambda>n.
     andthen (set_next m q n) (\<lambda>m.
     andthen (get_next m item) (\<lambda>n.
     andthen (get_prev m item) (\<lambda>q.
     andthen (set_prev m n q) (\<lambda>m.
     andthen (set_prev m item None) (\<lambda>m.
     set_next m item None))))))))"

definition list_push_front :: "bool \<Rightarrow> 'p memory \<Rightarrow> 'p \<Rightarrow> 'p \<Rightarrow> 'p memory res" where
  "list_push_front dbg m l entry = list_insert dbg m (Some l) (Some entry)"

definition list_push_back :: "bool \<Rightarrow> 'p memory \<Rightarrow> 'p \<Rightarrow> 'p \<Rightarrow> 'p memory res" where
  "list_push_back dbg m l entry =
     andthen (list_back dbg m l) (\<lambda>b. list_insert dbg m b (Some entry))"

definition list_pop_front :: "bool \<Rightarrow> 'p memory \<Rightarrow> 'p \<Rightarrow> ('p option \<times> 'p memory) res" where
  "list_pop_front dbg m l =
     andthen (if dbg then andthen (list_empty dbg m l) (\<lambda>e. c_assert (\<not> e)) else Inr ()) (\<lambda>_.
     andthen (get_next m (Some l)) (\<lambda>front.
     andthen (list_remove dbg m front) (\<lambda>m. Inr (front, m))))"

definition list_pop_back :: "bool \<Rightarrow> 'p memory \<Rightarrow> 'p \<Rightarrow> ('p option \<times> 'p memory) res" where
  "list_pop_back dbg m l =
     andthen (if dbg then andthen (list_empty dbg m l) (\<lambda>e. c_assert (\<not> e)) else Inr ()) (\<lambda>_.
     andthen (get_prev m (Some l)) (\<lambda>back.
     andthen (list_remove dbg m back) (\<lambda>m. Inr (back, m))))"

text \<open>
  \<^verbatim>\<open>LIST_FOR_EACH(node, list) body\<close>, where the body may change the memory; the first argument bounds the number of
  tests of the loop.
\<close>

primrec list_for_each_from ::
  "nat \<Rightarrow> ('p option \<Rightarrow> 'p memory \<times> 's \<Rightarrow> ('p memory \<times> 's) res) \<Rightarrow> 'p \<Rightarrow> 'p option \<Rightarrow> 'p memory \<times> 's \<Rightarrow> ('p memory \<times> 's) res" where
  "list_for_each_from 0 body l node ms = Inl Diverged"
| "list_for_each_from (Suc n) body l node ms =
     (if node = Some l then Inr ms
      else
        andthen (body node ms) (\<lambda>ms.
        andthen (get_next (fst ms) node) (\<lambda>node. list_for_each_from n body l node ms)))"

definition list_for_each ::
  "nat \<Rightarrow> ('p option \<Rightarrow> 'p memory \<times> 's \<Rightarrow> ('p memory \<times> 's) res) \<Rightarrow> 'p \<Rightarrow> 'p memory \<times> 's \<Rightarrow> ('p memory \<times> 's) res" where
  "list_for_each n body l ms = andthen (get_next (fst ms) (Some l)) (\<lambda>node. list_for_each_from n body l node ms)"

section \<open>Abstraction to sequences\<close>

text \<open>
  \<open>dlist m l xs\<close>: the sentinel at \<open>l\<close> heads a circular list whose entries, front to
  back, are \<open>xs\<close>; both pointer directions agree and no node occurs twice.
  \<open>detached m n\<close>: the live node \<open>n\<close> is on no list, as \<^verbatim>\<open>list_node_init\<close> leaves it.
\<close>

definition nextp :: "'p memory \<Rightarrow> 'p \<Rightarrow> 'p option" where
  "nextp m a = (case m a of None \<Rightarrow> None | Some n \<Rightarrow> node_next n)"

definition prevp :: "'p memory \<Rightarrow> 'p \<Rightarrow> 'p option" where
  "prevp m a = (case m a of None \<Rightarrow> None | Some n \<Rightarrow> node_prev n)"

fun linked :: "'p memory \<Rightarrow> 'p list \<Rightarrow> bool" where
  "linked m (a # b # ps) = (nextp m a = Some b \<and> prevp m b = Some a \<and> linked m (b # ps))"
| "linked m _ = True"

definition dlist :: "'p memory \<Rightarrow> 'p \<Rightarrow> 'p list \<Rightarrow> bool" where
  "dlist m l xs \<longleftrightarrow> distinct (l # xs) \<and> linked m (l # xs @ [l])"

definition detached :: "'p memory \<Rightarrow> 'p \<Rightarrow> bool" where
  "detached m n \<longleftrightarrow> m n = Some \<lparr>node_next = None, node_prev = None\<rparr>"

named_theorems mem_simps \<open>reading and writing list nodes\<close>

lemmas [mem_simps] = get_next_def get_prev_def set_next_def set_prev_def nextp_def prevp_def

lemma linked_append:
  "linked m (as @ a # b # bs) \<longleftrightarrow>
     linked m (as @ [a]) \<and> nextp m a = Some b \<and> prevp m b = Some a \<and> linked m (b # bs)"
proof (induction as)
  case Nil
  then show ?case by simp
next
  case (Cons x as)
  then show ?case by (cases as) auto
qed

lemma linked_cong:
  assumes "linked m ps"
    and "\<And>a. a \<in> set (butlast ps) \<Longrightarrow> nextp m' a = nextp m a"
    and "\<And>b. b \<in> set (tl ps) \<Longrightarrow> prevp m' b = prevp m b"
  shows "linked m' ps"
  using assms
proof (induction m ps rule: linked.induct)
  case (1 m a b ps)
  have "linked m' (b # ps)"
  proof (rule "1.IH")
    show "linked m (b # ps)" using "1.prems"(1) by simp
    show "nextp m' x = nextp m x" if "x \<in> set (butlast (b # ps))" for x
      using "1.prems"(2) that by simp
    show "prevp m' x = prevp m x" if "x \<in> set (tl (b # ps))" for x
      using "1.prems"(3) that by simp
  qed
  with "1.prems" show ?case by simp
qed simp_all

lemma nextp_SomeD: "nextp m a = Some b \<Longrightarrow> \<exists>n. m a = Some n \<and> node_next n = Some b"
  by (auto simp: nextp_def split: option.splits)

lemma prevp_SomeD: "prevp m a = Some b \<Longrightarrow> \<exists>n. m a = Some n \<and> node_prev n = Some b"
  by (auto simp: prevp_def split: option.splits)

lemma get_next_nextp: "m a \<noteq> None \<Longrightarrow> get_next m (Some a) = Inr (nextp m a)"
  by (auto simp: mem_simps)

lemma get_prev_prevp: "m a \<noteq> None \<Longrightarrow> get_prev m (Some a) = Inr (prevp m a)"
  by (auto simp: mem_simps)

lemma list_debug_check_ok:
  "nextp m a \<noteq> None \<Longrightarrow> prevp m a \<noteq> None \<Longrightarrow> list_debug_check dbg m (Some a) = Inr ()"
  by (auto simp: list_debug_check_def mem_simps split: option.splits)

section \<open>Pointer updates\<close>

text \<open>The writes of a field at a live address, as functions on memories.\<close>

definition put_next :: "'p memory \<Rightarrow> 'p \<Rightarrow> 'p option \<Rightarrow> 'p memory" where
  "put_next m a v = m(a := map_option (\<lambda>n. n\<lparr>node_next := v\<rparr>) (m a))"

definition put_prev :: "'p memory \<Rightarrow> 'p \<Rightarrow> 'p option \<Rightarrow> 'p memory" where
  "put_prev m a v = m(a := map_option (\<lambda>n. n\<lparr>node_prev := v\<rparr>) (m a))"

named_theorems put_simps \<open>effect of pointer writes\<close>

lemma set_next_put [put_simps]: "m a \<noteq> None \<Longrightarrow> set_next m (Some a) v = Inr (put_next m a v)"
  by (auto simp: set_next_def put_next_def)

lemma set_prev_put [put_simps]: "m a \<noteq> None \<Longrightarrow> set_prev m (Some a) v = Inr (put_prev m a v)"
  by (auto simp: set_prev_def put_prev_def)

lemma put_live [put_simps]:
  "put_next m a v p = None \<longleftrightarrow> m p = None"
  "put_prev m a v p = None \<longleftrightarrow> m p = None"
  by (auto simp: put_next_def put_prev_def)

lemma put_other [put_simps]:
  "p \<noteq> a \<Longrightarrow> put_next m a v p = m p"
  "p \<noteq> a \<Longrightarrow> put_prev m a v p = m p"
  by (auto simp: put_next_def put_prev_def)

lemma nextp_put [put_simps]:
  "m a \<noteq> None \<Longrightarrow> nextp (put_next m a v) p = (if p = a then v else nextp m p)"
  "nextp (put_prev m a v) p = nextp m p"
  by (auto simp: nextp_def put_next_def put_prev_def split: option.splits)

lemma prevp_put [put_simps]:
  "m a \<noteq> None \<Longrightarrow> prevp (put_prev m a v) p = (if p = a then v else prevp m p)"
  "prevp (put_next m a v) p = prevp m p"
  by (auto simp: prevp_def put_next_def put_prev_def split: option.splits)

lemma list_insert_put:
  assumes "nextp m a = Some b" "prevp m a \<noteq> None" "m b \<noteq> None" "m i \<noteq> None" "a \<noteq> i" "b \<noteq> i"
  shows "list_insert dbg m (Some a) (Some i) =
    Inr (put_prev (put_next (put_prev (put_next m i (Some b)) i (Some a)) a (Some i)) b (Some i))"
proof -
  have live: "m a \<noteq> None" using assms(1) by (auto dest: nextp_SomeD)
  have "list_debug_check dbg m (Some a) = Inr ()"
    using assms(1,2) by (simp add: list_debug_check_ok)
  with live assms show ?thesis
    by (simp add: list_insert_def get_next_nextp put_simps)
qed

lemma list_remove_put:
  assumes "nextp m i = Some b" "prevp m i = Some a" "m a \<noteq> None" "m b \<noteq> None" "a \<noteq> i" "b \<noteq> i"
  shows "list_remove dbg m (Some i) =
    Inr (put_next (put_prev (put_prev (put_next m a (Some b)) b (Some a)) i None) i None)"
proof -
  have live: "m i \<noteq> None" using assms(1) by (auto dest: nextp_SomeD)
  have "list_debug_check dbg m (Some i) = Inr ()"
    using assms(1,2) by (simp add: list_debug_check_ok)
  with live assms show ?thesis
    by (simp add: list_remove_def get_next_nextp get_prev_prevp put_simps)
qed

section \<open>Sequences in memory\<close>

lemma linked_Cons:
  "linked m (i # zs) \<longleftrightarrow>
     zs = [] \<or> nextp m i = Some (hd zs) \<and> prevp m (hd zs) = Some i \<and> linked m zs"
  by (cases zs) auto

lemma linked_join:
  "as \<noteq> [] \<Longrightarrow> bs \<noteq> [] \<Longrightarrow> linked m (as @ bs) \<longleftrightarrow>
     linked m as \<and> nextp m (last as) = Some (hd bs) \<and> prevp m (hd bs) = Some (last as) \<and>
     linked m bs"
  using linked_append [of m "butlast as" "last as" "hd bs" "tl bs"]
  by (simp add: append_butlast_last_id flip: append_Cons) 
    (metis append.assoc append_Cons append_Nil append_butlast_last_id list.collapse)

text \<open>A list split at a position: the part up to it, the part after it, and the link between.\<close>

lemma dlist_split:
  "dlist m l (xs @ ys) \<longleftrightarrow>
     distinct (l # xs @ ys) \<and> linked m (l # xs) \<and> linked m (ys @ [l]) \<and>
     nextp m (last (l # xs)) = Some (hd (ys @ [l])) \<and>
     prevp m (hd (ys @ [l])) = Some (last (l # xs))"
  using linked_join [of "l # xs" "ys @ [l]" m] by (auto simp: dlist_def)

lemma dlist_distinct: "dlist m l xs \<Longrightarrow> distinct (l # xs)"
  by (simp add: dlist_def)

lemma dlist_prevp: "dlist m l xs \<Longrightarrow> p \<in> set (l # xs) \<Longrightarrow> prevp m p \<noteq> None"
proof -
  assume d: "dlist m l xs" and p: "p \<in> set (l # xs)"
  show ?thesis
  proof (cases "p = l")
    case True
    with dlist_split [of m l xs "[]"] d show ?thesis by simp
  next
    case False
    with p obtain ys zs where "xs = ys @ p # zs" by (auto dest: split_list)
    with dlist_split [of m l ys "p # zs"] d show ?thesis by simp
  qed
qed

lemma dlist_nextp: "dlist m l xs \<Longrightarrow> p \<in> set (l # xs) \<Longrightarrow> nextp m p \<noteq> None"
proof -
  assume d: "dlist m l xs" and p: "p \<in> set (l # xs)"
  show ?thesis
  proof (cases "p = l")
    case True
    with dlist_split [of m l "[]" xs] d show ?thesis by simp
  next
    case False
    with p obtain ys zs where "xs = (ys @ [p]) @ zs" by (auto dest: split_list)
    with dlist_split [of m l "ys @ [p]" zs] d show ?thesis by simp
  qed
qed

lemma dlist_live: "dlist m l xs \<Longrightarrow> p \<in> set (l # xs) \<Longrightarrow> m p \<noteq> None"
  using dlist_nextp [of m l xs p] by (auto dest: nextp_SomeD)

lemma dlist_detached: "dlist m l xs \<Longrightarrow> detached m n \<Longrightarrow> n \<notin> set (l # xs)"
  using dlist_nextp [of m l xs n] by (auto simp: detached_def nextp_def)

lemma dlist_cong:
  assumes "dlist m l xs" and "\<And>p. p \<in> set (l # xs) \<Longrightarrow> m' p = m p"
  shows "dlist m' l xs"
  unfolding dlist_def
proof
  show "distinct (l # xs)" using assms(1) by (rule dlist_distinct)
  have "linked m (l # xs @ [l])" using assms(1) by (simp add: dlist_def)
  moreover have "set (l # xs @ [l]) = set (l # xs)" by auto
  ultimately show "linked m' (l # xs @ [l])"
    using assms(2) by (auto intro!: linked_cong [of m] simp: nextp_def prevp_def
        dest: in_set_butlastD split: if_splits)
qed

text \<open>The two parts keep their links under writes outside them.\<close>

lemma linked_left_cong:
  assumes "linked m (l # xs)" "distinct (l # xs)"
    and "\<And>p. p \<in> set (l # xs) \<Longrightarrow> p \<noteq> last (l # xs) \<Longrightarrow> nextp m' p = nextp m p"
    and "\<And>p. p \<in> set xs \<Longrightarrow> prevp m' p = prevp m p"
  shows "linked m' (l # xs)"
proof (rule linked_cong [OF assms(1)])
  fix p assume p: "p \<in> set (butlast (l # xs))"
  have "distinct (butlast (l # xs) @ [last (l # xs)])"
    using assms(2) append_butlast_last_id [of "l # xs"] by simp
  with p have "p \<noteq> last (l # xs)" by auto
  with p assms(3) show "nextp m' p = nextp m p" by (blast dest: in_set_butlastD)
qed (use assms(4) in simp)

lemma linked_right_cong:
  assumes "linked m (ys @ [l])" "distinct (l # ys)"
    and "\<And>p. p \<in> set ys \<Longrightarrow> nextp m' p = nextp m p"
    and "\<And>p. p \<in> set (l # ys) \<Longrightarrow> p \<noteq> hd (ys @ [l]) \<Longrightarrow> prevp m' p = prevp m p"
  shows "linked m' (ys @ [l])"
proof (rule linked_cong [OF assms(1)])
  fix p assume "p \<in> set (tl (ys @ [l]))"
  then have "p \<in> set (l # ys)" and "p \<noteq> hd (ys @ [l])"
    using assms(2) by (cases ys; auto)+
  then show "prevp m' p = prevp m p" by (rule assms(4))
qed (use assms(3) in simp)

lemma ends_in_list:
  "last (l # xs) \<in> set (l # xs)" "hd (ys @ [l]) \<in> set (l # ys)"
  using last_in_set [of "l # xs"] by (simp_all add: hd_append)

text \<open>Inserting a node after any position of the list.\<close>

lemma dlist_insert:
  assumes d: "dlist m l (xs @ ys)" and i: "i \<notin> set (l # xs @ ys)" and live: "m i \<noteq> None"
  shows "\<exists>m'. list_insert dbg m (Some (last (l # xs))) (Some i) = Inr m' \<and>
    dlist m' l (xs @ i # ys) \<and> (\<forall>p. p \<notin> set (i # l # xs @ ys) \<longrightarrow> m' p = m p) \<and>
    (\<forall>p. m' p = None \<longleftrightarrow> m p = None)"
proof -
  define a b where "a = last (l # xs)" and "b = hd (ys @ [l])"
  have ab: "a \<in> set (l # xs)" "b \<in> set (l # ys)"
    unfolding a_def b_def by (rule ends_in_list)+
  have neq: "a \<noteq> i" "b \<noteq> i" using ab i by auto
  have live_ab: "m a \<noteq> None" "m b \<noteq> None" using ab dlist_live [OF d] by auto
  have split: "distinct (l # xs @ ys)" "linked m (l # xs)" "linked m (ys @ [l])" "nextp m a = Some b"
    using d unfolding dlist_split a_def b_def by simp_all
  define m' where "m' = put_prev (put_next (put_prev (put_next m i (Some b)) i (Some a)) a (Some i)) b (Some i)"
  have run: "list_insert dbg m (Some a) (Some i) = Inr m'"
    unfolding m'_def using split(4) dlist_prevp [OF d, of a] ab neq live_ab live
    by (intro list_insert_put) auto
  have nx: "nextp m' p = (if p = a then Some i else if p = i then Some b else nextp m p)"
    and pv: "prevp m' p = (if p = b then Some i else if p = i then Some a else prevp m p)" for p
    unfolding m'_def using live live_ab neq by (simp_all add: put_simps)
  have "linked m' (l # xs)"
    by (rule linked_left_cong [OF split(2)]) (use split(1) i ab nx pv in \<open>auto simp: a_def\<close>)
  moreover have "linked m' (ys @ [l])"
    by (rule linked_right_cong [OF split(3)]) (use split(1) i ab nx pv in \<open>auto simp: b_def\<close>)
  ultimately have "dlist m' l (xs @ i # ys)"
    unfolding dlist_split using split(1) i nx pv neq
    by (auto simp: linked_Cons simp flip: a_def b_def simp del: last.simps)
  moreover have "\<forall>p. p \<notin> set (i # l # xs @ ys) \<longrightarrow> m' p = m p"
    using ab unfolding m'_def put_next_def put_prev_def by auto
  moreover have "\<forall>p. m' p = None \<longleftrightarrow> m p = None"
    unfolding m'_def by (simp add: put_simps)
  ultimately show ?thesis using run unfolding a_def by blast
qed

text \<open>Removing the entry at any position of the list; the removed node ends up detached.\<close>

lemma dlist_remove:
  assumes d: "dlist m l (xs @ i # ys)"
  shows "\<exists>m'. list_remove dbg m (Some i) = Inr m' \<and> dlist m' l (xs @ ys) \<and> detached m' i \<and>
    (\<forall>p. p \<notin> set (l # xs @ i # ys) \<longrightarrow> m' p = m p) \<and> (\<forall>p. m' p = None \<longleftrightarrow> m p = None)"
proof -
  define a b where "a = last (l # xs)" and "b = hd (ys @ [l])"
  have ab: "a \<in> set (l # xs)" "b \<in> set (l # ys)"
    unfolding a_def b_def by (rule ends_in_list)+
  have dist: "distinct (l # xs @ i # ys)" using d by (rule dlist_distinct)
  then have neq: "a \<noteq> i" "b \<noteq> i" using ab by auto
  have live: "m a \<noteq> None" "m b \<noteq> None" "m i \<noteq> None" using ab dlist_live [OF d] by auto
  have split: "linked m (l # xs)" "linked m (ys @ [l])" "nextp m i = Some b" "prevp m i = Some a"
    using d unfolding dlist_split a_def b_def by (simp_all add: linked_Cons)
  define m' where "m' = put_next (put_prev (put_prev (put_next m a (Some b)) b (Some a)) i None) i None"
  have run: "list_remove dbg m (Some i) = Inr m'"
    unfolding m'_def using split live neq by (intro list_remove_put) auto
  have nx: "nextp m' p = (if p = i then None else if p = a then Some b else nextp m p)"
    and pv: "prevp m' p = (if p = i then None else if p = b then Some a else prevp m p)" for p
    unfolding m'_def using live neq by (simp_all add: put_simps)
  have "linked m' (l # xs)"
    by (rule linked_left_cong [OF split(1)]) (use dist ab nx pv in \<open>auto simp: a_def\<close>)
  moreover have "linked m' (ys @ [l])"
    by (rule linked_right_cong [OF split(2)]) (use dist ab nx pv in \<open>auto simp: b_def\<close>)
  ultimately have "dlist m' l (xs @ ys)"
    unfolding dlist_split using dist nx pv neq
    by (auto simp flip: a_def b_def simp del: last.simps)
  moreover have "detached m' i"
    unfolding detached_def m'_def put_next_def put_prev_def using live(3) by auto
  moreover have "\<forall>p. p \<notin> set (l # xs @ i # ys) \<longrightarrow> m' p = m p"
    using ab unfolding m'_def put_next_def put_prev_def by auto
  moreover have "\<forall>p. m' p = None \<longleftrightarrow> m p = None"
    unfolding m'_def by (simp add: put_simps)
  ultimately show ?thesis using run by blast
qed

section \<open>The contract of a queue of nodes\<close>

text \<open>
  What the scheduler relies on: a first-in first-out queue of nodes that live in a shared
  memory, headed by an address. \<open>rep m l xs\<close> says which sequence the queue at \<open>l\<close> holds,
  \<open>unqueued m n\<close> that a node is on no queue. Each operation leaves the queues it does
  not touch, and the unqueued nodes, as they were.
\<close>

locale node_queue =
  fixes rep :: "'m \<Rightarrow> 'p \<Rightarrow> 'p list \<Rightarrow> bool"
    and unqueued :: "'m \<Rightarrow> 'p \<Rightarrow> bool"
    and is_empty :: "'m \<Rightarrow> 'p \<Rightarrow> bool res"
    and push :: "'m \<Rightarrow> 'p \<Rightarrow> 'p \<Rightarrow> 'm res"
    and pop :: "'m \<Rightarrow> 'p \<Rightarrow> ('p option \<times> 'm) res"
  assumes rep_distinct: "rep m l xs \<Longrightarrow> distinct (l # xs)"
    and rep_unqueued: "rep m l xs \<Longrightarrow> unqueued m n \<Longrightarrow> n \<notin> set (l # xs)"
    and rep_is_empty: "rep m l xs \<Longrightarrow> is_empty m l = Inr (xs = [])"
    and rep_push: "rep m l xs \<Longrightarrow> unqueued m n \<Longrightarrow>
      \<exists>m'. push m l n = Inr m' \<and> rep m' l (xs @ [n]) \<and>
        (\<forall>k. unqueued m k \<longrightarrow> k \<noteq> n \<longrightarrow> unqueued m' k) \<and>
        (\<forall>l' ys. rep m l' ys \<longrightarrow> set (l' # ys) \<inter> set (l # xs) = {} \<longrightarrow> rep m' l' ys)"
    and rep_pop: "rep m l (x # xs) \<Longrightarrow>
      \<exists>m'. pop m l = Inr (Some x, m') \<and> rep m' l xs \<and> unqueued m' x \<and>
        (\<forall>k. unqueued m k \<longrightarrow> unqueued m' k) \<and>
        (\<forall>l' ys. rep m l' ys \<longrightarrow> set (l' # ys) \<inter> set (l # x # xs) = {} \<longrightarrow> rep m' l' ys)"
begin

text \<open>One turn of a round robin: the running node goes to the back, the front one comes off.\<close>

lemma turn:
  assumes "rep m l (x # xs)" "unqueued m c"
  shows "\<exists>m1 m2. push m l c = Inr m1 \<and> pop m1 l = Inr (Some x, m2) \<and> rep m2 l (xs @ [c]) \<and>
    unqueued m2 x \<and> (\<forall>k. unqueued m k \<longrightarrow> k \<noteq> c \<longrightarrow> unqueued m2 k) \<and>
    (\<forall>l' ys. rep m l' ys \<longrightarrow> c \<notin> set (l' # ys) \<longrightarrow>
       set (l' # ys) \<inter> set (l # x # xs) = {} \<longrightarrow> rep m2 l' ys)"
proof -
  obtain m1 where m1: "push m l c = Inr m1" "rep m1 l ((x # xs) @ [c])"
    "\<forall>k. unqueued m k \<longrightarrow> k \<noteq> c \<longrightarrow> unqueued m1 k"
    "\<forall>l' ys. rep m l' ys \<longrightarrow> set (l' # ys) \<inter> set (l # x # xs) = {} \<longrightarrow> rep m1 l' ys"
    using rep_push [OF assms] by blast
  then have "rep m1 l (x # xs @ [c])" by simp
  from rep_pop [OF this] obtain m2 where m2: "pop m1 l = Inr (Some x, m2)" "rep m2 l (xs @ [c])"
    "unqueued m2 x" "\<forall>k. unqueued m1 k \<longrightarrow> unqueued m2 k"
    "\<forall>l' ys. rep m1 l' ys \<longrightarrow> set (l' # ys) \<inter> set (l # x # xs @ [c]) = {} \<longrightarrow> rep m2 l' ys"
    by blast
  have "rep m2 l' ys" if "rep m l' ys" "c \<notin> set (l' # ys)" "set (l' # ys) \<inter> set (l # x # xs) = {}" for l' ys
  proof -
    have "rep m1 l' ys" using m1(4) that by blast
    moreover have "set (l' # ys) \<inter> set (l # x # xs @ [c]) = {}" using that(2,3) by auto
    ultimately show ?thesis using m2(5) by blast
  qed
  with m1 m2 show ?thesis by blast
qed

end

section \<open>The list operations meet the contract\<close>

lemma list_init_ok:
  "m l \<noteq> None \<Longrightarrow> \<exists>m'. list_init m l = Inr m' \<and> dlist m' l [] \<and> (\<forall>p. p \<noteq> l \<longrightarrow> m' p = m p)"
  by (simp add: list_init_def put_simps dlist_def)

lemma list_node_init_ok:
  "m n \<noteq> None \<Longrightarrow> \<exists>m'. list_node_init m n = Inr m' \<and> detached m' n \<and> (\<forall>p. p \<noteq> n \<longrightarrow> m' p = m p)"
  by (auto simp: list_node_init_def put_simps detached_def put_next_def put_prev_def)

lemma list_empty_ok: "dlist m l xs \<Longrightarrow> list_empty dbg m l = Inr (xs = [])"
  using dlist_split [of m l "[]" xs] dlist_live [of m l xs l] dlist_nextp [of m l xs l] dlist_prevp [of m l xs l]
  by (cases xs) (auto simp: list_empty_def list_debug_check_ok get_next_nextp)

lemma list_in_list_queued: "dlist m l xs \<Longrightarrow> n \<in> set (l # xs) \<Longrightarrow> list_in_list m n = Inr True"
  using dlist_live [of m l xs n] dlist_nextp [of m l xs n]
  by (simp add: list_in_list_def get_next_nextp)

lemma list_in_list_detached: "detached m n \<Longrightarrow> list_in_list m n = Inr False"
  by (simp add: list_in_list_def detached_def get_next_def get_prev_def)

lemma list_back_ok: "dlist m l xs \<Longrightarrow> list_back dbg m l = Inr (Some (last (l # xs)))"
  using dlist_split [of m l xs "[]"] dlist_live [of m l xs l] dlist_nextp [of m l xs l] dlist_prevp [of m l xs l]
  by (auto simp: list_back_def list_debug_check_ok get_prev_prevp)

lemma list_front_ok: "dlist m l xs \<Longrightarrow> list_front dbg m l = Inr (Some (hd (xs @ [l])))"
  using dlist_split [of m l "[]" xs] dlist_live [of m l xs l] dlist_nextp [of m l xs l] dlist_prevp [of m l xs l]
  by (auto simp: list_front_def list_debug_check_ok get_next_nextp)

lemma detached_live: "detached m n \<Longrightarrow> m n \<noteq> None"
  by (simp add: detached_def)

text \<open>Frame of an update confined to the nodes of one list.\<close>

lemma dlist_frame:
  assumes "\<forall>p. p \<notin> S \<longrightarrow> m' p = m p"
  shows "dlist m l ys \<Longrightarrow> set (l # ys) \<inter> S = {} \<Longrightarrow> dlist m' l ys"
    and "detached m k \<Longrightarrow> k \<notin> S \<Longrightarrow> detached m' k"
  using assms by (auto intro!: dlist_cong [of m l ys m'] simp: detached_def disjoint_iff)

lemma list_push_back_ok:
  assumes "dlist m l xs" "detached m n"
  shows "\<exists>m'. list_push_back dbg m l n = Inr m' \<and> dlist m' l (xs @ [n]) \<and>
    (\<forall>p. p \<notin> set (n # l # xs) \<longrightarrow> m' p = m p)"
  using dlist_insert [of m l xs "[]" n dbg] assms dlist_detached [OF assms] detached_live [OF assms(2)]
  by (auto simp: list_push_back_def list_back_ok simp del: last.simps)

lemma list_push_front_ok:
  assumes "dlist m l xs" "detached m n"
  shows "\<exists>m'. list_push_front dbg m l n = Inr m' \<and> dlist m' l (n # xs) \<and>
    (\<forall>p. p \<notin> set (n # l # xs) \<longrightarrow> m' p = m p)"
  using dlist_insert [of m l "[]" xs n dbg] assms dlist_detached [OF assms] detached_live [OF assms(2)]
  by (auto simp: list_push_front_def)

lemma list_pop_front_ok:
  assumes "dlist m l (x # xs)"
  shows "\<exists>m'. list_pop_front dbg m l = Inr (Some x, m') \<and> dlist m' l xs \<and> detached m' x \<and>
    (\<forall>p. p \<notin> set (l # x # xs) \<longrightarrow> m' p = m p)"
  using dlist_remove [of m l "[]" x xs dbg] dlist_split [of m l "[]" "x # xs"] dlist_live [OF assms, of l] assms
  by (auto simp: list_pop_front_def list_empty_ok get_next_nextp)

lemma list_pop_back_ok:
  assumes "dlist m l (xs @ [x])"
  shows "\<exists>m'. list_pop_back dbg m l = Inr (Some x, m') \<and> dlist m' l xs \<and> detached m' x \<and>
    (\<forall>p. p \<notin> set (l # xs @ [x]) \<longrightarrow> m' p = m p)"
  using dlist_remove [of m l xs x "[]" dbg] dlist_split [of m l "xs @ [x]" "[]"] dlist_live [OF assms, of l] assms
  by (auto simp: list_pop_back_def list_empty_ok get_prev_prevp)

interpretation lst: node_queue dlist detached "list_empty dbg" "list_push_back dbg" "list_pop_front dbg" for dbg
proof (unfold_locales, goal_cases)
  case (1 m l xs) then show ?case by (rule dlist_distinct)
next
  case (2 m l xs n) then show ?case by (rule dlist_detached)
next
  case (3 m l xs) then show ?case by (rule list_empty_ok)
next
  case (4 m l xs n)
  from list_push_back_ok [OF this, of dbg]
  obtain m' where m': "list_push_back dbg m l n = Inr m'" "dlist m' l (xs @ [n])"
    and fr: "\<forall>p. p \<notin> set (n # l # xs) \<longrightarrow> m' p = m p"
    by (elim exE conjE)
  have "detached m' k" if "detached m k" "k \<noteq> n" for k
    using dlist_frame(2) [OF fr that(1)] dlist_detached [OF 4(1) that(1)] that(2) by simp
  moreover have "dlist m' l' ys" if "dlist m l' ys" "set (l' # ys) \<inter> set (l # xs) = {}" for l' ys
    proof (rule dlist_frame(1) [OF fr that(1)])
      show "set (l' # ys) \<inter> set (n # l # xs) = {}"
        using dlist_detached [OF that(1) 4(2)] that(2) by simp
    qed
  ultimately show ?case using m' by blast
next
  case (5 m l x xs)
  from list_pop_front_ok [OF this, of dbg]
  obtain m' where m': "list_pop_front dbg m l = Inr (Some x, m')" "dlist m' l xs" "detached m' x"
    and fr: "\<forall>p. p \<notin> set (l # x # xs) \<longrightarrow> m' p = m p"
    by (elim exE conjE)
  have "detached m' k" if "detached m k" for k
    using dlist_frame(2) [OF fr that] dlist_detached [OF 5 that] by simp
  moreover have "dlist m' l' ys" if "dlist m l' ys" "set (l' # ys) \<inter> set (l # x # xs) = {}" for l' ys
    using dlist_frame(1) [OF fr that] .
  ultimately show ?case using m' by blast
qed

section \<open>Walking a list\<close>

lemma list_for_each_from_visits:
  assumes "\<And>p s. p \<in> set xs \<Longrightarrow> body (Some p) (m, s) = Inr (m, f p s)"
  shows "linked m (xs @ [l]) \<Longrightarrow> l \<notin> set xs \<Longrightarrow> length xs < n \<Longrightarrow>
    list_for_each_from n body l (Some (hd (xs @ [l]))) (m, s) = Inr (m, fold f xs s)"
  using assms
proof (induction xs arbitrary: n s)
  case Nil
  then show ?case by (cases n) simp_all
next
  case (Cons x xs)
  then obtain n' where n: "n = Suc n'" "length xs < n'" by (cases n) auto
  have next_x: "nextp m x = Some (hd (xs @ [l]))" "linked m (xs @ [l])" using Cons.prems(1) by (simp_all add: linked_Cons)
  then have "get_next m (Some x) = Inr (Some (hd (xs @ [l])))"
    using get_next_nextp [of m x] by (auto dest: nextp_SomeD)
  with Cons next_x(2) n show ?case by auto
qed

lemma list_for_each_visits:
  assumes "dlist m l xs" "\<And>p s. p \<in> set xs \<Longrightarrow> body (Some p) (m, s) = Inr (m, f p s)" "length xs < n"
  shows "list_for_each n body l (m, s) = Inr (m, fold f xs s)"
proof -
  have d: "nextp m l = Some (hd (xs @ [l]))" "linked m (xs @ [l])" "l \<notin> set xs"
    using assms(1) by (simp_all add: dlist_def linked_Cons)
  then have "get_next m (Some l) = Inr (Some (hd (xs @ [l])))" using get_next_nextp [of m l] by (auto dest: nextp_SomeD)
  with list_for_each_from_visits [of xs body m f l n s, OF assms(2) d(2,3) assms(3)] show ?thesis by (simp add: list_for_each_def)
qed

section \<open>Properties\<close>

text \<open>A memory with a list of two entries (sentinel 0, entries 1 and 2) and a detached node 3.\<close>

definition two_entries :: "nat memory" where
  "two_entries =
     [0 \<mapsto> \<lparr>node_next = Some 1, node_prev = Some 2\<rparr>,
      1 \<mapsto> \<lparr>node_next = Some 2, node_prev = Some 0\<rparr>,
      2 \<mapsto> \<lparr>node_next = Some 0, node_prev = Some 1\<rparr>,
      3 \<mapsto> \<lparr>node_next = None, node_prev = None\<rparr>]"

lemma two_entries_list: "dlist two_entries 0 [1, 2]" "detached two_entries 3"
  by (simp_all add: dlist_def detached_def two_entries_def nextp_def prevp_def)

text \<open>
  \<^verbatim>\<open>list_push_back\<close> of a node on no list appends it to the sequence the list holds, in both
  pointer directions, and the node is then on a list; every list that shares no node with
  this one, and every other detached node, is as before.
\<close>

theorem list_push_back_appends:
  assumes "dlist m l xs" "detached m n"
  shows "\<exists>m'. list_push_back dbg m l n = Inr m' \<and> dlist m' l (xs @ [n]) \<and>
    list_in_list m' n = Inr True \<and>
    (\<forall>k. detached m k \<longrightarrow> k \<noteq> n \<longrightarrow> detached m' k) \<and>
    (\<forall>l' ys. dlist m l' ys \<longrightarrow> set (l' # ys) \<inter> set (l # xs) = {} \<longrightarrow> dlist m' l' ys)"
  using lst.rep_push [OF assms, of dbg] list_in_list_queued [of _ l "xs @ [n]" n] by fastforce

theorem list_push_back_appends_witness:
  "\<exists>m'. list_push_back True two_entries 0 3 = Inr m' \<and> dlist m' 0 [1, 2, 3] \<and>
     list_in_list m' 3 = Inr True"
  using list_push_back_appends [OF two_entries_list, of True] by auto

text \<open>
  C36: \<^verbatim>\<open>list_remove\<close> takes the entry out wherever it stands, keeps the order of the others,
  and leaves the node in the state \<^verbatim>\<open>list_node_init\<close> gives it, so that it can be queued again.
\<close>

theorem list_remove_anywhere:
  assumes "dlist m l (xs @ n # ys)"
  shows "\<exists>m'. list_remove dbg m (Some n) = Inr m' \<and> dlist m' l (xs @ ys) \<and> detached m' n \<and>
    list_in_list m' n = Inr False \<and> (\<forall>p. p \<notin> set (l # xs @ n # ys) \<longrightarrow> m' p = m p)"
  using dlist_remove [OF assms, of dbg] list_in_list_detached by fastforce

theorem list_remove_anywhere_witness:
  "\<exists>m'. list_remove False two_entries (Some 1) = Inr m' \<and> dlist m' 0 [2] \<and> detached m' 1"
  using list_remove_anywhere [of two_entries 0 "[]" 1 "[2]" False] two_entries_list(1) by auto

text \<open>
  The round trips at both ends: what \<^verbatim>\<open>list_push_back\<close> puts in, \<^verbatim>\<open>list_pop_back\<close> takes out, and
  what \<^verbatim>\<open>list_push_front\<close> puts in, \<^verbatim>\<open>list_pop_front\<close> takes out, leaving the list it started from.
\<close>

theorem list_push_pop_ends:
  assumes "dlist m l xs" "detached m n"
  shows "(\<exists>m1 m2. list_push_back dbg m l n = Inr m1 \<and> list_pop_back dbg m1 l = Inr (Some n, m2) \<and>
      dlist m2 l xs \<and> detached m2 n) \<and>
    (\<exists>m1 m2. list_push_front dbg m l n = Inr m1 \<and> list_pop_front dbg m1 l = Inr (Some n, m2) \<and>
      dlist m2 l xs \<and> detached m2 n)"
  using list_push_back_ok [OF assms, of dbg] list_push_front_ok [OF assms, of dbg]
    list_pop_back_ok [of _ l xs n dbg] list_pop_front_ok [of _ l n xs dbg]
  by (elim exE conjE) (intro conjI; metis)

theorem list_push_pop_ends_witness:
  "(\<exists>m1 m2. list_push_back True two_entries 0 3 = Inr m1 \<and> list_pop_back True m1 0 = Inr (Some 3, m2) \<and>
      dlist m2 0 [1, 2] \<and> detached m2 3) \<and>
    (\<exists>m1 m2. list_push_front True two_entries 0 3 = Inr m1 \<and> list_pop_front True m1 0 = Inr (Some 3, m2) \<and>
      dlist m2 0 [1, 2] \<and> detached m2 3)"
  by (rule list_push_pop_ends [OF two_entries_list])

text \<open>
  Popping an empty list is caught only in the DEBUG build. Without it the pop returns the
  sentinel itself, never NULL, and clears the sentinel's pointers, after which the list
  reports that it is not empty.
\<close>

theorem list_pop_front_empty:
  assumes "dlist m l []"
  shows "list_pop_front True m l = Inl Assert_fail \<and>
    (\<exists>m'. list_pop_front False m l = Inr (Some l, m') \<and> detached m' l \<and>
      list_empty False m' l = Inr False)"
proof -
  have nl: "nextp m l = Some l" "prevp m l = Some l" "m l \<noteq> None"
    using assms dlist_live [of m l "[]" l] by (auto simp: dlist_def)
  then have "list_pop_front False m l = Inr (Some l,
      put_next (put_prev (put_prev (put_next m l (Some l)) l (Some l)) l None) l None)"
    by (simp add: list_pop_front_def list_remove_def list_debug_check_def get_next_nextp get_prev_prevp put_simps)
  moreover have "list_pop_front True m l = Inl Assert_fail"
    using list_empty_ok [OF assms, of True] by (simp add: list_pop_front_def)
  ultimately show ?thesis
    using nl(3) by (auto simp: detached_def put_next_def put_prev_def list_empty_def list_debug_check_def get_next_def)
qed

theorem list_pop_front_empty_witness:
  "\<exists>m'. list_pop_front False [0 \<mapsto> \<lparr>node_next = Some (0::nat), node_prev = Some 0\<rparr>] 0 = Inr (Some 0, m') \<and>
     detached m' 0 \<and> list_empty False m' 0 = Inr False"
  using list_pop_front_empty [of "[0 \<mapsto> \<lparr>node_next = Some (0::nat), node_prev = Some 0\<rparr>]" 0]
  by (simp add: dlist_def nextp_def prevp_def)

end
