(* ===== verification/Util_Heap.thy ===== *)
theory Util_Heap
  imports Prelude
begin

text \<open>
  The array-based binary min-heap of \<^verbatim>\<open>src/util/heap.c\<close>, with its block of memory, its
  allocation failures and its index arithmetic, and the proof that it is a priority queue
  for every lawful comparator.
\<close>

section \<open>The structure\<close>

text \<open>
  The array \<^verbatim>\<open>heap->heap\<close>: the null pointer, a block that has been freed, or a live block of
  slots; a slot nobody has written yet is \<open>None\<close>.
\<close>

datatype 'a block = Null | Dangling | Block "'a option list"

record 'a heap =
  hp_heap :: "'a block"
  hp_size :: nat
  hp_items :: nat
  hp_compare :: "'a \<Rightarrow> 'a \<Rightarrow> int"

definition INITIAL_SIZE :: nat where
  "INITIAL_SIZE = 16"

definition ENOMEM :: int where
  "ENOMEM = 12"

text \<open>\<^verbatim>\<open>sizeof(void*)\<close> of the LP64 ABI.\<close>

definition ptr_bytes :: nat where
  "ptr_bytes = 8"

definition read_slot :: "'a block \<Rightarrow> nat \<Rightarrow> 'a res" where
  "read_slot b i = (case b of Null \<Rightarrow> Inl Null_deref | Dangling \<Rightarrow> Inl Use_after_free
     | Block a \<Rightarrow> if i < length a then (case a ! i of None \<Rightarrow> Inl Uninit_read | Some x \<Rightarrow> Inr x)
                  else Inl Out_of_bounds)"

definition write_slot :: "'a block \<Rightarrow> nat \<Rightarrow> 'a \<Rightarrow> 'a block res" where
  "write_slot b i x = (case b of Null \<Rightarrow> Inl Null_deref | Dangling \<Rightarrow> Inl Use_after_free
     | Block a \<Rightarrow> if i < length a then Inr (Block (a[i := Some x])) else Inl Out_of_bounds)"

text \<open>
  \<^verbatim>\<open>realloc(b, bytes)\<close>: \<open>alloc bytes\<close> says whether the allocator can serve the request; a
  served request keeps the old contents up to the smaller size, a refused one returns NULL
  (\<open>None\<close>) and keeps the old block.
\<close>

definition realloc_block :: "(nat \<Rightarrow> bool) \<Rightarrow> 'a block \<Rightarrow> nat \<Rightarrow> 'a block option res" where
  "realloc_block alloc b bytes =
     (let n = bytes div ptr_bytes in
      case b of Dangling \<Rightarrow> Inl Use_after_free
      | Null \<Rightarrow> Inr (if alloc bytes then Some (Block (replicate n None)) else None)
      | Block a \<Rightarrow> Inr (if alloc bytes
          then Some (Block (take n a @ replicate (n - length a) None)) else None))"

definition free_block :: "'a block \<Rightarrow> 'a block res" where
  "free_block b = (case b of Null \<Rightarrow> Inr Null | Dangling \<Rightarrow> Inl Use_after_free | Block _ \<Rightarrow> Inr Dangling)"

section \<open>The operations of heap.c\<close>

definition heap_init :: "(nat \<Rightarrow> bool) \<Rightarrow> ('a \<Rightarrow> 'a \<Rightarrow> int) \<Rightarrow> int \<times> 'a heap" where
  "heap_init alloc compare =
     (let b = (if alloc (ptr_bytes * INITIAL_SIZE) then Block (replicate INITIAL_SIZE None) else Null);
          h = \<lparr>hp_heap = b, hp_size = INITIAL_SIZE, hp_items = 0, hp_compare = compare\<rparr>
      in (if b = Null then ENOMEM else 0, h))"

definition heap_free :: "'a heap \<Rightarrow> 'a heap res" where
  "heap_free h =
     (if hp_heap h \<noteq> Null
      then andthen (free_block (hp_heap h)) (\<lambda>b. Inr (h\<lparr>hp_heap := b\<rparr>))
      else Inr h)"

definition heap_empty :: "'a heap \<Rightarrow> bool" where
  "heap_empty h = (hp_items h = 0)"

definition heap_size :: "'a heap \<Rightarrow> nat" where
  "heap_size h = hp_items h"

text \<open>The loop of \<^verbatim>\<open>heap_push\<close>: parents larger than the item move down one level.\<close>

fun heap_push_loop :: "('a \<Rightarrow> 'a \<Rightarrow> int) \<Rightarrow> 'a block \<Rightarrow> 'a \<Rightarrow> nat \<Rightarrow> ('a block \<times> nat) res" where
  "heap_push_loop compare b item current =
     (if current > 1 then
        andthen (read_slot b (current div 2)) (\<lambda>p.
        if compare p item > 0 then
          andthen (write_slot b current p) (\<lambda>b'.
          heap_push_loop compare b' item (current div 2))
        else Inr (b, current))
      else Inr (b, current))"

declare heap_push_loop.simps [simp del]

definition heap_push :: "(nat \<Rightarrow> bool) \<Rightarrow> 'a heap \<Rightarrow> 'a \<Rightarrow> (int \<times> 'a heap) res" where
  "heap_push alloc h item =
     andthen
      (if (hp_items h + 1) mod size_max \<ge> hp_size h then
         andthen (realloc_block alloc (hp_heap h) ((hp_size h * 2 * ptr_bytes) mod size_max)) (\<lambda>new_heap.
         case new_heap of
           None \<Rightarrow> andthen (free_block (hp_heap h)) (\<lambda>_. Inr (ENOMEM, h\<lparr>hp_heap := Null\<rparr>))
         | Some b \<Rightarrow> Inr (0, h\<lparr>hp_heap := b, hp_size := (hp_size h * 2) mod size_max\<rparr>))
       else Inr (0, h))
      (\<lambda>(rc, h).
       if rc \<noteq> 0 then Inr (rc, h)
       else
         let items = (hp_items h + 1) mod size_max in
         andthen (write_slot (hp_heap h) items item) (\<lambda>b.
         andthen (heap_push_loop (hp_compare h) b item items) (\<lambda>(b, current).
         andthen (write_slot b current item) (\<lambda>b.
         Inr (0, h\<lparr>hp_heap := b, hp_items := items\<rparr>)))))"

definition heap_min :: "'a heap \<Rightarrow> 'a option res" where
  "heap_min h =
     (if hp_items h = 0 then Inr None
      else andthen (read_slot (hp_heap h) 1) (\<lambda>x. Inr (Some x)))"

text \<open>
  The loop of \<^verbatim>\<open>heap_pop_min\<close>, from \<^verbatim>\<open>parent\<close> down. \<^verbatim>\<open>parent\<close>, \<^verbatim>\<open>left\<close> and \<^verbatim>\<open>right\<close> are C ints,
  so their arithmetic is checked; the first argument bounds the iterations.
\<close>

fun heap_pop_loop ::
  "nat \<Rightarrow> ('a \<Rightarrow> 'a \<Rightarrow> int) \<Rightarrow> 'a block \<Rightarrow> nat \<Rightarrow> 'a \<Rightarrow> nat \<Rightarrow> ('a block \<times> nat) res" where
  "heap_pop_loop 0 compare b items new_root parent = Inl Diverged"
| "heap_pop_loop (Suc k) compare b items new_root parent =
     andthen (c_int (int parent * 2)) (\<lambda>_.
     if parent * 2 \<le> items then
       andthen (c_int (int parent * 2 + 1)) (\<lambda>_.
       let left = parent * 2; right = parent * 2 + 1 in
       andthen (read_slot b left) (\<lambda>l.
       if compare new_root l > 0 then
         andthen (if right > items then Inr True
                  else andthen (read_slot b right) (\<lambda>r. Inr (compare l r < 0))) (\<lambda>go_left.
         if go_left then
           andthen (write_slot b parent l) (\<lambda>b'.
           heap_pop_loop k compare b' items new_root left)
         else
           andthen (read_slot b right) (\<lambda>r.
           andthen (write_slot b parent r) (\<lambda>b'.
           heap_pop_loop k compare b' items new_root right)))
       else
         andthen (read_slot b right) (\<lambda>r.
         if compare new_root r > 0 then
           andthen (write_slot b parent r) (\<lambda>b'.
           heap_pop_loop k compare b' items new_root right)
         else Inr (b, parent))))
     else Inr (b, parent))"

text \<open>
  Popping: the last item replaces the root and sinks. The loop starts at 1 and at least
  doubles \<^verbatim>\<open>parent\<close> in every iteration, so \<open>items\<close> iterations and the final test are enough
  (\<open>heap_pop_correct\<close> shows the bound is never hit). The last step gives memory back but does
  not touch \<^verbatim>\<open>heap->size\<close>.
\<close>

definition heap_pop_min :: "(nat \<Rightarrow> bool) \<Rightarrow> 'a heap \<Rightarrow> ('a option \<times> 'a heap) res" where
  "heap_pop_min alloc h =
     (if hp_items h = 0 then Inr (None, h)
      else
        andthen (read_slot (hp_heap h) 1) (\<lambda>item.
        andthen (read_slot (hp_heap h) (hp_items h)) (\<lambda>lst.
        andthen (write_slot (hp_heap h) 1 lst) (\<lambda>b.
        let items = hp_items h - 1 in
        andthen (read_slot b 1) (\<lambda>new_root.
        andthen (heap_pop_loop (Suc items) (hp_compare h) b items new_root 1) (\<lambda>(b, parent).
        andthen (write_slot b parent new_root) (\<lambda>b.
        let h = h\<lparr>hp_heap := b, hp_items := items\<rparr> in
        if (items + 1) mod size_max < hp_size h div 4 \<and> hp_size h > INITIAL_SIZE then
          andthen (realloc_block alloc b (ptr_bytes * hp_size h mod size_max div 2)) (\<lambda>new_heap.
          case new_heap of None \<Rightarrow> Inr (Some item, h)
            | Some b \<Rightarrow> Inr (Some item, h\<lparr>hp_heap := b\<rparr>))
        else Inr (Some item, h))))))))"

section \<open>Arrays as functions\<close>

definition arr :: "'a option list \<Rightarrow> nat \<Rightarrow> 'a" where
  "arr a i = the (a ! i)"

definition filled :: "'a option list \<Rightarrow> nat \<Rightarrow> bool" where
  "filled a n \<longleftrightarrow> n < length a \<and> (\<forall>i. 1 \<le> i \<and> i \<le> n \<longrightarrow> a ! i \<noteq> None)"

text \<open>The items 1 to \<open>n\<close> of an array, as a multiset.\<close>

definition bag :: "(nat \<Rightarrow> 'a) \<Rightarrow> nat \<Rightarrow> 'a multiset" where
  "bag g n = image_mset g (mset_set {1..n})"

named_theorems slot_simps \<open>reading and writing slots\<close>

lemma read_slot_filled [slot_simps]:
  "filled a n \<Longrightarrow> 1 \<le> i \<Longrightarrow> i \<le> n \<Longrightarrow> read_slot (Block a) i = Inr (arr a i)"
  by (auto simp: filled_def read_slot_def arr_def)

lemma write_slot_ok [slot_simps]:
  "i < length a \<Longrightarrow> write_slot (Block a) i x = Inr (Block (a[i := Some x]))"
  by (simp add: write_slot_def)

lemma filled_update [slot_simps]: "filled a n \<Longrightarrow> filled (a[i := Some x]) n"
  by (cases "i < length a") (auto simp: filled_def nth_list_update)

lemma arr_update [slot_simps]: "i < length a \<Longrightarrow> arr (a[i := Some x]) = (arr a)(i := x)"
  by (auto simp: arr_def nth_list_update)

lemma filled_length: "filled a n \<Longrightarrow> i \<le> n \<Longrightarrow> i < length a"
  by (simp add: filled_def)

lemma set_bag [simp]: "set_mset (bag g n) = g ` {1..n}"
  by (simp add: bag_def)

lemma size_bag [simp]: "size (bag g n) = n"
  by (simp add: bag_def)

lemma bag_0 [simp]: "bag g 0 = {#}"
  by (simp add: bag_def)

lemma bag_Suc: "bag g (Suc n) = add_mset (g (Suc n)) (bag g n)"
  by (simp add: bag_def atLeastAtMostSuc_conv)

lemma bag_cong: "(\<And>i. 1 \<le> i \<Longrightarrow> i \<le> n \<Longrightarrow> g i = g' i) \<Longrightarrow> bag g n = bag g' n"
  unfolding bag_def by (rule image_mset_cong) auto

lemma bag_snoc: "bag (g(Suc n := x)) (Suc n) = add_mset x (bag g n)"
  using bag_cong [of n "g(Suc n := x)" g] by (simp add: bag_Suc)

lemma bag_remove: "i \<in> {1..n} \<Longrightarrow> bag g n = add_mset (g i) (image_mset g (mset_set ({1..n} - {i})))"
  unfolding bag_def by (simp add: mset_set.remove)

lemma bag_update: "i \<in> {1..n} \<Longrightarrow> bag (g(i := x)) n = add_mset x (bag g n - {#g i#})"
proof -
  assume i: "i \<in> {1..n}"
  have "image_mset (g(i := x)) (mset_set ({1..n} - {i})) = image_mset g (mset_set ({1..n} - {i}))"
    by (rule image_mset_cong) auto
  with bag_remove [OF i, of g] bag_remove [OF i, of "g(i := x)"] show ?thesis by simp
qed

lemma bag_swap:
  assumes "i \<in> {1..n}" "j \<in> {1..n}"
  shows "bag (g(i := g j, j := g i)) n = bag g n"
proof (cases "i = j")
  case False
  have "g j \<in># bag g n - {#g i#}"
    using bag_remove [OF assms(1), of g] False assms(2) by auto
  moreover have "g i \<in># bag g n" using assms(1) by auto
  ultimately show ?thesis
    using False assms by (simp add: bag_update)
qed simp

section \<open>Lawful comparators\<close>

text \<open>
  What \<^verbatim>\<open>heap.c\<close> needs of the comparison callback on the items it is given (the set
  \<open>dom\<close>): the sign of the result is that of a total preorder.
\<close>

locale comparator =
  fixes compare :: "'a \<Rightarrow> 'a \<Rightarrow> int" and carrier :: "'a set"
  assumes compare_refl: "x \<in> carrier \<Longrightarrow> compare x x = 0"
    and compare_antisym: "x \<in> carrier \<Longrightarrow> y \<in> carrier \<Longrightarrow> compare x y > 0 \<longleftrightarrow> compare y x < 0"
    and compare_trans: "x \<in> carrier \<Longrightarrow> y \<in> carrier \<Longrightarrow> z \<in> carrier \<Longrightarrow>
      compare x y \<le> 0 \<Longrightarrow> compare y z \<le> 0 \<Longrightarrow> compare x z \<le> 0"

definition within :: "'a set \<Rightarrow> (nat \<Rightarrow> 'a) \<Rightarrow> nat \<Rightarrow> bool" where
  "within C g n \<longleftrightarrow> (\<forall>i. 1 \<le> i \<and> i \<le> n \<longrightarrow> g i \<in> C)"

text \<open>The heap order: no item is smaller than its parent.\<close>

definition ordered :: "('a \<Rightarrow> 'a \<Rightarrow> int) \<Rightarrow> (nat \<Rightarrow> 'a) \<Rightarrow> nat \<Rightarrow> bool" where
  "ordered compare g n \<longleftrightarrow> (\<forall>i. 2 \<le> i \<and> i \<le> n \<longrightarrow> compare (g (i div 2)) (g i) \<le> 0)"

text \<open>The order with one item out of place: too small for its position, or too large.\<close>

definition ordered_but_up :: "('a \<Rightarrow> 'a \<Rightarrow> int) \<Rightarrow> (nat \<Rightarrow> 'a) \<Rightarrow> nat \<Rightarrow> nat \<Rightarrow> bool" where
  "ordered_but_up compare g n c \<longleftrightarrow>
     (\<forall>i. 2 \<le> i \<and> i \<le> n \<longrightarrow> i \<noteq> c \<longrightarrow> compare (g (i div 2)) (g i) \<le> 0) \<and>
     (\<forall>i. 2 \<le> c \<and> i \<le> n \<and> i div 2 = c \<longrightarrow> compare (g (c div 2)) (g i) \<le> 0)"

definition ordered_but_down :: "('a \<Rightarrow> 'a \<Rightarrow> int) \<Rightarrow> (nat \<Rightarrow> 'a) \<Rightarrow> nat \<Rightarrow> nat \<Rightarrow> bool" where
  "ordered_but_down compare g n c \<longleftrightarrow>
     (\<forall>i. 2 \<le> i \<and> i \<le> n \<longrightarrow> i div 2 \<noteq> c \<longrightarrow> compare (g (i div 2)) (g i) \<le> 0) \<and>
     (\<forall>i. 2 \<le> c \<and> i \<le> n \<and> i div 2 = c \<longrightarrow> compare (g (c div 2)) (g i) \<le> 0)"

context comparator
begin

lemma compare_total: "x \<in> carrier \<Longrightarrow> y \<in> carrier \<Longrightarrow> compare x y \<le> 0 \<or> compare y x \<le> 0"
  using compare_antisym by fastforce

lemma compare_gt: "x \<in> carrier \<Longrightarrow> y \<in> carrier \<Longrightarrow> compare x y > 0 \<Longrightarrow> compare y x \<le> 0"
  using compare_antisym by fastforce

text \<open>The root of an ordered array is a minimum.\<close>

lemma ordered_root:
  assumes "ordered compare g n" "within carrier g n" "1 \<le> i" "i \<le> n"
  shows "compare (g 1) (g i) \<le> 0"
  using assms(3,4)
proof (induction i rule: less_induct)
  case (less i)
  show ?case
  proof (cases "i = 1")
    case True
    moreover have "g 1 \<in> carrier" using assms(2) less.prems True by (simp add: within_def)
    ultimately show ?thesis using compare_refl [of "g 1"] by simp
  next
    case False
    with less.prems have b: "1 \<le> i div 2" "i div 2 < i" "2 \<le> i" by auto
    then have "compare (g 1) (g (i div 2)) \<le> 0" using less by auto
    moreover have "compare (g (i div 2)) (g i) \<le> 0"
      using assms(1) b less.prems by (simp add: ordered_def)
    ultimately show ?thesis
      using b less.prems assms(2) by (intro compare_trans [of "g 1" "g (i div 2)" "g i"]) (auto simp: within_def)
  qed
qed

text \<open>One iteration of the upward loop.\<close>

lemma up_step:
  assumes inv: "ordered_but_up compare g n c" and c: "2 \<le> c" "c \<le> n"
    and dom: "within carrier g n" and gt: "compare (g (c div 2)) (g c) > 0"
  shows "ordered_but_up compare (g(c := g (c div 2), c div 2 := g c)) n (c div 2)"
proof -
  let ?p = "c div 2"
  have p: "1 \<le> ?p" "?p < c" using c by auto
  have in_dom: "1 \<le> i \<Longrightarrow> i \<le> n \<Longrightarrow> g i \<in> carrier" for i using dom by (auto simp: within_def)
  have lt: "compare (g c) (g ?p) \<le> 0"
    using compare_gt gt in_dom p c by auto
  have edge: "i \<noteq> c \<Longrightarrow> 2 \<le> i \<Longrightarrow> i \<le> n \<Longrightarrow> compare (g (i div 2)) (g i) \<le> 0" for i
    using inv c by (auto simp: ordered_but_up_def)
  have grand: "i \<le> n \<Longrightarrow> i div 2 = c \<Longrightarrow> compare (g ?p) (g i) \<le> 0" for i
    using inv c by (auto simp: ordered_but_up_def)
  have child: "compare (g ?p) (g i) \<le> 0" "g i \<in> carrier" if "i \<noteq> c" "i \<le> n" "i div 2 = ?p" for i
  proof -
    have i: "2 \<le> i" using that(3) p(1) by linarith
    from edge [OF that(1) i that(2)] that(3) show "compare (g ?p) (g i) \<le> 0" by simp
    from in_dom i that(2) show "g i \<in> carrier" by simp
  qed
  have dom_cp: "g c \<in> carrier" "g ?p \<in> carrier" using in_dom c p by simp_all
  have sib: "compare (g c) (g i) \<le> 0" if "i \<noteq> c" "i \<le> n" "i div 2 = ?p" for i
    using compare_trans [OF dom_cp child(2) lt child(1)] that by blast
  have up: "compare (g (?p div 2)) (g ?p) \<le> 0" "g (?p div 2) \<in> carrier" if "2 \<le> ?p"
    using edge [of ?p] in_dom [of "?p div 2"] p c that by simp_all
  have up2: "compare (g (?p div 2)) (g i) \<le> 0" if "2 \<le> ?p" "i \<noteq> c" "i \<le> n" "i div 2 = ?p" for i
    using compare_trans [OF up(2) dom_cp(2) child(2) up(1) child(1)] that by blast
  show ?thesis
    unfolding ordered_but_up_def
  proof (intro conjI allI impI; elim conjE)
    fix i assume i: "2 \<le> i" "i \<le> n" "i \<noteq> ?p"
    consider "i = c" | "i \<noteq> c" "i div 2 = c" | "i \<noteq> c" "i div 2 = ?p" | "i \<noteq> c" "i div 2 \<noteq> c" "i div 2 \<noteq> ?p"
      by blast
    then show "compare ((g(c := g ?p, ?p := g c)) (i div 2)) ((g(c := g ?p, ?p := g c)) i) \<le> 0"
      by cases (use p i lt edge [of i] grand [of i] sib [of i] in simp_all)
  next
    fix i assume i: "2 \<le> ?p" "i \<le> n" "i div 2 = ?p"
    then have "i \<noteq> ?p" "?p div 2 \<noteq> ?p" "?p div 2 \<noteq> c" by auto
    then show "compare ((g(c := g ?p, ?p := g c)) (?p div 2)) ((g(c := g ?p, ?p := g c)) i) \<le> 0"
      using i up up2 [of i] by (cases "i = c") simp_all
  qed
qed

lemma within_swap: "within carrier g n \<Longrightarrow> i \<in> {1..n} \<Longrightarrow> j \<in> {1..n} \<Longrightarrow> within carrier (g(i := g j, j := g i)) n"
  by (simp add: within_def)

lemma up_exit:
  assumes "ordered_but_up compare g n c" and "2 \<le> c \<Longrightarrow> compare (g (c div 2)) (g c) \<le> 0"
  shows "ordered compare g n"
  using assms by (auto simp: ordered_but_up_def ordered_def)

text \<open>One iteration of the downward loop, towards the child \<open>d\<close>.\<close>

lemma down_step:
  assumes inv: "ordered_but_down compare g n c" and c: "1 \<le> c"
    and d: "d div 2 = c" "d \<le> n" and dom: "within carrier g n"
    and gt: "compare (g c) (g d) > 0"
    and sib: "\<And>e. e div 2 = c \<Longrightarrow> e \<le> n \<Longrightarrow> compare (g d) (g e) \<le> 0"
  shows "ordered_but_down compare (g(c := g d, d := g c)) n d"
proof -
  have cd: "c < d" "2 \<le> d" using d c by auto
  have in_dom: "1 \<le> i \<Longrightarrow> i \<le> n \<Longrightarrow> g i \<in> carrier" for i using dom by (auto simp: within_def)
  have lt: "compare (g d) (g c) \<le> 0"
    using compare_gt [of "g c" "g d"] gt in_dom [of c] in_dom [of d] c d cd by auto
  have edge: "i div 2 \<noteq> c \<Longrightarrow> 2 \<le> i \<Longrightarrow> i \<le> n \<Longrightarrow> compare (g (i div 2)) (g i) \<le> 0" for i
    using inv by (auto simp: ordered_but_down_def)
  have grand: "2 \<le> c \<Longrightarrow> i \<le> n \<Longrightarrow> i div 2 = c \<Longrightarrow> compare (g (c div 2)) (g i) \<le> 0" for i
    using inv by (auto simp: ordered_but_down_def)
  have below: "compare (g d) (g i) \<le> 0" if "i div 2 = d" "i \<le> n" for i
    using edge [of i] that cd d by auto
  show ?thesis
    unfolding ordered_but_down_def
  proof (intro conjI allI impI; elim conjE)
    fix i assume i: "2 \<le> i" "i \<le> n" "i div 2 \<noteq> d"
    show "compare ((g(c := g d, d := g c)) (i div 2)) ((g(c := g d, d := g c)) i) \<le> 0"
    proof (cases "i div 2 = c")
      case True
      then show ?thesis using i cd sib lt by (cases "i = d") auto
    next
      case False
      then show ?thesis using i cd d edge [of i] grand [of d] by (cases "i = c") auto
    qed
  next
    fix i assume i: "i \<le> n" "i div 2 = d"
    then have "d \<noteq> i" "c \<noteq> i" using cd by auto
    with i d cd below show "compare ((g(c := g d, d := g c)) (d div 2)) ((g(c := g d, d := g c)) i) \<le> 0"
      by auto
  qed
qed

lemma down_exit:
  assumes "ordered_but_down compare g n c"
    and "\<And>e. e div 2 = c \<Longrightarrow> 2 \<le> e \<Longrightarrow> e \<le> n \<Longrightarrow> compare (g c) (g e) \<le> 0"
  shows "ordered compare g n"
  using assms by (auto simp: ordered_but_down_def ordered_def)

section \<open>The loops\<close>

lemma push_loop_ok:
  assumes "filled a n" "1 \<le> c" "c \<le> n" "ordered_but_up compare ((arr a)(c := item)) n c"
    "within carrier ((arr a)(c := item)) n"
  shows "\<exists>a' c'. heap_push_loop compare (Block a) item c = Inr (Block a', c') \<and>
    length a' = length a \<and> filled a' n \<and> 1 \<le> c' \<and> c' \<le> n \<and>
    ordered compare ((arr a')(c' := item)) n \<and>
    bag ((arr a')(c' := item)) n = bag ((arr a)(c := item)) n"
  using assms
proof (induction c arbitrary: a rule: less_induct)
  case (less c)
  let ?g = "(arr a)(c := item)"
  have c: "c < length a" using less.prems by (auto intro: filled_length)
  show ?case
  proof (cases "2 \<le> c \<and> compare (?g (c div 2)) (?g c) > 0")
    case False
    then have "ordered compare ?g n" using less.prems(4) up_exit by fastforce
    moreover have "c div 2 \<noteq> c" using less.prems(2) by simp
    moreover from this have "heap_push_loop compare (Block a) item c = Inr (Block a, c)"
      using False less.prems by (subst heap_push_loop.simps) (auto simp: read_slot_filled [of a n])
    ultimately show ?thesis using less.prems by blast
  next
    case True
    let ?p = "c div 2" and ?a = "a[c := Some (arr a (c div 2))]"
    have p: "1 \<le> ?p" "?p < c" "?p \<le> n" using True less.prems by auto
    have run: "heap_push_loop compare (Block a) item c = heap_push_loop compare (Block ?a) item ?p"
      using True less.prems p c
      by (subst heap_push_loop.simps) (auto simp: read_slot_filled [of a n] write_slot_ok)
    have g: "(arr ?a)(?p := item) = ?g(c := ?g ?p, ?p := ?g c)"
      using p c by (auto simp: arr_update)
    have "ordered_but_up compare ((arr ?a)(?p := item)) n ?p"
      unfolding g by (rule up_step [OF less.prems(4) _ less.prems(3,5)]) (use True in simp_all)
    moreover have "within carrier ((arr ?a)(?p := item)) n"
      unfolding g by (rule within_swap [OF less.prems(5)]) (use p less.prems(2,3) in auto)
    moreover have bag: "bag ((arr ?a)(?p := item)) n = bag ?g n"
      unfolding g by (rule bag_swap) (use p less.prems(2,3) in auto)
    ultimately have "\<exists>a' c'. heap_push_loop compare (Block ?a) item ?p = Inr (Block a', c') \<and>
      length a' = length ?a \<and> filled a' n \<and> 1 \<le> c' \<and> c' \<le> n \<and>
      ordered compare ((arr a')(c' := item)) n \<and>
      bag ((arr a')(c' := item)) n = bag ((arr ?a)(?p := item)) n"
      using less.IH [OF p(2) filled_update [OF less.prems(1)] p(1,3)] by blast
    then show ?thesis unfolding run bag length_list_update .
  qed
qed

text \<open>The three ways one iteration can go.\<close>

lemma sink_cases:
  assumes "root \<in> carrier" "l \<in> carrier" "r \<in> carrier"
  shows "compare root l > 0 \<and> compare l r < 0 \<or>
     compare root r > 0 \<and> compare r l \<le> 0 \<and> (compare root l > 0 \<longrightarrow> \<not> compare l r < 0) \<or>
     compare root l \<le> 0 \<and> compare root r \<le> 0"
proof -
  have "\<not> compare l r < 0 \<Longrightarrow> compare r l \<le> 0" and "compare root r > 0 \<Longrightarrow> compare r root \<le> 0"
    using compare_antisym [OF assms(3,2)] compare_antisym [OF assms(1,3)] by auto
  moreover have "compare r root \<le> 0 \<Longrightarrow> compare root l \<le> 0 \<Longrightarrow> compare r l \<le> 0"
    and "compare root r \<le> 0 \<Longrightarrow> compare r l \<le> 0 \<Longrightarrow> compare root l \<le> 0"
    using compare_trans assms by blast+
  ultimately show ?thesis by fastforce
qed

lemma child_cases: "(e::nat) div 2 = c \<Longrightarrow> e = c * 2 \<or> e = c * 2 + 1"
  by auto

lemma all_children:
  "(\<forall>e. e div 2 = c \<and> e \<le> n \<longrightarrow> P e) \<longleftrightarrow>
     (c * 2 \<le> n \<longrightarrow> P (c * 2)) \<and> (c * 2 + 1 \<le> n \<longrightarrow> P (c * 2 + 1))" for c :: nat
proof -
  have "(c * 2) div 2 = c" "(c * 2 + 1) div 2 = c" by simp_all
  then show ?thesis using child_cases by metis
qed

text \<open>What one iteration does to the array when the item sinks to the child \<open>d\<close>.\<close>

lemma sink_step:
  assumes a: "filled a n" "1 \<le> c" "c \<le> n" "ordered_but_down compare ((arr a)(c := root)) n c"
    and dom: "within carrier ((arr a)(c := root)) n"
    and d: "d div 2 = c" "d \<le> n" and gt: "compare root (arr a d) > 0"
    and sib: "\<forall>e. e div 2 = c \<and> e \<le> n \<longrightarrow> compare (arr a d) (arr a e) \<le> 0"
  defines "a' \<equiv> a[c := Some (arr a d)]"
  shows "filled a' n" "length a' = length a" "a' ! Suc n = a ! Suc n"
    "ordered_but_down compare ((arr a')(d := root)) n d"
    "within carrier ((arr a')(d := root)) n"
    "bag ((arr a')(d := root)) n = bag ((arr a)(c := root)) n"
proof -
  let ?g = "(arr a)(c := root)"
  have cd: "c < d" "d \<noteq> c" "Suc n \<noteq> c" "c < length a"
    using d a by (auto intro: filled_length)
  have g': "(arr a')(d := root) = ?g(c := ?g d, d := ?g c)"
    unfolding a'_def using cd by (auto simp: arr_update)
  show "filled a' n" "length a' = length a" "a' ! Suc n = a ! Suc n"
    unfolding a'_def using a(1) cd(3) by (simp_all add: filled_update)
  show "ordered_but_down compare ((arr a')(d := root)) n d"
    unfolding g' by (rule down_step [OF a(4,2) d dom]) (use gt sib cd a(2) in auto)
  show "within carrier ((arr a')(d := root)) n"
    unfolding g' by (rule within_swap [OF dom]) (use a d cd in auto)
  show "bag ((arr a')(d := root)) n = bag ?g n"
    unfolding g' by (rule bag_swap) (use a d cd in auto)
qed

text \<open>
  When the left child is the last item, the loop still reads the slot after the last item
  (\<^verbatim>\<open>heap->heap[right]\<close> in the second comparison). That slot holds the sinking item itself, so
  the comparison is 0 and the loop ends.
\<close>

lemma pop_reads:
  assumes "filled a n" "Suc n < length a" "a ! Suc n = Some root" "1 \<le> c" "c * 2 \<le> n"
  shows "read_slot (Block a) (c * 2) = Inr (arr a (c * 2))"
    "read_slot (Block a) (c * 2 + 1) = Inr (if c * 2 + 1 \<le> n then arr a (c * 2 + 1) else root)"
proof -
  show "read_slot (Block a) (c * 2) = Inr (arr a (c * 2))"
    using assms by (intro read_slot_filled) auto
  show "read_slot (Block a) (c * 2 + 1) = Inr (if c * 2 + 1 \<le> n then arr a (c * 2 + 1) else root)"
  proof (cases "c * 2 + 1 \<le> n")
    case True
    then show ?thesis using assms(1) by (simp add: read_slot_filled)
  next
    case False
    with assms(5) have "c * 2 + 1 = Suc n" by simp
    with False assms(2,3) show ?thesis by (simp add: read_slot_def)
  qed
qed

text \<open>One iteration: the loop ends in heap order, or the item sinks to the lesser child.\<close>

lemma pop_iteration:
  assumes a: "filled a n" "Suc n < length a" "a ! Suc n = Some root" "root \<in> carrier" "n < 2 ^ 30"
    "1 \<le> c" "c \<le> n" "ordered_but_down compare ((arr a)(c := root)) n c" "within carrier ((arr a)(c := root)) n"
  obtains (stop) "heap_pop_loop (Suc k) compare (Block a) n root c = Inr (Block a, c)" "ordered compare ((arr a)(c := root)) n"
  | (sink) d where "d div 2 = c" "d \<le> n" "compare root (arr a d) > 0"
      "\<forall>e. e div 2 = c \<and> e \<le> n \<longrightarrow> compare (arr a d) (arr a e) \<le> 0"
      "heap_pop_loop (Suc k) compare (Block a) n root c = heap_pop_loop k compare (Block (a[c := Some (arr a d)])) n root d"
proof (cases "c * 2 \<le> n")
  case False
  have "c_int (int c * 2) = Inr (int c * 2)" "c_int (int c * 2 + 1) = Inr (int c * 2 + 1)" using a(5,7) by simp_all
  then show thesis using False by (intro stop down_exit [OF a(8)]) auto
next
  case True
  let ?l = "c * 2" and ?r = "c * 2 + 1"
  have int_ok: "c_int (int c * 2) = Inr (int c * 2)" "c_int (int c * 2 + 1) = Inr (int c * 2 + 1)" using a(5,7) by simp_all
  have len: "c < length a" using a by (auto intro: filled_length)
  note run = True int_ok pop_reads [OF a(1,2,3,6) True] len
  have in_dom: "arr a i \<in> carrier" if "i \<noteq> c" "1 \<le> i" "i \<le> n" for i using a(9) that by (auto simp: within_def)
  have mem: "root \<in> carrier" "arr a ?l \<in> carrier" "?r \<le> n \<Longrightarrow> arr a ?r \<in> carrier"
    using a(4,6) True in_dom [of ?l] in_dom [of ?r] by auto
  consider (left) "compare root (arr a ?l) > 0" "?r > n \<or> compare (arr a ?l) (arr a ?r) < 0"
    | (right) "?r \<le> n" "compare root (arr a ?r) > 0" "compare (arr a ?r) (arr a ?l) \<le> 0"
        "compare root (arr a ?l) > 0 \<Longrightarrow> \<not> compare (arr a ?l) (arr a ?r) < 0"
    | (neither) "compare root (arr a ?l) \<le> 0" "?r \<le> n \<Longrightarrow> compare root (arr a ?r) \<le> 0"
    using sink_cases [OF mem(1,2), of "arr a ?r"] mem(3) by fastforce
  then show thesis
  proof cases
    case left
    then show thesis using run left compare_refl [OF mem(2)] unfolding all_children
      by (intro sink [of ?l, unfolded all_children]) (auto simp: write_slot_ok Let_def)
  next
    case right
    then show thesis using run compare_refl [OF mem(3) [OF right(1)]]
      by (intro sink [of ?r, unfolded all_children]) (auto simp: write_slot_ok Let_def)
  next
    case neither
    let ?g = "(arr a)(c := root)"
    have "ordered compare ?g n"
    proof (rule down_exit [OF a(8)])
      show "compare (?g c) (?g e) \<le> 0" if "e div 2 = c" "e \<le> n" for e
        using child_cases [OF that(1)] that(2) neither a(6) by auto
    qed
    then show thesis using run neither compare_refl [OF mem(1)] by (intro stop) (auto simp: Let_def)
  qed
qed

lemma pop_loop_ok:
  assumes "filled a n" "Suc n < length a" "a ! Suc n = Some root" "root \<in> carrier" "n < 2 ^ 30"
    "1 \<le> c" "c \<le> n" "ordered_but_down compare ((arr a)(c := root)) n c"
    "within carrier ((arr a)(c := root)) n" "n < k + c"
  shows "\<exists>a' c'. heap_pop_loop k compare (Block a) n root c = Inr (Block a', c') \<and>
    length a' = length a \<and> filled a' n \<and> 1 \<le> c' \<and> c' \<le> n \<and>
    ordered compare ((arr a')(c' := root)) n \<and>
    bag ((arr a')(c' := root)) n = bag ((arr a)(c := root)) n"
  using assms
proof (induction k arbitrary: a c)
  case 0
  then show ?case by simp
next
  case (Suc k)
  note prems = Suc.prems
  from prems(1-9) show ?case
  proof (cases rule: pop_iteration [where k = k])
    case stop
    with prems(1,6,7) show ?thesis by blast
  next
    case (sink d)
    let ?a = "a[c := Some (arr a d)]"
    note step = sink_step [OF prems(1,6,7,8,9) sink(1-4)]
    have "Suc n < length ?a" "?a ! Suc n = Some root" "1 \<le> d" "n < k + d"
      using step(2,3) prems(2,3,6,10) sink(1) by auto
    from Suc.IH [OF step(1) this(1,2) prems(4,5) this(3) sink(2) step(4,5) this(4)]
    show ?thesis unfolding sink(5) step(2,6) .
  qed
qed

end

section \<open>The invariant of the heap\<close>

text \<open>
  The comparator is lawful on \<open>C\<close>; the array is live, its first \<open>items\<close> slots (from 1) hold
  members of \<open>C\<close> in heap order, and \<^verbatim>\<open>heap->size\<close> is at least the real length of the block.
\<close>

definition heap_inv :: "'a set \<Rightarrow> 'a heap \<Rightarrow> bool" where
  "heap_inv C h \<longleftrightarrow> comparator (hp_compare h) C \<and>
     INITIAL_SIZE \<le> hp_size h \<and> hp_size h < 2 ^ 60 \<and>
     (case hp_heap h of Null \<Rightarrow> False | Dangling \<Rightarrow> False
      | Block a \<Rightarrow> filled a (hp_items h) \<and> ordered (hp_compare h) (arr a) (hp_items h) \<and>
          within C (arr a) (hp_items h) \<and> length a \<le> hp_size h)"

text \<open>\<^verbatim>\<open>heap->size\<close> is the real length of the block.\<close>

definition heap_sized :: "'a heap \<Rightarrow> bool" where
  "heap_sized h = (case hp_heap h of Block a \<Rightarrow> length a = hp_size h | _ \<Rightarrow> False)"

definition heap_bag :: "'a heap \<Rightarrow> 'a multiset" where
  "heap_bag h = (case hp_heap h of Block a \<Rightarrow> bag (arr a) (hp_items h) | _ \<Rightarrow> {#})"

text \<open>The C allocator never serves a request larger than PTRDIFF_MAX.\<close>

definition allocator :: "(nat \<Rightarrow> bool) \<Rightarrow> bool" where
  "allocator alloc \<longleftrightarrow> (\<forall>n. alloc n \<longrightarrow> n < 2 ^ 63)"

lemma heap_invE:
  assumes "heap_inv C h"
  obtains a where "hp_heap h = Block a" "filled a (hp_items h)"
    "ordered (hp_compare h) (arr a) (hp_items h)" "within C (arr a) (hp_items h)"
    "length a \<le> hp_size h" "comparator (hp_compare h) C" "16 \<le> hp_size h" "hp_size h < 2 ^ 60"
  using assms by (auto simp: heap_inv_def INITIAL_SIZE_def split: block.splits)

lemma size_heap_bag: "heap_inv C h \<Longrightarrow> size (heap_bag h) = hp_items h"
  by (auto elim!: heap_invE simp: heap_bag_def)

lemma heap_bag_empty: "heap_inv C h \<Longrightarrow> heap_bag h = {#} \<longleftrightarrow> hp_items h = 0"
  using size_heap_bag [of C h] by auto

lemma heap_items_bound: "heap_inv C h \<Longrightarrow> hp_items h < hp_size h"
  by (auto elim!: heap_invE simp: filled_def)

lemma ordered_cong: "ordered cmp g n \<Longrightarrow> (\<And>i. 1 \<le> i \<Longrightarrow> i \<le> n \<Longrightarrow> g' i = g i) \<Longrightarrow> ordered cmp g' n"
  by (auto simp: ordered_def)

lemma within_bag: "bag g n = bag g' n' \<Longrightarrow> within C g n \<Longrightarrow> within C g' n'"
proof -
  assume "bag g n = bag g' n'" "within C g n"
  moreover have "within C g n \<longleftrightarrow> (\<forall>x\<in>#bag g n. x \<in> C)" for g n by (auto simp: within_def)
  ultimately show ?thesis by simp
qed

section \<open>Pushing\<close>

text \<open>The part of \<^verbatim>\<open>heap_push\<close> after the resize, on an array with room for one more item.\<close>

definition push_into :: "'a heap \<Rightarrow> 'a \<Rightarrow> (int \<times> 'a heap) res" where
  "push_into h item =
     (let items = (hp_items h + 1) mod size_max in
      andthen (write_slot (hp_heap h) items item) (\<lambda>b.
      andthen (heap_push_loop (hp_compare h) b item items) (\<lambda>(b, current).
      andthen (write_slot b current item) (\<lambda>b.
      Inr (0, h\<lparr>hp_heap := b, hp_items := items\<rparr>)))))"

lemma push_into_ok:
  assumes inv: "heap_inv C h" and item: "item \<in> C"
    and room: "hp_heap h = Block a" "hp_items h + 1 < length a"
  shows "\<exists>h'. push_into h item = Inr (0, h') \<and> heap_inv C h' \<and> hp_size h' = hp_size h \<and>
    hp_compare h' = hp_compare h \<and> hp_items h' = hp_items h + 1 \<and>
    heap_bag h' = add_mset item (heap_bag h) \<and> (\<exists>a'. hp_heap h' = Block a' \<and> length a' = length a)"
proof -
  define n where "n = hp_items h"
  let ?n = "Suc n" and ?a = "a[Suc n := Some item]"
  from inv room(1) have a: "filled a n" "ordered (hp_compare h) (arr a) n" "within C (arr a) n"
    "length a \<le> hp_size h" "hp_size h < 2 ^ 60" and cmp: "comparator (hp_compare h) C"
    by (auto elim!: heap_invE simp: n_def)
  have mod: "(n + 1) mod size_max = ?n" using room(2) a(4,5) by (simp add: size_max_def n_def)
  have len: "?n < length a" using room(2) by (simp add: n_def)
  have g: "(arr ?a)(?n := item) = (arr a)(?n := item)" using len by (simp add: arr_update)
  have fill: "filled ?a ?n"
    using a(1) len by (auto simp: filled_def nth_list_update le_Suc_eq)
  have "ordered_but_up (hp_compare h) ((arr ?a)(?n := item)) ?n ?n"
    unfolding g using a(2) by (auto simp: ordered_but_up_def ordered_def)
  moreover have wi: "within C ((arr ?a)(?n := item)) ?n"
    unfolding g using a(3) item by (auto simp: within_def)
  ultimately obtain a' c' where loop: "heap_push_loop (hp_compare h) (Block ?a) item ?n = Inr (Block a', c')"
    and a': "length a' = length ?a" "filled a' ?n" "1 \<le> c'" "c' \<le> ?n"
      "ordered (hp_compare h) ((arr a')(c' := item)) ?n"
      "bag ((arr a')(c' := item)) ?n = bag ((arr ?a)(?n := item)) ?n"
    using comparator.push_loop_ok [OF cmp fill] by fastforce
  have c': "c' < length a'" using a'(2,4) by (auto intro: filled_length)
  let ?h = "h\<lparr>hp_heap := Block (a'[c' := Some item]), hp_items := ?n\<rparr>"
  have run: "push_into h item = Inr (0, ?h)"
    using mod room(1) len loop c' by (simp add: push_into_def n_def write_slot_ok)
  have bag: "bag ((arr a')(c' := item)) ?n = add_mset item (bag (arr a) n)"
    unfolding a'(6) g by (rule bag_snoc)
  have "within C ((arr a')(c' := item)) ?n"
    using within_bag [OF a'(6) [symmetric] wi] .
  with a' c' inv room(1) have "heap_inv C ?h"
    by (auto simp: heap_inv_def arr_update filled_update)
  moreover have "heap_bag ?h = add_mset item (heap_bag h)"
    using bag room(1) c' by (simp add: heap_bag_def arr_update n_def)
  ultimately show ?thesis using run a'(1) by (auto simp: n_def)
qed

lemma heap_push_no_resize:
  "(hp_items h + 1) mod size_max < hp_size h \<Longrightarrow> heap_push alloc h item = push_into h item"
  by (simp add: heap_push_def push_into_def)

lemma heap_push_resize:
  assumes "(hp_items h + 1) mod size_max \<ge> hp_size h" "hp_heap h = Block a"
    "hp_size h < 2 ^ 60" "alloc (hp_size h * 2 * ptr_bytes)"
  shows "heap_push alloc h item =
    push_into (h\<lparr>hp_heap := Block (take (hp_size h * 2) a @ replicate (hp_size h * 2 - length a) None),
                hp_size := hp_size h * 2\<rparr>) item"
  using assms by (simp add: heap_push_def push_into_def realloc_block_def ptr_bytes_def size_max_def
      Let_def mult.commute)

text \<open>Growing the block keeps the invariant and the contents.\<close>

lemma heap_grow:
  assumes inv: "heap_inv C h" and sz: "heap_sized h" and alloc: "allocator alloc" "alloc (hp_size h * 2 * ptr_bytes)"
    and a: "hp_heap h = Block a"
  defines "h' \<equiv> h\<lparr>hp_heap := Block (take (hp_size h * 2) a @ replicate (hp_size h * 2 - length a) None),
                hp_size := hp_size h * 2\<rparr>"
  shows "heap_inv C h'" "heap_bag h' = heap_bag h"
proof -
  let ?a = "take (hp_size h * 2) a @ replicate (hp_size h * 2 - length a) None"
  have len: "length a = hp_size h" using sz a by (simp add: heap_sized_def)
  have old: "filled a (hp_items h)" "ordered (hp_compare h) (arr a) (hp_items h)" "within C (arr a) (hp_items h)"
    using inv a by (auto elim!: heap_invE)
  have same: "?a ! i = a ! i" if "i \<le> hp_items h" for i
    using that old(1) len by (simp add: nth_append filled_def)
  then have arr: "arr ?a i = arr a i" if "i \<le> hp_items h" for i using that by (simp add: arr_def)
  have "hp_size h * 2 < 2 ^ 60" using alloc by (auto simp: allocator_def ptr_bytes_def)
  moreover have "filled ?a (hp_items h)" using old(1) same len by (auto simp: filled_def)
  moreover have "ordered (hp_compare h) (arr ?a) (hp_items h)"
    by (rule ordered_cong [OF old(2)]) (rule arr)
  moreover have "within C (arr ?a) (hp_items h)" using old(3) arr by (simp add: within_def)
  ultimately show "heap_inv C h'" using inv len by (auto simp: heap_inv_def h'_def)
  show "heap_bag h' = heap_bag h"
    unfolding heap_bag_def h'_def a by (simp, rule bag_cong) (rule arr)
qed

text \<open>A push on a heap whose size field is right, when the allocator can serve a resize.\<close>

lemma heap_push_ok:
  assumes inv: "heap_inv C h" and sz: "heap_sized h" and item: "item \<in> C"
    and mem: "hp_items h + 1 \<ge> hp_size h \<longrightarrow> allocator alloc \<and> alloc (hp_size h * 2 * ptr_bytes)"
  shows "\<exists>h'. heap_push alloc h item = Inr (0, h') \<and> heap_inv C h' \<and> heap_sized h' \<and>
    hp_items h' = hp_items h + 1 \<and> hp_compare h' = hp_compare h \<and>
    heap_bag h' = add_mset item (heap_bag h)"
proof -
  from inv sz obtain a where a: "hp_heap h = Block a" "length a = hp_size h" "16 \<le> hp_size h" "hp_size h < 2 ^ 60"
    by (auto elim!: heap_invE simp: heap_sized_def)
  have small: "hp_items h + 1 \<le> hp_size h" using heap_items_bound [OF inv] by simp
  then have mod: "(hp_items h + 1) mod size_max = hp_items h + 1"
    using a(4) by (simp add: size_max_def)
  show ?thesis
  proof (cases "hp_items h + 1 < hp_size h")
    case True
    then have "heap_push alloc h item = push_into h item" using mod by (simp add: heap_push_no_resize)
    with push_into_ok [OF inv item a(1)] True a(2) show ?thesis by (auto simp: heap_sized_def)
  next
    case False
    define h2 where "h2 = h\<lparr>hp_heap := Block (take (hp_size h * 2) a @ replicate (hp_size h * 2 - length a) None),
                hp_size := hp_size h * 2\<rparr>"
    have run: "heap_push alloc h item = push_into h2 item"
      unfolding h2_def using False mod mem a by (intro heap_push_resize) auto
    have grow: "heap_inv C h2" "heap_bag h2 = heap_bag h"
      unfolding h2_def using False mem by (auto intro!: heap_grow [OF inv sz _ _ a(1)])
    have "hp_items h2 + 1 < hp_size h * 2" using small a(3) by (simp add: h2_def)
    with push_into_ok [OF grow(1) item] run grow(2) a(2) show ?thesis
      by (auto simp: h2_def heap_sized_def)
  qed
qed

text \<open>A push the allocator cannot serve reports ENOMEM and loses the array.\<close>

lemma heap_push_enomem:
  assumes inv: "heap_inv C h" and sz: "heap_sized h"
    and full: "hp_items h + 1 = hp_size h" "\<not> alloc (hp_size h * 2 * ptr_bytes)"
  shows "heap_push alloc h item = Inr (ENOMEM, h\<lparr>hp_heap := Null\<rparr>)"
proof -
  from inv obtain a where a: "hp_heap h = Block a" "hp_size h < 2 ^ 60" by (auto elim!: heap_invE)
  with full show ?thesis
    by (simp add: heap_push_def realloc_block_def ptr_bytes_def size_max_def free_block_def ENOMEM_def)
qed

section \<open>Popping\<close>

lemma heap_min_ok:
  assumes "heap_inv C h"
  shows "heap_min h = Inr (if hp_items h = 0 then None else Some (arr (case hp_heap h of Block a \<Rightarrow> a) 1))"
  using assms by (auto elim!: heap_invE simp: heap_min_def read_slot_filled)

text \<open>The part of \<^verbatim>\<open>heap_pop_min\<close> before the resize, on a heap with items.\<close>

definition pop_from :: "'a heap \<Rightarrow> ('a \<times> 'a heap) res" where
  "pop_from h =
     andthen (read_slot (hp_heap h) 1) (\<lambda>item.
     andthen (read_slot (hp_heap h) (hp_items h)) (\<lambda>lst.
     andthen (write_slot (hp_heap h) 1 lst) (\<lambda>b.
     let items = hp_items h - 1 in
     andthen (read_slot b 1) (\<lambda>new_root.
     andthen (heap_pop_loop (Suc items) (hp_compare h) b items new_root 1) (\<lambda>(b, parent).
     andthen (write_slot b parent new_root) (\<lambda>b.
     Inr (item, h\<lparr>hp_heap := b, hp_items := items\<rparr>)))))))"

lemma heap_pop_min_eq:
  "heap_pop_min alloc h =
     (if hp_items h = 0 then Inr (None, h)
      else andthen (pop_from h) (\<lambda>(item, h).
        if (hp_items h + 1) mod size_max < hp_size h div 4 \<and> hp_size h > INITIAL_SIZE then
          andthen (realloc_block alloc (hp_heap h) (ptr_bytes * hp_size h mod size_max div 2)) (\<lambda>new_heap.
          case new_heap of None \<Rightarrow> Inr (Some item, h)
            | Some b \<Rightarrow> Inr (Some item, h\<lparr>hp_heap := b\<rparr>))
        else Inr (Some item, h)))"
  by (auto simp: heap_pop_min_def pop_from_def andthen_assoc Let_def split_beta intro!: andthen_cong)

lemma bag_pop:
  "1 \<le> n \<Longrightarrow> bag g (Suc n) = add_mset (g 1) (bag (g(1 := g (Suc n))) n)"
  by (simp add: bag_Suc bag_update)

text \<open>The loop started at the root, after the last item has been copied there.\<close>

lemma pop_loop_from_root:
  assumes cmp: "comparator cmp C" and bound: "n < 2 ^ 30"
    and old: "filled a (Suc n)" "ordered cmp (arr a) (Suc n)" "within C (arr a) (Suc n)"
  defines "root \<equiv> arr a (Suc n)"
  shows "\<exists>a' c'. heap_pop_loop (Suc n) cmp (Block (a[1 := Some root])) n root 1 = Inr (Block a', c') \<and>
    length a' = length a \<and> filled a' n \<and> c' < length a' \<and>
    ordered cmp ((arr a')(c' := root)) n \<and> bag ((arr a')(c' := root)) n = bag ((arr a)(1 := root)) n"
proof (cases "n = 0")
  case True
  then show ?thesis
    using old(1) by (auto simp: filled_def ordered_def intro!: exI [of _ "a[1 := Some root]"])
next
  case False
  let ?a = "a[1 := Some root]"
  have len: "Suc n < length a" "1 < length a" using old(1) by (auto simp: filled_def)
  have g: "(arr ?a)(1 := root) = (arr a)(1 := root)" using len by (simp add: arr_update)
  have 1: "filled ?a n" "Suc n < length ?a"
    using old(1) by (auto simp: filled_def nth_list_update)
  have 2: "?a ! Suc n = Some root"
    using False old(1) by (auto simp: root_def arr_def filled_def)
  have 3: "ordered_but_down cmp ((arr ?a)(1 := root)) n 1"
    unfolding g using old(2) by (auto simp: ordered_but_down_def ordered_def)
  have 4: "within C ((arr ?a)(1 := root)) n" "root \<in> C"
    unfolding g using old(3) by (auto simp: within_def root_def)
  have "1 \<le> n" "n < Suc n + 1" using False by auto
  from comparator.pop_loop_ok [OF cmp 1 2 4(2) bound order_refl this(1) 3 4(1) this(2)]
  show ?thesis unfolding g length_list_update by (blast intro: filled_length)
qed

lemma pop_from_ok:
  assumes inv: "heap_inv C h" and some: "hp_items h \<noteq> 0" and bound: "hp_items h \<le> 2 ^ 30"
    and a: "hp_heap h = Block a"
  shows "\<exists>h'. pop_from h = Inr (arr a 1, h') \<and> heap_inv C h' \<and> hp_size h' = hp_size h \<and>
    hp_compare h' = hp_compare h \<and> hp_items h' = hp_items h - 1 \<and>
    heap_bag h = add_mset (arr a 1) (heap_bag h') \<and> (\<exists>a'. hp_heap h' = Block a' \<and> length a' = length a)"
proof -
  define n where "n = hp_items h - 1"
  have items: "hp_items h = Suc n" using some by (simp add: n_def)
  let ?root = "arr a (Suc n)"
  from inv a have old: "filled a (Suc n)" "ordered (hp_compare h) (arr a) (Suc n)" "within C (arr a) (Suc n)"
    and cmp: "comparator (hp_compare h) C"
    by (auto elim!: heap_invE simp: items)
  have len: "1 < length a" using old(1) by (auto simp: filled_def)
  have reads: "read_slot (Block a) 1 = Inr (arr a 1)" "read_slot (Block a) (Suc n) = Inr ?root"
    by (rule read_slot_filled [OF old(1)]; simp)+
  have read1: "read_slot (Block (a[1 := Some ?root])) 1 = Inr ?root"
    using len by (simp add: read_slot_def)
  have "n < 2 ^ 30" using bound items by simp
  from pop_loop_from_root [OF cmp this old] obtain a' c' where
    loop: "heap_pop_loop (Suc n) (hp_compare h) (Block (a[1 := Some ?root])) n ?root 1 = Inr (Block a', c')"
    and a': "length a' = length a" "filled a' n" "c' < length a'"
      "ordered (hp_compare h) ((arr a')(c' := ?root)) n"
    and bag': "bag ((arr a')(c' := ?root)) n = bag ((arr a)(1 := ?root)) n"
    by (elim exE conjE)
  let ?h = "h\<lparr>hp_heap := Block (a'[c' := Some ?root]), hp_items := n\<rparr>"
  have "pop_from h = Inr (arr a 1, ?h)"
    using reads read1 len a loop a'(3)
    by (simp add: pop_from_def items write_slot_ok del: heap_pop_loop.simps)
  moreover have "within C ((arr a')(c' := ?root)) n"
    by (rule within_bag [OF bag' [symmetric]]) (use old(3) in \<open>simp add: within_def\<close>)
  with a' inv a have "heap_inv C ?h"
    by (simp add: heap_inv_def arr_update filled_update)
  moreover have "heap_bag h = add_mset (arr a 1) (heap_bag ?h)"
    using a a'(3) bag' bag_pop [of n "arr a"]
    by (cases "n = 0") (simp_all add: heap_bag_def items arr_update bag_Suc)
  ultimately show ?thesis using a' by (auto simp: n_def)
qed

text \<open>Giving memory back keeps the invariant and the contents, not the size field's meaning.\<close>

lemma heap_shrink:
  assumes inv: "heap_inv C h" and a: "hp_heap h = Block a" and few: "hp_items h < hp_size h div 2"
  defines "h' \<equiv> h\<lparr>hp_heap := Block (take (hp_size h div 2) a @ replicate (hp_size h div 2 - length a) None)\<rparr>"
  shows "heap_inv C h'" "heap_bag h' = heap_bag h"
proof -
  let ?a = "take (hp_size h div 2) a @ replicate (hp_size h div 2 - length a) None"
  have old: "filled a (hp_items h)" "ordered (hp_compare h) (arr a) (hp_items h)" "within C (arr a) (hp_items h)"
    using inv a by (auto elim!: heap_invE)
  have same: "?a ! i = a ! i" if "i \<le> hp_items h" for i
    using that old(1) few by (auto simp: nth_append filled_def)
  then have arr: "arr ?a i = arr a i" if "i \<le> hp_items h" for i using that by (simp add: arr_def)
  have "filled ?a (hp_items h)" using old(1) same few by (auto simp: filled_def)
  moreover have "ordered (hp_compare h) (arr ?a) (hp_items h)"
    by (rule ordered_cong [OF old(2)]) (rule arr)
  moreover have "within C (arr ?a) (hp_items h)" using old(3) arr by (simp add: within_def)
  ultimately show "heap_inv C h'" using inv by (simp add: heap_inv_def h'_def)
  show "heap_bag h' = heap_bag h"
    unfolding heap_bag_def h'_def a by (simp, rule bag_cong) (rule arr)
qed

lemma heap_pop_ok:
  assumes inv: "heap_inv C h" and some: "hp_items h \<noteq> 0" and bound: "hp_items h \<le> 2 ^ 30"
  shows "\<exists>x h'. heap_pop_min alloc h = Inr (Some x, h') \<and> heap_min h = Inr (Some x) \<and>
    heap_inv C h' \<and> hp_compare h' = hp_compare h \<and> hp_items h' = hp_items h - 1 \<and>
    heap_bag h = add_mset x (heap_bag h') \<and> (\<forall>y\<in>#heap_bag h. hp_compare h x y \<le> 0)"
proof -
  from inv obtain a where a: "hp_heap h = Block a" "filled a (hp_items h)"
    "ordered (hp_compare h) (arr a) (hp_items h)" "within C (arr a) (hp_items h)"
    and cmp: "comparator (hp_compare h) C" and size: "hp_size h < 2 ^ 60"
    by (auto elim!: heap_invE)
  let ?x = "arr a 1"
  have least: "\<forall>y\<in>#heap_bag h. hp_compare h ?x y \<le> 0"
    using comparator.ordered_root [OF cmp a(3,4)] by (auto simp: heap_bag_def a(1))
  have min: "heap_min h = Inr (Some ?x)" using heap_min_ok [OF inv] some a(1) by simp
  obtain h1 a1 where h1: "pop_from h = Inr (?x, h1)" "heap_inv C h1" "hp_size h1 = hp_size h"
    "hp_compare h1 = hp_compare h" "hp_items h1 = hp_items h - 1"
    "heap_bag h = add_mset ?x (heap_bag h1)" "hp_heap h1 = Block a1"
    using pop_from_ok [OF inv some bound a(1)] by blast
  let ?h2 = "h1\<lparr>hp_heap := Block (take (hp_size h1 div 2) a1 @ replicate (hp_size h1 div 2 - length a1) None)\<rparr>"
  have half: "(ptr_bytes * hp_size h1 mod size_max div 2) div ptr_bytes = hp_size h1 div 2"
    using size h1(3) by (simp add: ptr_bytes_def size_max_def)
  have mod: "Suc (hp_items h1) mod size_max = Suc (hp_items h1)"
    using bound by (simp add: size_max_def h1(5))
  let ?bytes = "ptr_bytes * hp_size h1 mod size_max div 2"
  have run: "heap_pop_min alloc h =
      (if Suc (hp_items h1) < hp_size h1 div 4 \<and> INITIAL_SIZE < hp_size h1 \<and> alloc ?bytes
       then Inr (Some ?x, ?h2) else Inr (Some ?x, h1))"
    using some h1(1) by (simp add: heap_pop_min_eq mod realloc_block_def h1(7) half Let_def)
  show ?thesis
  proof (cases "Suc (hp_items h1) < hp_size h1 div 4 \<and> INITIAL_SIZE < hp_size h1 \<and> alloc ?bytes")
    case True
    moreover have "hp_size h1 div 4 \<le> hp_size h1 div 2" by (rule div_le_mono2) simp_all
    ultimately have "hp_items h1 < hp_size h1 div 2" by linarith
    with True run h1 least min heap_shrink [OF h1(2,7)] show ?thesis by auto
  next
    case False
    with run h1 least min show ?thesis by (simp only: if_False) auto
  qed
qed

lemma heap_push_keeps_size:
  "heap_push alloc h item = Inr (r, h') \<Longrightarrow> (hp_items h + 1) mod size_max < hp_size h \<Longrightarrow> hp_size h' = hp_size h"
  by (auto simp: heap_push_def Let_def elim!: andthenE split: if_splits)

text \<open>The number of slots of a block, which no write changes.\<close>

definition slots :: "'a block \<Rightarrow> nat option" where
  "slots b = (case b of Block a \<Rightarrow> Some (length a) | _ \<Rightarrow> None)"

lemma write_slot_slots: "write_slot b i x = Inr b' \<Longrightarrow> slots b' = slots b"
  by (auto simp: write_slot_def slots_def split: block.splits if_splits)

lemma heap_pop_loop_slots: "heap_pop_loop k compare b items root parent = Inr (b', p) \<Longrightarrow> slots b' = slots b"
proof (induction k arbitrary: b parent)
  case (Suc k)
  have step: "slots b' = slots b" if "write_slot b parent x = Inr b1" "heap_pop_loop k compare b1 items root q = Inr (b', p)" for x b1 q
    using Suc.IH [OF that(2)] write_slot_slots [OF that(1)] by simp
  from Suc.prems show ?case unfolding heap_pop_loop.simps Let_def
    by (elim andthenE) (auto elim!: andthenE split: if_splits, (erule (1) step)+)
qed simp

lemma heap_sized_slots: "heap_sized h \<longleftrightarrow> slots (hp_heap h) = Some (hp_size h)"
  by (auto simp: heap_sized_def slots_def split: block.splits)

text \<open>A block of the initial size is never given back, so a pop keeps it whole.\<close>

lemma heap_pop_keeps_block:
  assumes "heap_pop_min alloc h = Inr (x, h')" "heap_sized h" "hp_size h = INITIAL_SIZE"
  shows "heap_sized h'" "hp_size h' = INITIAL_SIZE"
proof -
  have "slots (hp_heap h') = slots (hp_heap h) \<and> hp_size h' = hp_size h"
  proof (cases "hp_items h = 0")
    case True
    with assms(1) show ?thesis by (simp add: heap_pop_min_def)
  next
    case False
    with assms(1,3) obtain lst b b1 root parent b2 where
      "write_slot (hp_heap h) 1 lst = Inr b"
      "heap_pop_loop (Suc (hp_items h - 1)) (hp_compare h) b (hp_items h - 1) root 1 = Inr (b1, parent)"
      "write_slot b1 parent root = Inr b2" "h' = h\<lparr>hp_heap := b2, hp_items := hp_items h - 1\<rparr>"
      unfolding heap_pop_min_def Let_def by (auto elim!: andthenE simp del: heap_pop_loop.simps)
    from write_slot_slots [OF this(1)] heap_pop_loop_slots [OF this(2)] write_slot_slots [OF this(3)] this(4)
    show ?thesis by simp
  qed
  with assms(2,3) show "heap_sized h'" "hp_size h' = INITIAL_SIZE" by (simp_all add: heap_sized_slots)
qed

section \<open>The contract of a priority queue\<close>

text \<open>
  What the timer code relies on: popping an inhabited queue removes one least item and
  keeps the rest. The client is a loop that pops a given number of items.
\<close>

locale min_queue =
  fixes inv :: "'q \<Rightarrow> bool" and items :: "'q \<Rightarrow> 'a multiset"
    and le :: "'a \<Rightarrow> 'a \<Rightarrow> bool" and pop :: "'q \<Rightarrow> ('a option \<times> 'q) res"
  assumes pop_none: "inv q \<Longrightarrow> items q = {#} \<Longrightarrow> pop q = Inr (None, q)"
    and pop_some: "inv q \<Longrightarrow> items q \<noteq> {#} \<Longrightarrow>
      \<exists>x q'. pop q = Inr (Some x, q') \<and> inv q' \<and> items q = add_mset x (items q') \<and>
        (\<forall>y\<in>#items q. le x y)"

fun pop_all :: "('q \<Rightarrow> ('a option \<times> 'q) res) \<Rightarrow> nat \<Rightarrow> 'q \<Rightarrow> ('a list \<times> 'q) res" where
  "pop_all pop 0 q = Inr ([], q)"
| "pop_all pop (Suc n) q =
     andthen (pop q) (\<lambda>(x, q').
     case x of None \<Rightarrow> Inr ([], q')
     | Some x \<Rightarrow> andthen (pop_all pop n q') (\<lambda>(xs, q''). Inr (x # xs, q'')))"

context min_queue
begin

lemma pop_all_sorted:
  "inv q \<Longrightarrow> size (items q) \<le> n \<Longrightarrow>
     \<exists>xs q'. pop_all pop n q = Inr (xs, q') \<and> sorted_wrt le xs \<and> mset xs = items q \<and>
       inv q' \<and> items q' = {#}"
proof (induction n arbitrary: q)
  case 0
  then show ?case by simp
next
  case (Suc n)
  show ?case
  proof (cases "items q = {#}")
    case True
    with Suc.prems pop_none show ?thesis by simp
  next
    case False
    with Suc.prems obtain x q' where x: "pop q = Inr (Some x, q')" "inv q'"
      "items q = add_mset x (items q')" "\<forall>y\<in>#items q. le x y"
      using pop_some by blast
    with Suc.prems obtain xs q'' where xs: "pop_all pop n q' = Inr (xs, q'')" "sorted_wrt le xs"
      "mset xs = items q'" "inv q''" "items q'' = {#}"
      using Suc.IH [of q'] by auto
    have "\<forall>y\<in>set xs. le x y" using x(3,4) xs(3) by (metis set_mset_mset set_mset_add_mset_insert insertCI)
    with x xs show ?thesis by simp
  qed
qed

end

text \<open>The heap of \<^verbatim>\<open>heap.c\<close> is such a queue while it holds at most \<open>2 ^ 30\<close> items.\<close>

definition poppable :: "'a set \<Rightarrow> ('a \<Rightarrow> 'a \<Rightarrow> int) \<Rightarrow> 'a heap \<Rightarrow> bool" where
  "poppable C cmp h \<longleftrightarrow> heap_inv C h \<and> hp_compare h = cmp \<and> hp_items h \<le> 2 ^ 30"

interpretation heap: min_queue "poppable C cmp" heap_bag "\<lambda>x y. cmp x y \<le> 0" "heap_pop_min alloc"
  for C cmp alloc
proof (unfold_locales, goal_cases)
  case (1 q)
  then have "hp_items q = 0" using heap_bag_empty by (auto simp: poppable_def)
  then show ?case by (simp add: heap_pop_min_def)
next
  case (2 q)
  then have q: "heap_inv C q" "hp_items q \<noteq> 0" "hp_items q \<le> 2 ^ 30" "hp_compare q = cmp"
    using heap_bag_empty by (auto simp: poppable_def)
  from heap_pop_ok [OF q(1-3), of alloc] q show ?case by (fastforce simp: poppable_def)
qed

section \<open>Runs of the heap\<close>

text \<open>A sequence of calls on one heap, as a client makes them; a push must report success.\<close>

datatype 'a heap_call = Push 'a | Pop

fun heap_run :: "(nat \<Rightarrow> bool) \<Rightarrow> 'a heap_call list \<Rightarrow> 'a heap \<Rightarrow> ('a option list \<times> 'a heap) res" where
  "heap_run alloc [] h = Inr ([], h)"
| "heap_run alloc (Push x # cs) h =
     andthen (heap_push alloc h x) (\<lambda>(rc, h).
     andthen (c_assert (rc = 0)) (\<lambda>_. heap_run alloc cs h))"
| "heap_run alloc (Pop # cs) h =
     andthen (heap_pop_min alloc h) (\<lambda>(x, h).
     andthen (heap_run alloc cs h) (\<lambda>(xs, h). Inr (x # xs, h)))"

text \<open>The comparator of \<^verbatim>\<open>src/test/test_heap.c\<close>, on values that fit an int.\<close>

definition int_compare :: "int \<Rightarrow> int \<Rightarrow> int" where
  "int_compare left right = long_to_int (left - right)"

definition int_items :: "int set" where
  "int_items = {x. 0 \<le> x \<and> x < 2 ^ 31}"

lemma int_compare_diff: "x \<in> int_items \<Longrightarrow> y \<in> int_items \<Longrightarrow> int_compare x y = x - y"
  by (simp add: int_items_def int_compare_def)

interpretation ints: comparator int_compare int_items
  by unfold_locales (auto simp: int_compare_diff)

text \<open>A heap laid out from a sorted list of items, with some slots to spare.\<close>

definition sorted_heap :: "('a \<Rightarrow> 'a \<Rightarrow> int) \<Rightarrow> 'a list \<Rightarrow> nat \<Rightarrow> 'a heap" where
  "sorted_heap cmp xs spare =
     \<lparr>hp_heap = Block (None # map Some xs @ replicate spare None),
      hp_size = Suc (length xs + spare), hp_items = length xs, hp_compare = cmp\<rparr>"

lemma arr_sorted_heap: "1 \<le> i \<Longrightarrow> i \<le> length xs \<Longrightarrow> arr (None # map Some xs @ ys) i = xs ! (i - 1)"
  by (cases i) (simp_all add: arr_def nth_append)

lemma sorted_heap_inv:
  assumes cmp: "comparator cmp C" and xs: "sorted_wrt (\<lambda>x y. cmp x y \<le> 0) xs" "set xs \<subseteq> C"
    and size: "16 \<le> Suc (length xs + spare)" "Suc (length xs + spare) < 2 ^ 60"
  shows "heap_inv C (sorted_heap cmp xs spare)" "heap_sized (sorted_heap cmp xs spare)"
proof -
  let ?a = "None # map Some xs @ replicate spare None"
  have "filled ?a (length xs)"
    by (auto simp: filled_def nth_Cons' nth_append)
  moreover have "ordered cmp (arr ?a) (length xs)"
    unfolding ordered_def
  proof (intro allI impI, elim conjE)
    fix i assume i: "2 \<le> i" "i \<le> length xs"
    then have j: "1 \<le> i div 2" "i div 2 \<le> length xs" "i div 2 - 1 < i - 1" "i - 1 < length xs"
      by linarith+
    have "cmp (xs ! (i div 2 - 1)) (xs ! (i - 1)) \<le> 0"
      by (rule sorted_wrt_nth_less [OF xs(1) j(3,4)])
    with i j show "cmp (arr ?a (i div 2)) (arr ?a i) \<le> 0"
      by (simp add: arr_sorted_heap)
  qed
  moreover have "within C (arr ?a) (length xs)"
    using xs(2) by (auto simp: within_def arr_sorted_heap)
  ultimately show "heap_inv C (sorted_heap cmp xs spare)" "heap_sized (sorted_heap cmp xs spare)"
    using cmp size by (simp_all add: heap_inv_def sorted_heap_def heap_sized_def INITIAL_SIZE_def)
qed

section \<open>Refilling a heap that gave memory back\<close>

lemma heap_push_overrun:
  assumes "hp_heap h = Block a" "length a \<le> hp_items h + 1" "hp_items h + 1 < hp_size h" "hp_size h < 2 ^ 60"
  shows "heap_push alloc h x = Inl Out_of_bounds"
  using assms by (simp add: heap_push_def size_max_def write_slot_def)

lemma heap_refill_overrun:
  assumes "heap_inv C h" "x \<in> C" "hp_heap h = Block a" "length a < hp_size h"
    "n = length a - hp_items h - 1"
  shows "heap_run alloc (replicate (Suc n) (Push x)) h = Inl Out_of_bounds"
  using assms
proof (induction n arbitrary: h a)
  case 0
  then have "heap_push alloc h x = Inl Out_of_bounds"
    by (intro heap_push_overrun) (auto elim!: heap_invE simp: filled_def)
  then show ?case by simp
next
  case (Suc n)
  then have room: "hp_items h + 1 < length a" by simp
  with Suc.prems have "heap_push alloc h x = push_into h x"
    by (intro heap_push_no_resize) (auto elim!: heap_invE simp: size_max_def)
  with push_into_ok [OF Suc.prems(1-3) room] obtain h' a' where h': "heap_push alloc h x = Inr (0, h')"
    "heap_inv C h'" "hp_size h' = hp_size h" "hp_items h' = hp_items h + 1" "hp_heap h' = Block a'"
    "length a' = length a"
    by auto
  with Suc.prems have "heap_run alloc (replicate (Suc n) (Push x)) h' = Inl Out_of_bounds"
    by (intro Suc.IH [OF h'(2) Suc.prems(2) h'(5)]) auto
  with h'(1) show ?case by simp
qed

lemma heap_pop_shrinks:
  assumes inv: "heap_inv C h" and some: "hp_items h \<noteq> 0" and bound: "hp_items h \<le> 2 ^ 30"
    and few: "hp_items h < hp_size h div 4" "INITIAL_SIZE < hp_size h"
    and alloc: "alloc (hp_size h * ptr_bytes div 2)"
  shows "\<exists>x h' a'. heap_pop_min alloc h = Inr (Some x, h') \<and> heap_inv C h' \<and>
    hp_heap h' = Block a' \<and> length a' = hp_size h div 2 \<and> hp_size h' = hp_size h \<and>
    hp_items h' = hp_items h - 1"
proof -
  from inv obtain a where a: "hp_heap h = Block a" and size: "hp_size h < 2 ^ 60"
    by (auto elim!: heap_invE)
  from pop_from_ok [OF inv some bound a] obtain h1 a1 where h1: "pop_from h = Inr (arr a 1, h1)"
    "heap_inv C h1" "hp_size h1 = hp_size h" "hp_items h1 = hp_items h - 1" "hp_heap h1 = Block a1"
    by blast
  have bytes: "ptr_bytes * hp_size h1 mod size_max div 2 = hp_size h * ptr_bytes div 2"
    "hp_size h1 * ptr_bytes div 2 div ptr_bytes = hp_size h1 div 2"
    using size by (simp_all add: h1(3) ptr_bytes_def size_max_def mult.commute)
  have half: "hp_items h1 < hp_size h1 div 2" using few(1) h1(3,4) by linarith
  have "(hp_items h1 + 1) mod size_max = hp_items h" using some bound by (simp add: h1(4) size_max_def)
  then have "heap_pop_min alloc h = Inr (Some (arr a 1),
      h1\<lparr>hp_heap := Block (take (hp_size h1 div 2) a1 @ replicate (hp_size h1 div 2 - length a1) None)\<rparr>)"
    using some few alloc h1(1) by (simp add: heap_pop_min_eq h1(3,5) bytes realloc_block_def Let_def flip: h1(3))
  then show ?thesis using heap_shrink [OF h1(2,5) half] h1 by auto
qed

section \<open>Properties\<close>

text \<open>
  C32: A push on a heap whose size field is right succeeds whenever the allocator can serve a
  needed resize; it adds exactly the item to the contents, keeps the heap order, never
  accesses the array out of bounds and keeps the size field right.
\<close>

theorem heap_push_correct:
  assumes "heap_inv C h" "heap_sized h" "item \<in> C" "allocator alloc"
    and "hp_items h + 1 \<ge> hp_size h \<longrightarrow> alloc (hp_size h * 2 * ptr_bytes)"
  shows "\<exists>h'. heap_push alloc h item = Inr (0, h') \<and> heap_inv C h' \<and> heap_sized h' \<and>
    heap_size h' = heap_size h + 1 \<and> heap_bag h' = add_mset item (heap_bag h)"
  using heap_push_ok [OF assms(1-3)] assms(4,5) by (auto simp: heap_size_def)

lemma sorted_ints_inv:
  "sorted_wrt (\<le>) xs \<Longrightarrow> set xs \<subseteq> int_items \<Longrightarrow> 16 \<le> Suc (length xs + spare) \<Longrightarrow>
     Suc (length xs + spare) < 2 ^ 60 \<Longrightarrow>
     heap_inv int_items (sorted_heap int_compare xs spare) \<and> heap_sized (sorted_heap int_compare xs spare)"
proof -
  assume xs: "sorted_wrt (\<le>) xs" "set xs \<subseteq> int_items"
    and size: "16 \<le> Suc (length xs + spare)" "Suc (length xs + spare) < 2 ^ 60"
  have "sorted_wrt (\<lambda>x y. int_compare x y \<le> 0) xs"
    by (rule sorted_wrt_mono_rel [OF _ xs(1)]) (use xs(2) in \<open>auto simp: int_compare_diff subset_iff\<close>)
  from sorted_heap_inv [OF ints.comparator_axioms this xs(2) size] show ?thesis by blast
qed

definition full_heap :: "int heap" where
  "full_heap = sorted_heap int_compare (map int [0..<15]) 0"

lemma full_heap_inv: "heap_inv int_items full_heap" "heap_sized full_heap"
proof -
  have "sorted_wrt (\<le>) (map int [0..<15])" "set (map int [0..<15]) \<subseteq> int_items"
    by (auto simp: int_items_def sorted_wrt_map sorted_wrt_upt)
  from sorted_ints_inv [OF this, of 0]
  show "heap_inv int_items full_heap" "heap_sized full_heap" by (simp_all add: full_heap_def)
qed

theorem heap_push_correct_witness:
  "\<exists>h'. heap_push (\<lambda>n. n \<le> 4096) full_heap 4 = Inr (0, h') \<and> heap_inv int_items h' \<and>
     heap_sized h' \<and> heap_size h' = 16 \<and> heap_bag h' = add_mset 4 (heap_bag full_heap)"
  using heap_push_correct [OF full_heap_inv, of 4 "\<lambda>n. n \<le> 4096"]
  by (simp add: int_items_def allocator_def full_heap_def sorted_heap_def ptr_bytes_def heap_size_def)

text \<open>
  C33: Popping a heap that holds items returns what \<^verbatim>\<open>heap_min\<close> shows, a least item, and leaves
  exactly the other items in heap order. The loop ends, its int arithmetic does not overflow
  for up to \<open>2 ^ 30\<close> items, and the read of the slot after the last item is harmless.
\<close>

theorem heap_pop_correct:
  assumes "heap_inv C h" "hp_items h \<noteq> 0" "hp_items h \<le> 2 ^ 30"
  shows "\<exists>x h'. heap_pop_min alloc h = Inr (Some x, h') \<and> heap_min h = Inr (Some x) \<and>
    heap_inv C h' \<and> heap_size h' = heap_size h - 1 \<and> heap_bag h = add_mset x (heap_bag h') \<and>
    (\<forall>y\<in>#heap_bag h. hp_compare h x y \<le> 0)"
  using heap_pop_ok [OF assms, of alloc] by (auto simp: heap_size_def)

theorem heap_pop_correct_witness:
  "\<exists>x h'. heap_pop_min (\<lambda>n. False) full_heap = Inr (Some x, h') \<and> heap_min full_heap = Inr (Some x) \<and>
     heap_inv int_items h' \<and> heap_size h' = 14 \<and> heap_bag full_heap = add_mset x (heap_bag h') \<and>
     (\<forall>y\<in>#heap_bag full_heap. hp_compare full_heap x y \<le> 0)"
  using heap_pop_correct [OF full_heap_inv(1), of "\<lambda>n. False"]
  by (simp add: full_heap_def sorted_heap_def heap_size_def)

text \<open>
  C34: Popping as many times as there are items returns all of them, each once, in ascending
  order, and empties the heap.
\<close>

theorem heap_drains_sorted:
  assumes "heap_inv C h" "hp_items h \<le> 2 ^ 30"
  shows "\<exists>xs h'. pop_all (heap_pop_min alloc) (heap_size h) h = Inr (xs, h') \<and>
    sorted_wrt (\<lambda>x y. hp_compare h x y \<le> 0) xs \<and> mset xs = heap_bag h \<and> heap_bag h' = {#}"
  using heap.pop_all_sorted [of C "hp_compare h" h "heap_size h" alloc] assms size_heap_bag [OF assms(1)]
  by (auto simp: poppable_def heap_size_def)

theorem heap_drains_sorted_witness:
  "\<exists>xs h'. pop_all (heap_pop_min (\<lambda>n. True)) 15 full_heap = Inr (xs, h') \<and>
     sorted_wrt (\<lambda>x y. hp_compare full_heap x y \<le> 0) xs \<and> mset xs = heap_bag full_heap \<and> heap_bag h' = {#}"
  using heap_drains_sorted [OF full_heap_inv(1), of "\<lambda>n. True"]
  by (simp add: full_heap_def sorted_heap_def heap_size_def)

text \<open>
  When the allocator refuses the resize, the push reports ENOMEM, and the heap has lost
  its array while still counting its items: the next \<^verbatim>\<open>heap_min\<close> dereferences NULL.
\<close>

theorem heap_push_out_of_memory:
  assumes "heap_inv C h" "heap_sized h" "hp_items h + 1 = hp_size h"
    "\<not> alloc (hp_size h * 2 * ptr_bytes)"
  shows "\<exists>h'. heap_push alloc h item = Inr (ENOMEM, h') \<and> heap_size h' = heap_size h \<and>
    heap_min h' = Inl Null_deref"
proof -
  have "heap_push alloc h item = Inr (ENOMEM, h\<lparr>hp_heap := Null\<rparr>)"
    using assms by (rule heap_push_enomem)
  moreover have "hp_items h \<noteq> 0" using assms(1,3) by (auto elim!: heap_invE)
  ultimately show ?thesis by (simp add: heap_min_def heap_size_def read_slot_def)
qed

theorem heap_push_out_of_memory_witness:
  "\<exists>h'. heap_push (\<lambda>n. False) full_heap 4 = Inr (ENOMEM, h') \<and> heap_size h' = heap_size full_heap \<and>
     heap_min h' = Inl Null_deref"
  using heap_push_out_of_memory [OF full_heap_inv, of "\<lambda>n. False" 4]
  by (simp add: full_heap_def sorted_heap_def)

text \<open>
  C35: \<^verbatim>\<open>heap_pop_min\<close> halves the block without halving \<^verbatim>\<open>heap->size\<close>. From any heap on which it
  does so, refilling the heap writes past the end of the block: after the pop, \<open>size/2 - items\<close>
  pushes fit and the next one is out of bounds.
\<close>

theorem heap_shrink_then_overrun:
  assumes "heap_inv C h" "x \<in> C" "0 < hp_items h" "hp_items h \<le> 2 ^ 30"
    and "hp_items h < hp_size h div 4" "INITIAL_SIZE < hp_size h" "alloc (hp_size h * ptr_bytes div 2)"
  shows "heap_run alloc (Pop # replicate (hp_size h div 2 - hp_items h + 1) (Push x)) h = Inl Out_of_bounds"
proof -
  obtain y h' a' where pop: "heap_pop_min alloc h = Inr (y, h')" and h': "heap_inv C h'"
    "hp_heap h' = Block a'" "length a' = hp_size h div 2" "hp_size h' = hp_size h" "hp_items h' = hp_items h - 1"
    using heap_pop_shrinks [where alloc = alloc, OF assms(1) _ assms(4-7)] assms(3) by auto
  have "heap_run alloc (replicate (Suc (hp_size h div 2 - hp_items h)) (Push x)) h' = Inl Out_of_bounds"
    using h' assms(3,5) by (intro heap_refill_overrun [OF h'(1) assms(2) h'(2)]) auto
  with pop show ?thesis by simp
qed

definition sparse_heap :: "int heap" where
  "sparse_heap = sorted_heap int_compare (map int [0..<7]) 24"

theorem heap_shrink_then_overrun_witness:
  "heap_run (\<lambda>n. n \<le> 4096) (Pop # replicate 10 (Push 5)) sparse_heap = Inl Out_of_bounds"
proof -
  have "sorted_wrt (\<le>) (map int [0..<7])" "set (map int [0..<7]) \<subseteq> int_items"
    by (auto simp: int_items_def sorted_wrt_map sorted_wrt_upt)
  from sorted_ints_inv [OF this, of 24]
  have "heap_inv int_items sparse_heap" by (simp add: sparse_heap_def)
  from heap_shrink_then_overrun [where alloc = "\<lambda>n. n \<le> 4096", OF this, of 5] show ?thesis
    by (simp add: sparse_heap_def sorted_heap_def int_items_def INITIAL_SIZE_def ptr_bytes_def)
qed

end
