(* ===== verification/Timers.thy ===== *)
theory Timers
  imports Util_Heap
begin

text \<open>
  Absolute times, the timer comparator and the expiration of a timer
  (\<^verbatim>\<open>timer_compare\<close> and \<^verbatim>\<open>timer_expiration\<close> of \<^verbatim>\<open>src/scheduler.c\<close>), and the deadline that
  \<^verbatim>\<open>async_sleep_relative\<close> of \<^verbatim>\<open>src/async.c\<close> computes.
\<close>

section \<open>Times\<close>

record timespec =
  tv_sec :: int
  tv_nsec :: int

text \<open>A coroutine is known by the address of its structure.\<close>

type_synonym coro = nat

record timer_wait =
  tw_time :: timespec
  tw_coro :: coro

text \<open>The 64-bit subtraction of the machine.\<close>

definition long_sub :: "int \<Rightarrow> int \<Rightarrow> int" where
  "long_sub a b = signed_take_bit 63 (a - b)"

definition timer_compare :: "timer_wait \<Rightarrow> timer_wait \<Rightarrow> int" where
  "timer_compare t1 t2 =
     (let seconds = long_sub (tv_sec (tw_time t1)) (tv_sec (tw_time t2)) in
      if seconds \<noteq> 0 then long_to_int seconds
      else long_to_int (long_sub (tv_nsec (tw_time t1)) (tv_nsec (tw_time t2))))"

text \<open>\<open>now\<close> is what \<^verbatim>\<open>clock_gettime\<close> returned.\<close>

definition timer_expiration :: "timespec \<Rightarrow> timer_wait \<Rightarrow> int res" where
  "timer_expiration now t =
     andthen (c_long (tv_sec (tw_time t) - tv_sec now)) (\<lambda>secs.
     andthen (c_long (secs * 1000)) (\<lambda>millis.
     andthen (c_long (tv_nsec (tw_time t) - tv_nsec now)) (\<lambda>nanos.
     c_long (millis + nanos sdiv 1000000))))"

text \<open>The absolute deadline that \<^verbatim>\<open>async_sleep_relative\<close> hands to \<^verbatim>\<open>sched_wait\<close>.\<close>

definition sleep_deadline :: "timespec \<Rightarrow> int \<Rightarrow> timespec res" where
  "sleep_deadline now millisecs =
     andthen (c_long (tv_sec now + millisecs sdiv 1000)) (\<lambda>sec.
     andthen (c_long (tv_nsec now + millisecs smod 1000 * 1000000)) (\<lambda>nsec.
     if nsec > 1000000000 then
       andthen (c_long (sec + 1)) (\<lambda>sec'. Inr \<lparr>tv_sec = sec', tv_nsec = nsec - 1000000000\<rparr>)
     else Inr \<lparr>tv_sec = sec, tv_nsec = nsec\<rparr>))"

section \<open>The instants they denote\<close>

definition nanos :: "timespec \<Rightarrow> int" where
  "nanos t = tv_sec t * 1000000000 + tv_nsec t"

definition normal_time :: "timespec \<Rightarrow> bool" where
  "normal_time t \<longleftrightarrow> 0 \<le> tv_nsec t \<and> tv_nsec t < 1000000000"

text \<open>Timers whose seconds lie in a window of \<open>2 ^ 31\<close> seconds (68 years) from \<open>base\<close>.\<close>

definition timer_window :: "int \<Rightarrow> timer_wait set" where
  "timer_window base = {t. base \<le> tv_sec (tw_time t) \<and> tv_sec (tw_time t) < base + 2 ^ 31 \<and>
     normal_time (tw_time t)}"

section \<open>The comparator\<close>

lemma long_sub_small: "\<bar>a - b\<bar> < 2 ^ 63 \<Longrightarrow> long_sub a b = a - b"
  unfolding long_sub_def by (rule signed_take_bit_int_eq_self) auto

lemma timer_compare_window:
  assumes "t1 \<in> timer_window base" "t2 \<in> timer_window base"
  shows "timer_compare t1 t2 =
    (if tv_sec (tw_time t1) = tv_sec (tw_time t2) then tv_nsec (tw_time t1) - tv_nsec (tw_time t2)
     else tv_sec (tw_time t1) - tv_sec (tw_time t2))"
  using assms by (auto simp: timer_compare_def timer_window_def normal_time_def long_sub_small Let_def)

lemma timer_compare_sgn:
  assumes "t1 \<in> timer_window base" "t2 \<in> timer_window base"
  shows "sgn (timer_compare t1 t2) = sgn (nanos (tw_time t1) - nanos (tw_time t2))"
proof -
  have b: "\<bar>tv_nsec (tw_time t1) - tv_nsec (tw_time t2)\<bar> < 1000000000"
    using assms by (auto simp: timer_window_def normal_time_def)
  show ?thesis
    unfolding timer_compare_window [OF assms] nanos_def using b by (auto simp: sgn_if)
qed

interpretation timers: comparator timer_compare "timer_window base" for base
proof (unfold_locales, goal_cases)
  case (1 x)
  then show ?case by (simp add: timer_compare_window)
next
  case (2 x y)
  with timer_compare_sgn [of x base y] timer_compare_sgn [of y base x] show ?case
    by (auto simp: sgn_if split: if_splits)
next
  case (3 x y z)
  with timer_compare_sgn [of x base y] timer_compare_sgn [of y base z] timer_compare_sgn [of x base z]
  show ?case by (auto simp: sgn_if split: if_splits)
qed

section \<open>Expiration\<close>

text \<open>The magnitudes for which the 64-bit arithmetic of \<^verbatim>\<open>timer_expiration\<close> is exact.\<close>

definition sane_time :: "timespec \<Rightarrow> bool" where
  "sane_time t \<longleftrightarrow> normal_time t \<and> \<bar>tv_sec t\<bar> < 2 ^ 52"

lemma sdiv_million:
  fixes d :: int
  shows "d sdiv 1000000 * 1000000 - d < 1000000" "d - d sdiv 1000000 * 1000000 < 1000000"
    "d \<le> 0 \<Longrightarrow> d sdiv 1000000 \<le> 0" "0 \<le> d \<Longrightarrow> 0 \<le> d sdiv 1000000"
    "\<bar>d\<bar> < 1000000000 \<Longrightarrow> \<bar>d sdiv 1000000\<bar> < 1000"
proof -
  have pos: "x div 1000000 * 1000000 \<le> x" "x < x div 1000000 * 1000000 + 1000000" for x :: int
    using div_mult_mod_eq [of x 1000000] pos_mod_sign [of 1000000 x] pos_mod_bound [of 1000000 x]
    by linarith+
  have eq: "d sdiv 1000000 = (if 0 \<le> d then d div 1000000 else - ((- d) div 1000000))"
    by (simp add: sdiv_pos_div sdiv_neg_div)
  show "d sdiv 1000000 * 1000000 - d < 1000000" "d - d sdiv 1000000 * 1000000 < 1000000"
    "d \<le> 0 \<Longrightarrow> d sdiv 1000000 \<le> 0" "0 \<le> d \<Longrightarrow> 0 \<le> d sdiv 1000000"
    "\<bar>d\<bar> < 1000000000 \<Longrightarrow> \<bar>d sdiv 1000000\<bar> < 1000"
    unfolding eq using pos [of d] pos [of "- d"]
    by (cases "0 \<le> d"; simp add: abs_less_iff pos_imp_zdiv_nonneg_iff)+
qed

lemma timer_expiration_ok:
  assumes "sane_time now" "sane_time (tw_time t)"
  shows "timer_expiration now t = Inr ((tv_sec (tw_time t) - tv_sec now) * 1000 +
    (tv_nsec (tw_time t) - tv_nsec now) sdiv 1000000)"
proof -
  let ?d = "tv_nsec (tw_time t) - tv_nsec now" and ?s = "tv_sec (tw_time t) - tv_sec now"
  have d: "\<bar>?d\<bar> < 1000000000" and s: "\<bar>?s\<bar> < 2 ^ 53"
    using assms by (auto simp: sane_time_def normal_time_def)
  have q: "\<bar>?d sdiv 1000000\<bar> < 1000" using d by (rule sdiv_million)
  have "c_long ?s = Inr ?s" "c_long (?s * 1000) = Inr (?s * 1000)" "c_long ?d = Inr ?d"
    "c_long (?s * 1000 + ?d sdiv 1000000) = Inr (?s * 1000 + ?d sdiv 1000000)"
    by (rule c_long_abs, use d s q in \<open>auto simp: abs_less_iff\<close>)+
  then show ?thesis by (simp only: timer_expiration_def andthen_Inr)
qed

lemma due_split: "0 \<le> s \<Longrightarrow> \<bar>d\<bar> < 1000000000 \<Longrightarrow> s * 1000000000 + d \<le> 0 \<Longrightarrow> s = 0 \<and> d \<le> 0"
  for s d :: int
  by (auto simp: abs_less_iff)

lemma timer_expiration_near:
  assumes "sane_time now" "sane_time (tw_time t)"
  defines "remaining \<equiv> nanos (tw_time t) - nanos now"
  shows "\<exists>ms. timer_expiration now t = Inr ms \<and> \<bar>ms * 1000000 - remaining\<bar> < 1000000 \<and>
    (remaining \<le> 0 \<longrightarrow> ms \<le> 0) \<and> (ms \<le> 0 \<longrightarrow> remaining < 1000000)"
proof -
  let ?d = "tv_nsec (tw_time t) - tv_nsec now" and ?s = "tv_sec (tw_time t) - tv_sec now"
  let ?ms = "?s * 1000 + ?d sdiv 1000000"
  have d: "\<bar>?d\<bar> < 1000000000" using assms by (auto simp: sane_time_def normal_time_def)
  have rem: "remaining = ?s * 1000000000 + ?d" by (simp add: remaining_def nanos_def algebra_simps)
  have near: "\<bar>?ms * 1000000 - remaining\<bar> < 1000000"
    unfolding rem using sdiv_million(1,2) [of ?d] by (simp add: abs_less_iff algebra_simps)
  have "?ms \<le> 0" if "remaining \<le> 0"
  proof (cases "?s < 0")
    case True
    then have "?s \<le> -1" by simp
    with sdiv_million(5) [OF d] show ?thesis by (simp add: abs_less_iff)
  next
    case False
    with that d rem due_split [of ?s ?d] have "?s = 0" "?d \<le> 0" by auto
    with sdiv_million(3) [of ?d] show ?thesis by simp
  qed
  with near show ?thesis unfolding timer_expiration_ok [OF assms(1,2)] by auto
qed

section \<open>Properties\<close>

text \<open>
  C37: On timers less than \<open>2 ^ 31\<close> seconds apart the comparator has the sign of the difference
  of the two instants in nanoseconds, so the timer heap orders timers by expiry.
\<close>

theorem timer_compare_chronological:
  assumes "t1 \<in> timer_window base" "t2 \<in> timer_window base"
  shows "sgn (timer_compare t1 t2) = sgn (nanos (tw_time t1) - nanos (tw_time t2))"
  using assms by (rule timer_compare_sgn)

definition timer_at :: "int \<Rightarrow> int \<Rightarrow> coro \<Rightarrow> timer_wait" where
  "timer_at s ns c = \<lparr>tw_time = \<lparr>tv_sec = s, tv_nsec = ns\<rparr>, tw_coro = c\<rparr>"

theorem timer_compare_chronological_witness:
  "sgn (timer_compare (timer_at 1000000000 5 1) (timer_at 2000000000 4 2)) =
     sgn (nanos (tw_time (timer_at 1000000000 5 1)) - nanos (tw_time (timer_at 2000000000 4 2)))"
  by (rule timer_compare_chronological [of _ 0])
    (simp_all add: timer_window_def normal_time_def timer_at_def)

text \<open>
  Beyond that the conversion of the difference to int misorders timers: one \<open>2 ^ 31\<close> seconds
  later compares as earlier, and one \<open>2 ^ 32\<close> seconds later compares as equal.
\<close>

theorem timer_compare_truncates:
  "timer_compare (timer_at (s + 2 ^ 31) ns c) (timer_at s ns' c') < 0 \<and>
   timer_compare (timer_at (s + 2 ^ 32) ns c) (timer_at s ns' c') = 0"
  by (simp add: timer_compare_def timer_at_def long_sub_small Let_def long_to_int_def)

text \<open>
  The expiration of a timer in milliseconds is within one millisecond of the time that
  remains; it is not positive for every timer that is due, and it is not positive only for
  timers due in less than a millisecond, so the scheduler never wakes a sleeper earlier
  than that.
\<close>

theorem timer_expiration_accurate:
  assumes "sane_time now" "sane_time (tw_time t)"
  defines "remaining \<equiv> nanos (tw_time t) - nanos now"
  shows "\<exists>ms. timer_expiration now t = Inr ms \<and> \<bar>ms * 1000000 - remaining\<bar> < 1000000 \<and>
    (remaining \<le> 0 \<longrightarrow> ms \<le> 0) \<and> (ms \<le> 0 \<longrightarrow> remaining < 1000000)"
  unfolding remaining_def using assms(1,2) by (rule timer_expiration_near)

theorem timer_expiration_accurate_witness:
  "\<exists>ms. timer_expiration \<lparr>tv_sec = 100, tv_nsec = 999999999\<rparr> (timer_at 101 0 1) = Inr ms \<and>
     \<bar>ms * 1000000 - 1\<bar> < 1000000 \<and> (1 \<le> (0::int) \<longrightarrow> ms \<le> 0) \<and> (ms \<le> 0 \<longrightarrow> (1::int) < 1000000)"
  using timer_expiration_accurate [of "\<lparr>tv_sec = 100, tv_nsec = 999999999\<rparr>" "timer_at 101 0 1"]
  by (simp add: sane_time_def normal_time_def nanos_def timer_at_def)

lemma sleep_deadline_ok:
  assumes "sane_time now" "\<bar>millisecs\<bar> < 2 ^ 60"
  shows "\<exists>d. sleep_deadline now millisecs = Inr d \<and>
    nanos d = nanos now + millisecs * 1000000 \<and>
    (0 \<le> millisecs \<longrightarrow> 0 \<le> tv_nsec d \<and> tv_nsec d \<le> 1000000000 \<and>
       (tv_nsec d = 1000000000 \<longleftrightarrow> tv_nsec now + millisecs mod 1000 * 1000000 = 1000000000))"
proof -
  let ?q = "millisecs sdiv 1000" and ?r = "millisecs smod 1000"
  have qr: "?q * 1000 + ?r = millisecs" by (simp add: sdiv_mult_smod_eq)
  have r: "\<bar>?r\<bar> < 1000" "0 \<le> millisecs \<Longrightarrow> ?r = millisecs mod 1000"
    by (auto simp: smod_int_alt_def abs_mult sgn_if)
  then have q: "\<bar>?q\<bar> < 2 ^ 60" using qr assms(2) by linarith
  have now: "0 \<le> tv_nsec now" "tv_nsec now < 1000000000" "\<bar>tv_sec now\<bar> < 2 ^ 52"
    using assms(1) by (auto simp: sane_time_def normal_time_def)
  have "c_long (tv_sec now + ?q) = Inr (tv_sec now + ?q)" "c_long (tv_sec now + ?q + 1) = Inr (tv_sec now + ?q + 1)"
    "c_long (tv_nsec now + ?r * 1000000) = Inr (tv_nsec now + ?r * 1000000)"
    by (rule c_long_abs, use q r now in \<open>auto simp: abs_less_iff\<close>)+
  then have run: "sleep_deadline now millisecs = Inr
      (if tv_nsec now + ?r * 1000000 > 1000000000
       then \<lparr>tv_sec = tv_sec now + ?q + 1, tv_nsec = tv_nsec now + ?r * 1000000 - 1000000000\<rparr>
       else \<lparr>tv_sec = tv_sec now + ?q, tv_nsec = tv_nsec now + ?r * 1000000\<rparr>)"
    by (simp add: sleep_deadline_def)
  have "0 \<le> millisecs \<Longrightarrow> 0 \<le> ?r" using r(2) by simp
  then show ?thesis
    unfolding run using qr r(1) now
    by (auto simp: nanos_def r(2) [symmetric] algebra_simps split: if_splits)
qed

text \<open>
  A relative sleep of any length, negative included, computes a deadline that is exactly
  that many milliseconds from now; for a sleep forward its nanoseconds are at most
  \<open>1000000000\<close>, and that value, which is not a valid nanosecond count, does occur (the
  carry test is \<open>>\<close> instead of \<open>\<ge>\<close>).
\<close>

theorem sleep_deadline_exact:
  assumes "sane_time now" "\<bar>millisecs\<bar> < 2 ^ 60"
  shows "\<exists>d. sleep_deadline now millisecs = Inr d \<and>
    nanos d = nanos now + millisecs * 1000000 \<and>
    (0 \<le> millisecs \<longrightarrow> 0 \<le> tv_nsec d \<and> tv_nsec d \<le> 1000000000 \<and>
       (tv_nsec d = 1000000000 \<longleftrightarrow> tv_nsec now + millisecs mod 1000 * 1000000 = 1000000000))"
  using assms by (rule sleep_deadline_ok)

theorem sleep_deadline_exact_witness:
  "\<exists>d. sleep_deadline \<lparr>tv_sec = 7, tv_nsec = 500000000\<rparr> 2500 = Inr d \<and> nanos d = 10000000000 \<and>
     tv_nsec d = 1000000000"
  using sleep_deadline_exact [of "\<lparr>tv_sec = 7, tv_nsec = 500000000\<rparr>" 2500]
  by (auto simp: sane_time_def normal_time_def nanos_def)

end
