(* ===== verification/Platform.thy ===== *)
theory Platform
  imports Timers
begin

text \<open>
  The platform layer: the system and library calls the program makes, as a parameter
  \<open>os\<close> acting on an abstract kernel state, and the code of \<^verbatim>\<open>src/platform/poll_epoll.c\<close>
  (all but the polling loop, which calls back into the scheduler) and
  \<^verbatim>\<open>src/platform/sched_linux.c\<close> over it.
\<close>

unbundle bit_operations_syntax

section \<open>Calls out of the program\<close>

type_synonym uint32 = "32 word"

record epoll_event =
  ev_events :: uint32
  ev_data :: nat

datatype ctl_op = EPOLL_CTL_ADD | EPOLL_CTL_DEL

text \<open>The timer that delivers the preemption signal: which thread, and its period in nanoseconds.\<close>

record timer_spec =
  it_interval :: timespec
  it_value :: timespec

text \<open>
  Each call takes the kernel state and returns its result with the new state. The result
  pairs of \<^verbatim>\<open>epoll_create1\<close> and the left results of \<^verbatim>\<open>epoll_wait\<close> carry \<^verbatim>\<open>errno\<close>.
\<close>

record 'k os =
  os_malloc :: "nat \<Rightarrow> 'k \<Rightarrow> bool \<times> 'k"
  os_clock_gettime :: "'k \<Rightarrow> (int \<times> timespec) \<times> 'k"
  os_epoll_create1 :: "'k \<Rightarrow> (int \<times> int) \<times> 'k"
  os_epoll_ctl :: "int \<Rightarrow> ctl_op \<Rightarrow> int \<Rightarrow> epoll_event option \<Rightarrow> 'k \<Rightarrow> int \<times> 'k"
  os_epoll_wait :: "int \<Rightarrow> nat \<Rightarrow> int \<Rightarrow> 'k \<Rightarrow> (int + epoll_event list) \<times> 'k"
  os_pthread_attr_init :: "'k \<Rightarrow> int \<times> 'k"
  os_pthread_attr_setstacksize :: "nat \<Rightarrow> 'k \<Rightarrow> int \<times> 'k"
  os_pthread_create :: "nat \<Rightarrow> 'k \<Rightarrow> int \<times> 'k"
  os_sigaction :: "'k \<Rightarrow> int \<times> 'k"
  os_timer_create :: "nat \<Rightarrow> 'k \<Rightarrow> int \<times> 'k"
  os_timer_settime :: "timer_spec \<Rightarrow> 'k \<Rightarrow> int \<times> 'k"
  os_sched_getaffinity :: "'k \<Rightarrow> (int \<times> nat) \<times> 'k"

text \<open>The compile-time options \<^verbatim>\<open>DEBUG\<close>, \<^verbatim>\<open>SCHED_PREEMPTION\<close> and \<^verbatim>\<open>SCHED_WORK_STEALING\<close>.\<close>

record config =
  cfg_debug :: bool
  cfg_preemption :: bool
  cfg_work_stealing :: bool

section \<open>The poller\<close>

record poller =
  epoll_fd :: int

definition EPOLLIN :: uint32 where "EPOLLIN = 1"
definition EPOLLOUT :: uint32 where "EPOLLOUT = 4"
definition EPOLLERR :: uint32 where "EPOLLERR = 8"
definition EPOLLHUP :: uint32 where "EPOLLHUP = 16"
definition EPOLLONESHOT :: uint32 where "EPOLLONESHOT = push_bit 30 1"
definition EPOLLET :: uint32 where "EPOLLET = push_bit 31 1"

definition platform_poll_init :: "'k os \<Rightarrow> 'k \<Rightarrow> (int \<times> poller) \<times> 'k" where
  "platform_poll_init os k =
     (let ((fd, err), k) = os_epoll_create1 os k in
      ((if fd = -1 then err else 0, \<lparr>epoll_fd = fd\<rparr>), k))"

definition platform_poll_register :: "'k os \<Rightarrow> poller \<Rightarrow> int \<Rightarrow> uint32 \<Rightarrow> nat \<Rightarrow> 'k \<Rightarrow> int \<times> 'k" where
  "platform_poll_register os p fd events key k =
     (let event = \<lparr>ev_events = events OR EPOLLET OR EPOLLONESHOT, ev_data = key\<rparr> in
      os_epoll_ctl os (epoll_fd p) EPOLL_CTL_ADD fd (Some event) k)"

definition platform_poll_unregister :: "'k os \<Rightarrow> poller \<Rightarrow> int \<Rightarrow> 'k \<Rightarrow> int \<times> 'k" where
  "platform_poll_unregister os p fd k = os_epoll_ctl os (epoll_fd p) EPOLL_CTL_DEL fd None k"

section \<open>Preemption timer and processors\<close>

definition TIMESLICE_MILLIS :: int where
  "TIMESLICE_MILLIS = 200"

definition TIMESLICE :: timer_spec where
  "TIMESLICE =
     \<lparr>it_interval = \<lparr>tv_sec = 0, tv_nsec = TIMESLICE_MILLIS * 1000000\<rparr>,
      it_value = \<lparr>tv_sec = 0, tv_nsec = TIMESLICE_MILLIS * 1000000\<rparr>\<rparr>"

text \<open>
  \<open>setup\<close> is the static \<^verbatim>\<open>setup_signal_handler\<close>: the handler is installed by the first call only.
  \<open>tid\<close> is the calling thread, the one the signal goes to.
\<close>

definition platform_sched_init :: "'k os \<Rightarrow> nat \<Rightarrow> bool \<Rightarrow> 'k \<Rightarrow> (int \<times> bool \<times> 'k) res" where
  "platform_sched_init os tid setup k =
     andthen
      (if \<not> setup then
         let (result, k) = os_sigaction os k in andthen (c_assert (result = 0)) (\<lambda>_. Inr k)
       else Inr k) (\<lambda>k.
     let (result, k) = os_timer_create os tid k in
     andthen (c_assert (result = 0)) (\<lambda>_.
     let (result, k) = os_timer_settime os TIMESLICE k in
     andthen (c_assert (result = 0)) (\<lambda>_. Inr (0, True, k))))"

definition platform_sched_cpu_count :: "'k os \<Rightarrow> 'k \<Rightarrow> (nat \<times> 'k) res" where
  "platform_sched_cpu_count os k =
     (let ((result, count), k) = os_sched_getaffinity os k in
      andthen (c_assert (result = 0)) (\<lambda>_. Inr (count, k)))"

section \<open>A system that serves every request\<close>

text \<open>
  What the theorems about the successful paths assume of the calls: memory is granted, at
  least one processor is available, and the calls return success. All of it is documented
  behaviour of a system that is not out of resources.
\<close>

definition os_ok :: "'k os \<Rightarrow> bool" where
  "os_ok os \<longleftrightarrow> (\<forall>k.
     (\<forall>n. fst (os_malloc os n k)) \<and>
     fst (fst (os_clock_gettime os k)) = 0 \<and>
     fst (fst (os_epoll_create1 os k)) \<ge> 0 \<and>
     fst (os_pthread_attr_init os k) = 0 \<and>
     (\<forall>n. fst (os_pthread_attr_setstacksize os n k) = 0) \<and>
     (\<forall>l. fst (os_pthread_create os l k) = 0) \<and>
     fst (os_sigaction os k) = 0 \<and>
     (\<forall>t. fst (os_timer_create os t k) = 0) \<and>
     (\<forall>t. fst (os_timer_settime os t k) = 0) \<and>
     fst (fst (os_sched_getaffinity os k)) = 0 \<and>
     0 < snd (fst (os_sched_getaffinity os k)))"

lemma platform_sched_init_ok:
  assumes "os_ok os"
  shows "\<exists>k'. platform_sched_init os tid setup k = Inr (0, True, k')"
  using assms by (auto simp: platform_sched_init_def os_ok_def case_prod_beta Let_def c_assert_def)

text \<open>An instance, used by the examples: a system with \<open>cpus\<close> processors and a fixed clock.\<close>

definition simple_os :: "nat \<Rightarrow> timespec \<Rightarrow> unit os" where
  "simple_os cpus now = \<lparr>os_malloc = \<lambda>n k. (True, k), os_clock_gettime = \<lambda>k. ((0, now), k),
     os_epoll_create1 = \<lambda>k. ((3, 0), k), os_epoll_ctl = \<lambda>e f fd ev k. (0, k),
     os_epoll_wait = \<lambda>e n t k. (Inr [], k), os_pthread_attr_init = \<lambda>k. (0, k),
     os_pthread_attr_setstacksize = \<lambda>n k. (0, k), os_pthread_create = \<lambda>l k. (0, k),
     os_sigaction = \<lambda>k. (0, k), os_timer_create = \<lambda>t k. (0, k), os_timer_settime = \<lambda>t k. (0, k),
     os_sched_getaffinity = \<lambda>k. ((0, cpus), k)\<rparr>"

lemma simple_os_ok: "0 < cpus \<Longrightarrow> os_ok (simple_os cpus now)"
  by (simp add: os_ok_def simple_os_def)

end
