(* ===== verification/Scheduler.thy ===== *)
theory Scheduler
  imports Util_List Platform
begin

text \<open>
  The coroutine scheduler of \<^verbatim>\<open>src/scheduler.c\<close>: its structures as a world of coroutines, local
  schedulers, list nodes and per-thread variables, and its operations on that world, each
  performed by a thread \<open>th\<close>. A context switch ends with the code that the resumed
  coroutine runs first, so the result of an operation is the world in which the coroutine
  code of \<^verbatim>\<open>lsched->current_coro\<close> goes on.
\<close>

section \<open>Structures\<close>

definition STATE_RUNNABLE :: int where "STATE_RUNNABLE = 1"
definition STATE_BLOCKING :: int where "STATE_BLOCKING = 2"
definition STATE_BLOCKED :: int where "STATE_BLOCKED = 4"

definition DEFAULT_STACK :: nat where "DEFAULT_STACK = 4 * 4096"
definition PTHREAD_STACK_MIN :: nat where "PTHREAD_STACK_MIN = 16384"

text \<open>
  Where a saved context continues: at the entry of \<^verbatim>\<open>coro_trampoline\<close>, after
  \<^verbatim>\<open>context_switch\<close> in \<^verbatim>\<open>sched_switch_context\<close>, or after \<^verbatim>\<open>context_save\<close> in \<^verbatim>\<open>sched_suspend\<close>.
\<close>

datatype resume_point = In_trampoline | In_switch | In_suspend

text \<open>The functions a coroutine starts with: the event loop, or one the user passed.\<close>

datatype start_fn = Sched_loop | User_fn nat

text \<open>Fields that are not initialised yet are \<open>None\<close>.\<close>

record coroutine =
  co_state :: "int option"
  co_context :: "resume_point option"
  co_stack :: "nat option"
  co_errno :: "int option"
  co_start :: "start_fn option"
  co_arg :: "nat option"

text \<open>
  \<^verbatim>\<open>struct local_sched\<close>; its \<^verbatim>\<open>run_list\<close> and \<^verbatim>\<open>inactive_list\<close> are list nodes in memory, named by the
  structure they are part of, as are the \<^verbatim>\<open>list\<close> members of coroutines.
\<close>

record local_sched =
  current_coro :: "coro option"
  event_loop_coro :: "coro option"
  preempt_lock :: nat
  ls_lock :: bool
  platform_sched_initialised :: bool

datatype node_addr = Run_list nat | Inactive_list nat | Coro_node coro

record global_sched =
  gs_poller :: poller
  timer_heap :: "timer_wait heap"
  gs_lock :: bool
  local_size :: nat
  local_count :: nat
  local_schedulers :: "nat option list"

record event_wait =
  ew_fd :: int
  ew_events :: uint32
  ew_coro :: "coro option"

text \<open>
  \<^verbatim>\<open>lsched\<close> and \<^verbatim>\<open>errno\<close> exist once per thread. The \<^verbatim>\<open>struct event_wait\<close> of a call of
  \<^verbatim>\<open>sched_event_wait\<close> is on the stack of the calling coroutine, which has one such call at a time, so
  it is kept under that coroutine. \<open>brk\<close> is the next address \<^verbatim>\<open>malloc\<close> hands out; \<open>spawned\<close> are
  the local schedulers for which a thread running \<^verbatim>\<open>sched_loop\<close> was created.
\<close>

record 'k world =
  coros :: "coro \<Rightarrow> coroutine option"
  nodes :: "node_addr memory"
  locals :: "nat \<Rightarrow> local_sched option"
  gsched :: "global_sched option"
  lsched :: "nat \<Rightarrow> nat option"
  errno :: "nat \<Rightarrow> int"
  waits :: "coro \<Rightarrow> event_wait option"
  brk :: nat
  setup_signal_handler :: bool
  spawned :: "nat list"
  kernel :: 'k

type_synonym 'k op = "'k world \<Rightarrow> 'k world res"

section \<open>Access\<close>

definition coro_of :: "'k world \<Rightarrow> coro \<Rightarrow> coroutine res" where
  "coro_of w c = (case coros w c of None \<Rightarrow> Inl Use_after_free | Some co \<Rightarrow> Inr co)"

definition local_of :: "'k world \<Rightarrow> nat \<Rightarrow> local_sched res" where
  "local_of w l = (case locals w l of None \<Rightarrow> Inl Bad_pointer | Some ls \<Rightarrow> Inr ls)"

definition set_coro :: "coro \<Rightarrow> (coroutine \<Rightarrow> coroutine) \<Rightarrow> 'k op" where
  "set_coro c f w = andthen (coro_of w c) (\<lambda>co. Inr (w\<lparr>coros := (coros w)(c \<mapsto> f co)\<rparr>))"

definition set_local :: "nat \<Rightarrow> (local_sched \<Rightarrow> local_sched) \<Rightarrow> 'k op" where
  "set_local l f w = andthen (local_of w l) (\<lambda>ls. Inr (w\<lparr>locals := (locals w)(l \<mapsto> f ls)\<rparr>))"

definition deref :: "'a option \<Rightarrow> 'a res" where
  "deref p = (case p of None \<Rightarrow> Inl Null_deref | Some a \<Rightarrow> Inr a)"

definition initialised :: "'a option \<Rightarrow> 'a res" where
  "initialised p = (case p of None \<Rightarrow> Inl Uninit_read | Some a \<Rightarrow> Inr a)"

text \<open>
  \<^verbatim>\<open>malloc(n)\<close>: a new address, or NULL when the allocator refuses.
\<close>

definition malloc :: "'k os \<Rightarrow> nat \<Rightarrow> 'k world \<Rightarrow> nat option \<times> 'k world" where
  "malloc os n w =
     (let (ok, k) = os_malloc os n (kernel w) in
      if ok then (Some (brk w), w\<lparr>kernel := k, brk := Suc (brk w)\<rparr>) else (None, w\<lparr>kernel := k\<rparr>))"

section \<open>Locks\<close>

text \<open>
  An operation of one thread finds a mutex taken only when it holds it itself: it then
  waits for ever.
\<close>

definition slock :: "config \<Rightarrow> nat \<Rightarrow> 'k op" where
  "slock cfg l w =
     (if cfg_work_stealing cfg then
        andthen (local_of w l) (\<lambda>ls.
        if ls_lock ls then Inl Deadlock else set_local l (\<lambda>ls. ls\<lparr>ls_lock := True\<rparr>) w)
      else Inr w)"

definition sunlock :: "config \<Rightarrow> nat \<Rightarrow> 'k op" where
  "sunlock cfg l w =
     (if cfg_work_stealing cfg then set_local l (\<lambda>ls. ls\<lparr>ls_lock := False\<rparr>) w else Inr w)"

definition glock :: "'k op" where
  "glock w = andthen (deref (gsched w)) (\<lambda>g.
     if gs_lock g then Inl Deadlock else Inr (w\<lparr>gsched := Some (g\<lparr>gs_lock := True\<rparr>)\<rparr>))"

definition gunlock :: "'k op" where
  "gunlock w = andthen (deref (gsched w)) (\<lambda>g. Inr (w\<lparr>gsched := Some (g\<lparr>gs_lock := False\<rparr>)\<rparr>))"

section \<open>Preemption control\<close>

definition sched_block_preempt :: "config \<Rightarrow> nat \<Rightarrow> 'k op" where
  "sched_block_preempt cfg l w =
     (if cfg_preemption cfg then
        andthen (local_of w l) (\<lambda>ls.
        andthen (c_assert (preempt_lock ls = 0)) (\<lambda>_.
        set_local l (\<lambda>ls. ls\<lparr>preempt_lock := 1\<rparr>) w))
      else Inr w)"

definition sched_unblock_preempt :: "config \<Rightarrow> nat \<Rightarrow> 'k op" where
  "sched_unblock_preempt cfg l w =
     (if cfg_preemption cfg then
        andthen (local_of w l) (\<lambda>ls.
        andthen (c_assert (preempt_lock ls \<noteq> 0)) (\<lambda>_.
        set_local l (\<lambda>ls. ls\<lparr>preempt_lock := 0\<rparr>) w))
      else Inr w)"

definition sched_can_preempt :: "config \<Rightarrow> nat \<Rightarrow> 'k world \<Rightarrow> bool res" where
  "sched_can_preempt cfg l w =
     (if cfg_preemption cfg then andthen (local_of w l) (\<lambda>ls. Inr (preempt_lock ls = 0)) else Inr True)"

section \<open>The run queue\<close>

text \<open>
  \<^verbatim>\<open>LIST_ITEM\<close> on a node that is not the member of a coroutine gives a pointer into some other
  structure; its use is a bad access.
\<close>

definition list_item :: "node_addr \<Rightarrow> coro res" where
  "list_item n = (case n of Coro_node c \<Rightarrow> Inr c | _ \<Rightarrow> Inl Bad_pointer)"

definition sched_dequeue_locked :: "config \<Rightarrow> nat \<Rightarrow> 'k world \<Rightarrow> (coro \<times> 'k world) res" where
  "sched_dequeue_locked cfg l w =
     andthen (list_pop_front (cfg_debug cfg) (nodes w) (Run_list l)) (\<lambda>(node, m).
     andthen (c_assert (node \<noteq> None)) (\<lambda>_.
     andthen (list_item (the node)) (\<lambda>c. Inr (c, w\<lparr>nodes := m\<rparr>))))"

definition sched_enqueue_locked :: "config \<Rightarrow> nat \<Rightarrow> coro \<Rightarrow> 'k op" where
  "sched_enqueue_locked cfg l c w =
     andthen (list_in_list (nodes w) (Coro_node c)) (\<lambda>queued.
     andthen (c_assert (\<not> queued)) (\<lambda>_.
     andthen (list_push_back (cfg_debug cfg) (nodes w) (Run_list l) (Coro_node c)) (\<lambda>m.
     Inr (w\<lparr>nodes := m\<rparr>))))"

definition sched_get_current :: "nat \<Rightarrow> 'k world \<Rightarrow> coro option res" where
  "sched_get_current l w = andthen (local_of w l) (\<lambda>ls. Inr (current_coro ls))"

section \<open>Context switches\<close>

text \<open>
  Restoring the context of coroutine \<open>c\<close> on thread \<open>th\<close>: the code at its resume point
  refers to the thread's \<^verbatim>\<open>lsched\<close> and lets preemption happen again. The trampoline
  then enters \<^verbatim>\<open>coro->start\<close>.
\<close>

definition coro_trampoline :: "config \<Rightarrow> nat \<Rightarrow> 'k op" where
  "coro_trampoline cfg th w =
     andthen (deref (lsched w th)) (\<lambda>l.
     andthen (sched_get_current l w) (\<lambda>c.
     andthen (sched_unblock_preempt cfg l w) (\<lambda>w.
     andthen (deref c) (\<lambda>c.
     andthen (coro_of w c) (\<lambda>co.
     andthen (initialised (co_start co)) (\<lambda>_. Inr w))))))"

definition restore_coro :: "config \<Rightarrow> nat \<Rightarrow> coro \<Rightarrow> 'k op" where
  "restore_coro cfg th c w =
     andthen (coro_of w c) (\<lambda>co.
     andthen (initialised (co_context co)) (\<lambda>pc.
     case pc of
       In_trampoline \<Rightarrow> coro_trampoline cfg th w
     | In_switch \<Rightarrow> andthen (deref (lsched w th)) (\<lambda>l. sched_unblock_preempt cfg l w)
     | In_suspend \<Rightarrow> andthen (deref (lsched w th)) (\<lambda>l. sched_unblock_preempt cfg l w)))"

text \<open>\<^verbatim>\<open>errno = coro->private_errno\<close>.\<close>

definition load_errno :: "nat \<Rightarrow> coro \<Rightarrow> 'k op" where
  "load_errno th c w =
     andthen (coro_of w c) (\<lambda>co.
     andthen (initialised (co_errno co)) (\<lambda>e. Inr (w\<lparr>errno := (errno w)(th := e)\<rparr>)))"

definition sched_switch_context :: "config \<Rightarrow> nat \<Rightarrow> nat \<Rightarrow> coro \<Rightarrow> 'k op" where
  "sched_switch_context cfg th l c w =
     andthen (sched_block_preempt cfg l w) (\<lambda>w.
     andthen (sched_get_current l w) (\<lambda>previous.
     andthen (c_assert (previous \<noteq> None)) (\<lambda>_.
     andthen (deref previous) (\<lambda>previous.
     andthen (set_coro previous (\<lambda>co. co\<lparr>co_errno := Some (errno w th)\<rparr>) w) (\<lambda>w.
     andthen (set_local l (\<lambda>ls. ls\<lparr>current_coro := Some c\<rparr>) w) (\<lambda>w.
     andthen (load_errno th c w) (\<lambda>w.
     andthen (set_coro previous (\<lambda>co. co\<lparr>co_context := Some In_switch\<rparr>) w) (\<lambda>w.
     restore_coro cfg th c w))))))))"

section \<open>Creation\<close>

text \<open>The sizes of the structures under the LP64 ABI.\<close>

definition coroutine_bytes :: nat where
  "coroutine_bytes = 128"

definition local_sched_bytes :: "config \<Rightarrow> nat" where
  "local_sched_bytes cfg = (if cfg_preemption cfg then 4208 else 4192)"

definition global_sched_bytes :: "nat \<Rightarrow> nat" where
  "global_sched_bytes thread_count = 88 + thread_count * 8"

text \<open>Fresh memory for a coroutine: nothing is initialised; its list node can be written.\<close>

definition new_coro_memory :: "coro \<Rightarrow> 'k world \<Rightarrow> 'k world" where
  "new_coro_memory c w = w\<lparr>
     coros := (coros w)(c \<mapsto> \<lparr>co_state = None, co_context = None, co_stack = None, co_errno = None,
                             co_start = None, co_arg = None\<rparr>),
     nodes := (nodes w)(Coro_node c \<mapsto> \<lparr>node_next = None, node_prev = None\<rparr>)\<rparr>"

definition new_local_memory :: "nat \<Rightarrow> 'k world \<Rightarrow> 'k world" where
  "new_local_memory l w = w\<lparr>
     locals := (locals w)(l \<mapsto> \<lparr>current_coro = None, event_loop_coro = None, preempt_lock = 0,
                               ls_lock = False, platform_sched_initialised = False\<rparr>),
     nodes := (nodes w)(Run_list l \<mapsto> \<lparr>node_next = None, node_prev = None\<rparr>,
                        Inactive_list l \<mapsto> \<lparr>node_next = None, node_prev = None\<rparr>)\<rparr>"

definition sched_make_coro :: "'k os \<Rightarrow> start_fn \<Rightarrow> nat \<Rightarrow> 'k world \<Rightarrow> (coro \<times> 'k world) res" where
  "sched_make_coro os start arg w =
     (let (p, w) = malloc os coroutine_bytes w in
      andthen (c_assert (p \<noteq> None)) (\<lambda>_.
      let c = the p; w = new_coro_memory c w in
      andthen (list_node_init (nodes w) (Coro_node c)) (\<lambda>m.
      let (stack, w) = malloc os DEFAULT_STACK (w\<lparr>nodes := m\<rparr>) in
      andthen (c_assert (stack \<noteq> None)) (\<lambda>_.
      andthen (set_coro c (\<lambda>co. co\<lparr>co_stack := stack, co_context := Some In_trampoline,
        co_state := Some STATE_BLOCKED, co_start := Some start, co_arg := Some arg,
        co_errno := Some 0\<rparr>) w) (\<lambda>w. Inr (c, w))))))"

definition sched_new_global :: "'k os \<Rightarrow> nat \<Rightarrow> 'k world \<Rightarrow> (global_sched \<times> 'k world) res" where
  "sched_new_global os thread_count w =
     (let (p, w) = malloc os (global_sched_bytes thread_count) w in
      andthen (deref p) (\<lambda>_.
      let (result, h) = heap_init (\<lambda>n. fst (os_malloc os n (kernel w))) timer_compare;
          w = w\<lparr>kernel := snd (os_malloc os (ptr_bytes * INITIAL_SIZE) (kernel w))\<rparr> in
      andthen (c_assert (result = 0)) (\<lambda>_.
      let ((result, p), k) = platform_poll_init os (kernel w) in
      andthen (c_assert (result = 0)) (\<lambda>_.
      Inr (\<lparr>gs_poller = p, timer_heap = h, gs_lock = False, local_size = thread_count,
            local_count = 0, local_schedulers = replicate thread_count None\<rparr>,
           w\<lparr>kernel := k\<rparr>)))))"

definition sched_new_local :: "'k os \<Rightarrow> config \<Rightarrow> 'k world \<Rightarrow> (nat \<times> 'k world) res" where
  "sched_new_local os cfg w =
     (let (p, w) = malloc os (local_sched_bytes cfg) w in
      andthen (c_assert (p \<noteq> None)) (\<lambda>_.
      let l = the p; w = new_local_memory l w in
      andthen (list_init (nodes w) (Run_list l)) (\<lambda>m.
      andthen (list_init m (Inactive_list l)) (\<lambda>m.
      let (p, w) = malloc os coroutine_bytes (w\<lparr>nodes := m\<rparr>) in
      andthen (c_assert (p \<noteq> None)) (\<lambda>_.
      let c = the p; w = new_coro_memory c w in
      andthen (list_node_init (nodes w) (Coro_node c)) (\<lambda>m.
      andthen (set_local l (\<lambda>ls. ls\<lparr>current_coro := Some c\<rparr>) (w\<lparr>nodes := m\<rparr>)) (\<lambda>w.
      Inr (l, w))))))))"

text \<open>\<^verbatim>\<open>global->local_schedulers[slot] = local\<close>.\<close>

definition set_slot :: "nat \<Rightarrow> nat \<Rightarrow> global_sched \<Rightarrow> global_sched res" where
  "set_slot slot l g =
     (if slot < length (local_schedulers g)
      then Inr (g\<lparr>local_schedulers := (local_schedulers g)[slot := Some l]\<rparr>) else Inl Out_of_bounds)"

definition init_preemption :: "'k os \<Rightarrow> nat \<Rightarrow> 'k op" where
  "init_preemption os th w =
     andthen (platform_sched_init os th (setup_signal_handler w) (kernel w)) (\<lambda>(result, setup, k).
     andthen (c_assert (result = 0)) (\<lambda>_.
     Inr (w\<lparr>setup_signal_handler := setup, kernel := k\<rparr>)))"

definition sched_init :: "'k os \<Rightarrow> config \<Rightarrow> nat \<Rightarrow> 'k op" where
  "sched_init os cfg th w =
     (if lsched w th \<noteq> None then Inr w
      else
        andthen (platform_sched_cpu_count os (kernel w)) (\<lambda>(cpu_count, k).
        andthen (sched_new_global os cpu_count (w\<lparr>kernel := k\<rparr>)) (\<lambda>(g, w).
        andthen (sched_new_local os cfg w) (\<lambda>(l, w).
        andthen (set_slot 0 l g) (\<lambda>g.
        let g = g\<lparr>local_count := local_count g + 1\<rparr>;
            w = w\<lparr>gsched := Some g, lsched := (lsched w)(th \<mapsto> l)\<rparr> in
        andthen (sched_make_coro os Sched_loop l w) (\<lambda>(e, w).
        andthen (set_local l (\<lambda>ls. ls\<lparr>event_loop_coro := Some e\<rparr>) w) (\<lambda>w.
        andthen (sched_enqueue_locked cfg l e w) (\<lambda>w.
        if cfg_preemption cfg then
          andthen (init_preemption os th w) (\<lambda>w.
          set_local l (\<lambda>ls. ls\<lparr>platform_sched_initialised := True\<rparr>) w)
        else Inr w))))))))"

definition sched_local_start_thread :: "'k os \<Rightarrow> nat \<Rightarrow> 'k op" where
  "sched_local_start_thread os l w =
     (let (result, k) = os_pthread_attr_init os (kernel w) in
      andthen (c_assert (result = 0)) (\<lambda>_.
      let stack_size = max DEFAULT_STACK PTHREAD_STACK_MIN;
          (result, k) = os_pthread_attr_setstacksize os stack_size k in
      andthen (c_assert (result = 0)) (\<lambda>_.
      andthen (set_local l (\<lambda>ls. ls\<lparr>event_loop_coro := current_coro ls\<rparr>) w) (\<lambda>w.
      let (result, k) = os_pthread_create os l k in
      andthen (c_assert (result = 0)) (\<lambda>_.
      Inr (w\<lparr>spawned := spawned w @ [l], kernel := k\<rparr>))))))"

section \<open>Scheduling operations\<close>

definition sched_resched :: "'k os \<Rightarrow> config \<Rightarrow> nat \<Rightarrow> 'k op" where
  "sched_resched os cfg th w =
     andthen (sched_init os cfg th w) (\<lambda>w.
     andthen (deref (lsched w th)) (\<lambda>l.
     andthen (slock cfg l w) (\<lambda>w.
     andthen (list_empty (cfg_debug cfg) (nodes w) (Run_list l)) (\<lambda>empty.
     if empty then sunlock cfg l w
     else
       andthen (sched_get_current l w) (\<lambda>current.
       andthen (deref current) (\<lambda>current.
       andthen (sched_enqueue_locked cfg l current w) (\<lambda>w.
       andthen (sched_dequeue_locked cfg l w) (\<lambda>(c, w).
       andthen (sunlock cfg l w) (\<lambda>w.
       sched_switch_context cfg th l c w))))))))) "

definition sched_resched_callback :: "'k os \<Rightarrow> config \<Rightarrow> nat \<Rightarrow> 'k op" where
  "sched_resched_callback os cfg th w =
     andthen (deref (lsched w th)) (\<lambda>l.
     andthen (sched_can_preempt cfg l w) (\<lambda>can.
     if \<not> can then Inr w else sched_resched os cfg th w))"

definition sched_prepare_to_suspend :: "nat \<Rightarrow> 'k op" where
  "sched_prepare_to_suspend th w =
     andthen (deref (lsched w th)) (\<lambda>l.
     andthen (sched_get_current l w) (\<lambda>c.
     andthen (deref c) (\<lambda>c.
     set_coro c (\<lambda>co. co\<lparr>co_state := Some STATE_BLOCKING\<rparr>) w)))"

text \<open>
  \<^verbatim>\<open>sched_suspend\<close> up to the compare-and-exchange on the coroutine's state, which decides
  atomically against wakers on other threads, and from there on.
\<close>

definition suspend_begin :: "config \<Rightarrow> nat \<Rightarrow> 'k world \<Rightarrow> ((coro \<times> coro) \<times> 'k world) res" where
  "suspend_begin cfg th w =
     andthen (deref (lsched w th)) (\<lambda>l.
     andthen (sched_block_preempt cfg l w) (\<lambda>w.
     andthen (sched_get_current l w) (\<lambda>current.
     andthen (deref current) (\<lambda>current.
     andthen (set_coro current (\<lambda>co. co\<lparr>co_context := Some In_suspend\<rparr>) w) (\<lambda>w.
     andthen (slock cfg l w) (\<lambda>w.
     andthen (sched_dequeue_locked cfg l w) (\<lambda>(c, w).
     andthen (sunlock cfg l w) (\<lambda>w.
     andthen (set_coro current (\<lambda>co. co\<lparr>co_errno := Some (errno w th)\<rparr>) w) (\<lambda>w.
     andthen (set_local l (\<lambda>ls. ls\<lparr>current_coro := Some c\<rparr>) w) (\<lambda>w.
     andthen (load_errno th c w) (\<lambda>w.
     Inr ((current, c), w))))))))))))"

definition suspend_commit :: "config \<Rightarrow> nat \<Rightarrow> coro \<Rightarrow> coro \<Rightarrow> 'k op" where
  "suspend_commit cfg th current c w =
     andthen (coro_of w current) (\<lambda>co.
     andthen (initialised (co_state co)) (\<lambda>state.
     if state = STATE_BLOCKING then
       andthen (set_coro current (\<lambda>co. co\<lparr>co_state := Some STATE_BLOCKED\<rparr>) w) (\<lambda>w.
       restore_coro cfg th c w)
     else
       andthen (deref (lsched w th)) (\<lambda>l.
       andthen (set_local l (\<lambda>ls. ls\<lparr>current_coro := Some current\<rparr>) w) (\<lambda>w.
       andthen (load_errno th current w) (\<lambda>w.
       andthen (slock cfg l w) (\<lambda>w.
       andthen (sched_enqueue_locked cfg l c w) (\<lambda>w.
       andthen (sunlock cfg l w) (\<lambda>w.
       sched_unblock_preempt cfg l w))))))))"

definition sched_suspend :: "'k os \<Rightarrow> config \<Rightarrow> nat \<Rightarrow> 'k op" where
  "sched_suspend os cfg th w =
     andthen (sched_init os cfg th w) (\<lambda>w.
     andthen (suspend_begin cfg th w) (\<lambda>((current, c), w).
     suspend_commit cfg th current c w))"

definition sched_schedule :: "'k os \<Rightarrow> config \<Rightarrow> nat \<Rightarrow> coro \<Rightarrow> 'k op" where
  "sched_schedule os cfg th c w =
     andthen (sched_init os cfg th w) (\<lambda>w.
     andthen (coro_of w c) (\<lambda>co.
     andthen (initialised (co_state co)) (\<lambda>previous_state.
     andthen (set_coro c (\<lambda>co. co\<lparr>co_state := Some STATE_RUNNABLE\<rparr>) w) (\<lambda>w.
     if previous_state \<noteq> STATE_BLOCKED then Inr w
     else
       andthen (deref (lsched w th)) (\<lambda>l.
       andthen (slock cfg l w) (\<lambda>w.
       andthen (sched_enqueue_locked cfg l c w) (\<lambda>w.
       sunlock cfg l w)))))))"

definition sched_suspend_switch :: "'k os \<Rightarrow> config \<Rightarrow> nat \<Rightarrow> coro \<Rightarrow> 'k op" where
  "sched_suspend_switch os cfg th c w =
     andthen (sched_init os cfg th w) (\<lambda>w.
     andthen (deref (lsched w th)) (\<lambda>l. sched_switch_context cfg th l c w))"

definition sched_resched_switch :: "'k os \<Rightarrow> config \<Rightarrow> nat \<Rightarrow> coro \<Rightarrow> 'k op" where
  "sched_resched_switch os cfg th c w =
     andthen (sched_init os cfg th w) (\<lambda>w.
     andthen (deref (lsched w th)) (\<lambda>l.
     andthen (sched_get_current l w) (\<lambda>current.
     andthen (deref current) (\<lambda>current.
     andthen (slock cfg l w) (\<lambda>w.
     andthen (sched_enqueue_locked cfg l current w) (\<lambda>w.
     andthen (sunlock cfg l w) (\<lambda>w.
     sched_switch_context cfg th l c w)))))))"

section \<open>Death\<close>

text \<open>
  \<^verbatim>\<open>free_coro\<close> runs on the death stack of the local scheduler, with preemption blocked. A
  freed coroutine's memory is no longer live, its list node included.
\<close>

definition free_coro :: "config \<Rightarrow> nat \<Rightarrow> 'k op" where
  "free_coro cfg th w =
     andthen (deref (lsched w th)) (\<lambda>l.
     andthen (sched_get_current l w) (\<lambda>c.
     andthen (deref c) (\<lambda>c.
     andthen (list_in_list (nodes w) (Coro_node c)) (\<lambda>queued.
     andthen (c_assert (\<not> queued)) (\<lambda>_.
     andthen (coro_of w c) (\<lambda>co.
     andthen (initialised (co_stack co)) (\<lambda>_.
     let w = w\<lparr>coros := (coros w)(c := None), nodes := (nodes w)(Coro_node c := None)\<rparr> in
     andthen (slock cfg l w) (\<lambda>w.
     andthen (sched_dequeue_locked cfg l w) (\<lambda>(c', w).
     andthen (sunlock cfg l w) (\<lambda>w.
     andthen (set_local l (\<lambda>ls. ls\<lparr>current_coro := Some c'\<rparr>) w) (\<lambda>w.
     restore_coro cfg th c' w)))))))))))"

definition sched_coro_die :: "config \<Rightarrow> nat \<Rightarrow> 'k op" where
  "sched_coro_die cfg th w =
     andthen (deref (lsched w th)) (\<lambda>l.
     andthen (sched_block_preempt cfg l w) (\<lambda>w. free_coro cfg th w))"

section \<open>New coroutines\<close>

definition fetch_add_local_count :: "'k world \<Rightarrow> (nat \<times> 'k world) res" where
  "fetch_add_local_count w =
     andthen (deref (gsched w)) (\<lambda>g.
     Inr (local_count g, w\<lparr>gsched := Some (g\<lparr>local_count := (local_count g + 1) mod 2 ^ 32\<rparr>)\<rparr>))"

definition sched_new_coroutine ::
  "'k os \<Rightarrow> config \<Rightarrow> nat \<Rightarrow> start_fn \<Rightarrow> nat \<Rightarrow> 'k world \<Rightarrow> (coro \<times> 'k world) res" where
  "sched_new_coroutine os cfg th start arg w =
     andthen (sched_init os cfg th w) (\<lambda>w.
     andthen (sched_make_coro os start arg w) (\<lambda>(c, w).
     let fast_path = (\<lambda>w. andthen (sched_schedule os cfg th c w) (\<lambda>w. Inr (c, w))) in
     andthen (deref (gsched w)) (\<lambda>g.
     if local_count g \<ge> local_size g then fast_path w
     else
       andthen (fetch_add_local_count w) (\<lambda>(slot, w).
       if slot \<ge> local_size g then fast_path w
       else
         andthen (sched_new_local os cfg w) (\<lambda>(l, w).
         andthen (deref (gsched w)) (\<lambda>g.
         andthen (set_slot slot l g) (\<lambda>g.
         let w = w\<lparr>gsched := Some g\<rparr> in
         andthen (set_coro c (\<lambda>co. co\<lparr>co_state := Some STATE_RUNNABLE\<rparr>) w) (\<lambda>w.
         andthen (sched_enqueue_locked cfg l c w) (\<lambda>w.
         andthen (sched_local_start_thread os l w) (\<lambda>w. Inr (c, w))))))))))) "

definition sched_get_errno :: "nat \<Rightarrow> 'k world \<Rightarrow> int" where
  "sched_get_errno th w = errno w th"

end
