(* ===== verification/Sched_Invariant.thy ===== *)
theory Sched_Invariant
  imports Scheduler
begin

text \<open>
  The invariant of the scheduler: every local scheduler has an intact run queue, every live
  coroutine is on at most one queue, every queued coroutine can be switched to, and the
  event loop of a local scheduler is always running or queued there.
\<close>

section \<open>Run queues in memory\<close>

text \<open>
  \<open>queues_ok m ls rq live\<close>: in memory \<open>m\<close> the run list of every local scheduler \<open>l\<close> in \<open>ls\<close> holds
  the coroutines \<open>rq l\<close>, and every other live coroutine is on no list.
\<close>

definition queues_ok :: "node_addr memory \<Rightarrow> nat set \<Rightarrow> (nat \<Rightarrow> coro list) \<Rightarrow> coro set \<Rightarrow> bool" where
  "queues_ok m ls rq live \<longleftrightarrow>
     (\<forall>l\<in>ls. dlist m (Run_list l) (map Coro_node (rq l))) \<and>
     (\<forall>l. l \<notin> ls \<longrightarrow> rq l = []) \<and>
     (\<forall>l l'. l \<noteq> l' \<longrightarrow> set (rq l) \<inter> set (rq l') = {}) \<and>
     (\<forall>l. set (rq l) \<subseteq> live) \<and>
     (\<forall>x\<in>live. (\<forall>l. x \<notin> set (rq l)) \<longrightarrow> detached m (Coro_node x))"

definition queued :: "(nat \<Rightarrow> coro list) \<Rightarrow> coro \<Rightarrow> bool" where
  "queued rq x \<longleftrightarrow> (\<exists>l. x \<in> set (rq l))"

lemma queued_front: "rq l = x # xs \<Longrightarrow> queued rq x"
  unfolding queued_def by (rule exI [of _ l]) simp

lemma queues_okD:
  assumes "queues_ok m ls rq live"
  shows "l \<in> ls \<Longrightarrow> dlist m (Run_list l) (map Coro_node (rq l))"
    and "l \<noteq> l' \<Longrightarrow> x \<in> set (rq l) \<Longrightarrow> x \<notin> set (rq l')"
    and "x \<in> set (rq l) \<Longrightarrow> x \<in> live"
    and "x \<in> live \<Longrightarrow> \<not> queued rq x \<Longrightarrow> detached m (Coro_node x)"
    and "l \<notin> ls \<Longrightarrow> rq l = []"
  using assms unfolding queues_ok_def queued_def by blast+

lemma queues_distinct: "queues_ok m ls rq live \<Longrightarrow> distinct (rq l)"
  using dlist_distinct [OF queues_okD(1)] queues_okD(5) by (cases "l \<in> ls") (fastforce simp: distinct_map)+

text \<open>Changing the nodes of one queue only.\<close>

lemma queues_update:
  assumes Q: "queues_ok m ls rq live" and l: "l \<in> ls"
    and q: "dlist m' (Run_list l) (map Coro_node q)"
    and fr: "\<forall>p. p \<notin> S \<longrightarrow> m' p = m p"
    and S: "S \<subseteq> insert (Run_list l) (Coro_node ` T)"
    and T: "\<And>x l'. x \<in> T \<Longrightarrow> l' \<noteq> l \<Longrightarrow> x \<notin> set (rq l')"
    and sub: "set q \<subseteq> T" "T \<subseteq> live" "set (rq l) \<subseteq> T"
    and det: "\<And>x. x \<in> T \<Longrightarrow> x \<notin> set q \<Longrightarrow> detached m' (Coro_node x)"
  shows "queues_ok m' ls (rq(l := q)) live"
proof -
  have other: "dlist m' (Run_list l') (map Coro_node (rq l'))" if "l' \<in> ls" "l' \<noteq> l" for l'
  proof (rule dlist_frame(1) [OF fr queues_okD(1) [OF Q that(1)]])
    show "set (Run_list l' # map Coro_node (rq l')) \<inter> S = {}"
      using S T that(2) by auto
  qed
  have "detached m' (Coro_node x)" if "x \<in> live" "\<forall>k. x \<notin> set ((rq(l := q)) k)" for x
  proof (cases "x \<in> T")
    case True
    with det that(2) show ?thesis by (metis fun_upd_same)
  next
    case False
    then have "\<not> queued rq x" using that(2) sub(3) unfolding queued_def by (metis fun_upd_other subsetD)
    with Q that(1) have "detached m (Coro_node x)" by (rule queues_okD(4))
    then show ?thesis by (rule dlist_frame(2) [OF fr]) (use False S in auto)
  qed
  with other q Q sub T l show ?thesis unfolding queues_ok_def
    by (auto simp: disjoint_iff)
qed

lemma queues_push:
  assumes Q: "queues_ok m ls rq live" and l: "l \<in> ls" and x: "x \<in> live" "\<not> queued rq x"
  shows "\<exists>m'. list_push_back dbg m (Run_list l) (Coro_node x) = Inr m' \<and>
    queues_ok m' ls (rq(l := rq l @ [x])) live"
proof -
  have d: "dlist m (Run_list l) (map Coro_node (rq l))" "detached m (Coro_node x)"
    using queues_okD(1) [OF Q l] queues_okD(4) [OF Q x] by auto
  obtain m' where m': "list_push_back dbg m (Run_list l) (Coro_node x) = Inr m'"
    "dlist m' (Run_list l) (map Coro_node (rq l) @ [Coro_node x])"
    "\<forall>p. p \<notin> set (Coro_node x # Run_list l # map Coro_node (rq l)) \<longrightarrow> m' p = m p"
    using list_push_back_ok [OF d, of dbg] by blast
  have "queues_ok m' ls (rq(l := rq l @ [x])) live"
    by (rule queues_update [OF Q l _ m'(3), where T = "insert x (set (rq l))"])
      (use m'(2) x queues_okD(2,3) [OF Q] in \<open>auto simp: queued_def\<close>)
  with m'(1) show ?thesis by blast
qed

lemma queues_pop:
  assumes Q: "queues_ok m ls rq live" and l: "l \<in> ls" and q: "rq l = x # xs"
  shows "\<exists>m'. list_pop_front dbg m (Run_list l) = Inr (Some (Coro_node x), m') \<and>
    queues_ok m' ls (rq(l := xs)) live"
proof -
  have d: "dlist m (Run_list l) (Coro_node x # map Coro_node xs)"
    using queues_okD(1) [OF Q l] q by simp
  obtain m' where m': "list_pop_front dbg m (Run_list l) = Inr (Some (Coro_node x), m')"
    "dlist m' (Run_list l) (map Coro_node xs)" "detached m' (Coro_node x)"
    "\<forall>p. p \<notin> set (Run_list l # Coro_node x # map Coro_node xs) \<longrightarrow> m' p = m p"
    using list_pop_front_ok [OF d, of dbg] by blast
  have "queues_ok m' ls (rq(l := xs)) live"
    by (rule queues_update [OF Q l _ m'(4), where T = "set (rq l)"])
      (use m'(2,3) q queues_okD(2) [OF Q, of l] queues_okD(3) [OF Q, of _ l] in auto)
  with m'(1) show ?thesis by blast
qed

lemma queues_empty: "queues_ok m ls rq live \<Longrightarrow> l \<in> ls \<Longrightarrow> list_empty dbg m (Run_list l) = Inr (rq l = [])"
  using list_empty_ok [OF queues_okD(1)] by simp

lemma queues_in_list:
  assumes "queues_ok m ls rq live" "x \<in> live"
  shows "list_in_list m (Coro_node x) = Inr (queued rq x)"
proof (cases "queued rq x")
  case True
  then obtain l where l: "x \<in> set (rq l)" by (auto simp: queued_def)
  with assms(1) have "l \<in> ls" using queues_okD(5) by fastforce
  with assms(1) l True show ?thesis using list_in_list_queued [OF queues_okD(1)] by fastforce
next
  case False
  with assms show ?thesis using list_in_list_detached [OF queues_okD(4)] by auto
qed

text \<open>Memory of new and of freed structures.\<close>

lemma queues_frame:
  assumes Q: "queues_ok m ls rq live"
    and fr: "\<And>l. l \<in> ls \<Longrightarrow> m' (Run_list l) = m (Run_list l)"
      "\<And>x. x \<in> live \<Longrightarrow> m' (Coro_node x) = m (Coro_node x)"
  shows "queues_ok m' ls rq live"
proof -
  have "dlist m' (Run_list l) (map Coro_node (rq l))" if "l \<in> ls" for l
    by (rule dlist_cong [OF queues_okD(1) [OF Q that]]) (use fr that queues_okD(3) [OF Q] in auto)
  with Q fr(2) show ?thesis unfolding queues_ok_def by (auto simp: detached_def)
qed

lemma queues_free:
  assumes Q: "queues_ok m ls rq live" and x: "\<not> queued rq x"
  shows "queues_ok (m(Coro_node x := None)) ls rq (live - {x})"
proof -
  have "queues_ok m ls rq (live - {x})" using Q x unfolding queues_ok_def queued_def by blast
  then show ?thesis by (rule queues_frame) auto
qed

lemma queues_new_coro:
  assumes Q: "queues_ok m ls rq live" and x: "x \<notin> live" and d: "detached m (Coro_node x)"
  shows "queues_ok m ls rq (insert x live)"
  using assms unfolding queues_ok_def by blast

lemma queues_new_local:
  assumes Q: "queues_ok m ls rq live" and l: "l \<notin> ls" and d: "dlist m (Run_list l) []"
  shows "queues_ok m (insert l ls) rq live"
  using assms unfolding queues_ok_def by auto

section \<open>The invariant\<close>

definition current :: "'k world \<Rightarrow> nat \<Rightarrow> coro option" where
  "current w l = (case locals w l of None \<Rightarrow> None | Some ls \<Rightarrow> current_coro ls)"

definition event_loop :: "'k world \<Rightarrow> nat \<Rightarrow> coro option" where
  "event_loop w l = (case locals w l of None \<Rightarrow> None | Some ls \<Rightarrow> event_loop_coro ls)"

definition state_of :: "'k world \<Rightarrow> coro \<Rightarrow> int option" where
  "state_of w c = (case coros w c of None \<Rightarrow> None | Some co \<Rightarrow> co_state co)"

definition errno_of :: "'k world \<Rightarrow> coro \<Rightarrow> int option" where
  "errno_of w c = (case coros w c of None \<Rightarrow> None | Some co \<Rightarrow> co_errno co)"

text \<open>A coroutine whose saved context and errno are there to be restored.\<close>

definition ready :: "'k world \<Rightarrow> coro \<Rightarrow> bool" where
  "ready w x \<longleftrightarrow> (\<exists>co. coros w x = Some co \<and> co_context co \<noteq> None \<and> co_errno co \<noteq> None \<and>
     (co_context co = Some In_trampoline \<longrightarrow> co_start co \<noteq> None))"

definition sched_inv :: "(nat \<Rightarrow> coro list) \<Rightarrow> 'k world \<Rightarrow> bool" where
  "sched_inv rq w \<longleftrightarrow>
     queues_ok (nodes w) (dom (locals w)) rq (dom (coros w)) \<and>
     (\<forall>l ls. locals w l = Some ls \<longrightarrow> preempt_lock ls = 0 \<and> \<not> ls_lock ls \<and>
        current_coro ls \<noteq> None \<and> event_loop_coro ls \<noteq> None) \<and>
     (\<forall>l c. current w l = Some c \<longrightarrow> c \<in> dom (coros w) \<and> \<not> queued rq c) \<and>
     (\<forall>l l' c. current w l = Some c \<longrightarrow> current w l' = Some c \<longrightarrow> l = l') \<and>
     (\<forall>l e. event_loop w l = Some e \<longrightarrow> current w l = Some e \<or> e \<in> set (rq l)) \<and>
     (\<forall>x. queued rq x \<longrightarrow> ready w x) \<and>
     (\<forall>x. state_of w x = Some STATE_BLOCKED \<longrightarrow> queued rq x \<or> (\<exists>l. current w l = Some x) \<longrightarrow>
        (\<exists>l. event_loop w l = Some x)) \<and>
     (\<forall>x\<in>dom (coros w) \<union> dom (locals w). x < brk w)"

text \<open>Thread \<open>th\<close> works for local scheduler \<open>l\<close> and runs coroutine \<open>c\<close>.\<close>

definition running :: "'k world \<Rightarrow> nat \<Rightarrow> nat \<Rightarrow> coro \<Rightarrow> bool" where
  "running w th l c \<longleftrightarrow> lsched w th = Some l \<and> current w l = Some c"

lemma sched_invD:
  assumes "sched_inv rq w"
  shows "queues_ok (nodes w) (dom (locals w)) rq (dom (coros w))"
    and "locals w l = Some ls \<Longrightarrow> preempt_lock ls = 0"
    and "locals w l = Some ls \<Longrightarrow> \<not> ls_lock ls"
    and "current w l = Some c \<Longrightarrow> c \<in> dom (coros w)"
    and "current w l = Some c \<Longrightarrow> \<not> queued rq c"
    and "current w l = Some c \<Longrightarrow> current w l' = Some c \<Longrightarrow> l = l'"
    and "event_loop w l = Some e \<Longrightarrow> current w l = Some e \<or> e \<in> set (rq l)"
    and "queued rq x \<Longrightarrow> ready w x"
    and "state_of w x = Some STATE_BLOCKED \<Longrightarrow> queued rq x \<or> current w l = Some x \<Longrightarrow>
      \<exists>l. event_loop w l = Some x"
    and "locals w l = Some ls \<Longrightarrow> event_loop_coro ls \<noteq> None"
    and "locals w l = Some ls \<Longrightarrow> current_coro ls \<noteq> None"
    and "x \<in> dom (coros w) \<union> dom (locals w) \<Longrightarrow> x < brk w"
  using assms unfolding sched_inv_def by blast+

lemma running_local:
  assumes "running w th l c"
  obtains ls where "locals w l = Some ls" "current_coro ls = Some c" "lsched w th = Some l"
  using assms by (auto simp: running_def current_def split: option.splits)

text \<open>
  The update that all scheduling operations make: on local scheduler \<open>l\<close> coroutine \<open>c\<close> changes its
  fields, or is freed, and may enter or leave the queue of \<open>l\<close>, and \<open>x\<close> runs next.
\<close>

lemma sched_inv_update:
  assumes I: "sched_inv rq w" and l: "locals w l = Some ls"
    and Q: "queues_ok (nodes w') (dom (locals w)) rq' (dom (coros w'))"
    and L: "locals w' = (locals w)(l \<mapsto> ls\<lparr>current_coro := Some x\<rparr>)" and brk: "brk w' = brk w"
    and C: "\<And>y. y \<noteq> c \<Longrightarrow> coros w' y = coros w y" "dom (coros w') \<subseteq> dom (coros w)"
    and other: "\<And>l'. l' \<noteq> l \<Longrightarrow> rq' l' = rq l'" and sub: "set (rq' l) \<subseteq> insert c (set (rq l))"
    and x: "x \<in> dom (coros w')" "\<not> queued rq' x" "current_coro ls = Some x \<or> x \<in> set (rq l)"
    and e: "\<And>e. event_loop_coro ls = Some e \<Longrightarrow> e = x \<or> e \<in> set (rq' l)"
    and c: "queued rq' c \<Longrightarrow> ready w' c" "\<And>l'. l' \<noteq> l \<Longrightarrow> current w l' \<noteq> Some c"
      "state_of w' c = Some STATE_BLOCKED \<Longrightarrow> queued rq' c \<or> c = x \<Longrightarrow> \<exists>l. event_loop w l = Some c"
  shows "sched_inv rq' w'"
proof -
  have cur: "current w' l' = (if l' = l then Some x else current w l')" for l'
    by (simp add: current_def L)
  have loop: "event_loop w' l' = event_loop w l'" for l'
    using l by (simp add: event_loop_def L)
  have q: "queued rq' y \<Longrightarrow> y \<noteq> c \<Longrightarrow> queued rq y" for y
    using other sub unfolding queued_def by (metis insertE subsetD)
  have st: "y \<noteq> c \<Longrightarrow> state_of w' y = state_of w y" "y \<noteq> c \<Longrightarrow> ready w' y = ready w y" for y
    using C(1) by (simp_all add: state_of_def ready_def)
  have curl: "current w l = current_coro ls" using l by (simp add: current_def)
  have loopl: "event_loop w l = event_loop_coro ls" using l by (simp add: event_loop_def)
  have xl: "l' \<noteq> l \<Longrightarrow> current w l' \<noteq> Some x" for l'
    using x(3) sched_invD(5,6) [OF I] curl unfolding queued_def by metis
  have live: "d \<in> dom (coros w') \<and> \<not> queued rq' d" if "l' \<noteq> l" "current w l' = Some d" for l' d
  proof -
    have "d \<noteq> c" using c(2) that by blast
    with sched_invD(4,5) [OF I that(2)] C(1) q show ?thesis by (auto simp: dom_def)
  qed
  have dl: "dom (locals w') = dom (locals w)" using l L by auto
  have blocked: "\<exists>k. event_loop w k = Some y"
    if "state_of w' y = Some STATE_BLOCKED" "queued rq' y \<or> (\<exists>k. current w' k = Some y)" for y
  proof (cases "y = c")
    case True
    with that c(2,3) show ?thesis by (auto simp: cur split: if_splits)
  next
    case False
    then have "queued rq y \<or> (\<exists>k. current w k = Some y)"
      using that(2) q [of y] x(3) curl by (auto simp: cur queued_def split: if_splits)
    with that(1) st(1) [OF False] show ?thesis using sched_invD(9) [OF I] by metis
  qed
  show ?thesis
    unfolding sched_inv_def
  proof (intro conjI allI impI ballI)
    show "queues_ok (nodes w') (dom (locals w')) rq' (dom (coros w'))" using Q dl by simp
    fix k ks assume "locals w' k = Some ks"
    then show "preempt_lock ks = 0" "\<not> ls_lock ks" "current_coro ks \<noteq> None" "event_loop_coro ks \<noteq> None"
      using sched_invD(2,3,10,11) [OF I] l unfolding L by (auto split: if_splits)
  next
    fix k d assume "current w' k = Some d"
    then show "d \<in> dom (coros w')" "\<not> queued rq' d" using live x(1,2) by (auto simp: cur split: if_splits)
  next
    fix k k' d assume "current w' k = Some d" "current w' k' = Some d"
    then show "k = k'" using xl sched_invD(6) [OF I] by (auto simp: cur split: if_splits)
  next
    fix k d assume "event_loop w' k = Some d"
    then have "event_loop w k = Some d" using loop by simp
    then show "current w' k = Some d \<or> d \<in> set (rq' k)"
      using sched_invD(7) [OF I, of k d] e [of d] loopl other [of k] by (cases "k = l") (auto simp: cur)
  next
    fix y assume "queued rq' y"
    then show "ready w' y" using q st(2) c(1) sched_invD(8) [OF I] by metis
  next
    fix y assume "state_of w' y = Some STATE_BLOCKED" "queued rq' y \<or> (\<exists>k. current w' k = Some y)"
    then show "\<exists>k. event_loop w' k = Some y" using blocked loop by metis
  next
    fix y assume "y \<in> dom (coros w') \<union> dom (locals w')"
    then have "y \<in> dom (coros w) \<union> dom (locals w)" using C(2) dl by blast
    then show "y < brk w'" using sched_invD(12) [OF I] brk by simp
  qed
qed

end
