(* ===== verification/Sched_Ops.thy ===== *)
theory Sched_Ops
  imports Sched_Invariant
begin

text \<open>
  What each scheduling operation does to the world: the exact result under the invariant,
  the new run queues, and that the invariant still holds.
\<close>

section \<open>Primitive steps\<close>

lemma sched_init_done [simp]: "lsched w th = Some l \<Longrightarrow> sched_init os cfg th w = Inr w"
  by (simp add: sched_init_def)

lemma reset_fields:
  "\<not> ls_lock ls \<Longrightarrow> ls\<lparr>ls_lock := False\<rparr> = ls"
  "preempt_lock ls = 0 \<Longrightarrow> ls\<lparr>preempt_lock := 0\<rparr> = ls"
  "current_coro ls = Some c \<Longrightarrow> ls\<lparr>current_coro := Some c\<rparr> = ls"
  by (cases ls; simp)+

lemma world_same [simp]:
  "w\<lparr>locals := locals w\<rparr> = w" "w\<lparr>coros := coros w\<rparr> = w" "w\<lparr>nodes := nodes w\<rparr> = w" "w\<lparr>errno := errno w\<rparr> = w"
  by (cases w; simp)+

text \<open>Updates of different fields, in the order of the record.\<close>

lemma world_upd_order:
  "w\<lparr>locals := a, coros := b\<rparr> = w\<lparr>coros := b, locals := a\<rparr>"
  "w\<lparr>errno := d, coros := b\<rparr> = w\<lparr>coros := b, errno := d\<rparr>"
  "w\<lparr>errno := d, locals := a\<rparr> = w\<lparr>locals := a, errno := d\<rparr>"
  "w\<lparr>nodes := m, coros := b\<rparr> = w\<lparr>coros := b, nodes := m\<rparr>"
  "w\<lparr>locals := a, nodes := m\<rparr> = w\<lparr>nodes := m, locals := a\<rparr>"
  "w\<lparr>errno := d, nodes := m\<rparr> = w\<lparr>nodes := m, errno := d\<rparr>"
  by (cases w; simp)+

lemma local_upd_order:
  "ls\<lparr>preempt_lock := a, current_coro := c\<rparr> = ls\<lparr>current_coro := c, preempt_lock := a\<rparr>"
  "ls\<lparr>ls_lock := b, current_coro := c\<rparr> = ls\<lparr>current_coro := c, ls_lock := b\<rparr>"
  "ls\<lparr>ls_lock := b, preempt_lock := a\<rparr> = ls\<lparr>preempt_lock := a, ls_lock := b\<rparr>"
  by (cases ls; simp)+

lemma coro_upd_order:
  "co\<lparr>co_context := a, co_state := s\<rparr> = co\<lparr>co_state := s, co_context := a\<rparr>"
  "co\<lparr>co_errno := b, co_state := s\<rparr> = co\<lparr>co_state := s, co_errno := b\<rparr>"
  by (cases co; simp)+

named_theorems access_simps \<open>reading and writing coroutines and local schedulers\<close>

lemmas [access_simps] = coro_of_def local_of_def set_coro_def set_local_def deref_def initialised_def
  sched_get_current_def load_errno_def

lemmas preempt_defs = sched_block_preempt_def sched_unblock_preempt_def

lemmas lock_defs = slock_def sunlock_def

lemma enqueue_ok:
  assumes "queues_ok (nodes w) ls rq live" "l \<in> ls" "x \<in> live" "\<not> queued rq x"
  shows "\<exists>m. sched_enqueue_locked cfg l x w = Inr (w\<lparr>nodes := m\<rparr>) \<and>
    queues_ok m ls (rq(l := rq l @ [x])) live"
  using queues_push [OF assms, of "cfg_debug cfg"] queues_in_list [OF assms(1,3)] assms(4)
  by (auto simp: sched_enqueue_locked_def)

lemma enqueue_twice:
  assumes "queues_ok (nodes w) ls rq live" "x \<in> live" "queued rq x"
  shows "sched_enqueue_locked cfg l x w = Inl Assert_fail"
  using queues_in_list [OF assms(1,2)] assms(3) by (simp add: sched_enqueue_locked_def)

lemma dequeue_ok:
  assumes "queues_ok (nodes w) ls rq live" "l \<in> ls" "rq l = x # xs"
  shows "\<exists>m. sched_dequeue_locked cfg l w = Inr (x, w\<lparr>nodes := m\<rparr>) \<and>
    queues_ok m ls (rq(l := xs)) live"
  using queues_pop [OF assms, of "cfg_debug cfg"]
  by (auto simp: sched_dequeue_locked_def list_item_def)

text \<open>Restoring a ready coroutine just lets preemption happen again.\<close>

lemma restore_ok:
  assumes "lsched w th = Some l" "locals w l = Some ls" "current_coro ls = Some c" "ready w c"
    and "cfg_preemption cfg \<Longrightarrow> preempt_lock ls \<noteq> 0"
  shows "restore_coro cfg th c w =
    Inr (if cfg_preemption cfg then w\<lparr>locals := (locals w)(l \<mapsto> ls\<lparr>preempt_lock := 0\<rparr>)\<rparr> else w)"
  using assms
  by (auto simp: ready_def restore_coro_def coro_trampoline_def access_simps sched_unblock_preempt_def
      split: resume_point.splits)

lemma switch_ok:
  assumes "lsched w th = Some l" "locals w l = Some ls" "preempt_lock ls = 0" "current_coro ls = Some p"
    and "coros w p = Some cp" "coros w c = Some cc" "ready w c" "p \<noteq> c"
  shows "sched_switch_context cfg th l c w = Inr (w\<lparr>
    coros := (coros w)(p \<mapsto> cp\<lparr>co_errno := Some (errno w th), co_context := Some In_switch\<rparr>),
    locals := (locals w)(l \<mapsto> ls\<lparr>current_coro := Some c\<rparr>),
    errno := (errno w)(th := the (co_errno cc))\<rparr>)"
proof -
  let ?L = "if cfg_preemption cfg then ls\<lparr>preempt_lock := 1, current_coro := Some c\<rparr>
    else ls\<lparr>current_coro := Some c\<rparr>"
  from assms(6,7) obtain e where e: "co_errno cc = Some e" by (auto simp: ready_def)
  define w1 where "w1 = w\<lparr>
    coros := (coros w)(p \<mapsto> cp\<lparr>co_errno := Some (errno w th), co_context := Some In_switch\<rparr>),
    locals := (locals w)(l \<mapsto> ?L), errno := (errno w)(th := e)\<rparr>"
  have "sched_switch_context cfg th l c w = restore_coro cfg th c w1"
    using assms e
    by (cases "cfg_preemption cfg")
      (simp_all add: sched_switch_context_def access_simps sched_block_preempt_def w1_def world_upd_order)
  moreover have "ready w1 c" using assms(7,8) by (simp add: ready_def w1_def)
  then have "restore_coro cfg th c w1 = Inr (if cfg_preemption cfg
      then w1\<lparr>locals := (locals w1)(l \<mapsto> ?L\<lparr>preempt_lock := 0\<rparr>)\<rparr> else w1)"
    using assms(1) by (intro restore_ok) (simp_all add: w1_def)
  moreover have "ls\<lparr>preempt_lock := 0, current_coro := Some c\<rparr> = ls\<lparr>current_coro := Some c\<rparr>"
    using assms(3) by (cases ls) simp
  ultimately show ?thesis using e by (simp add: w1_def world_upd_order local_upd_order)
qed

text \<open>The world while the lock of local scheduler \<open>l\<close> is held.\<close>

definition locked :: "config \<Rightarrow> nat \<Rightarrow> 'k world \<Rightarrow> 'k world" where
  "locked cfg l w = (if cfg_work_stealing cfg
     then w\<lparr>locals := (locals w)(l \<mapsto> (the (locals w l))\<lparr>ls_lock := True\<rparr>)\<rparr> else w)"

lemma locked_simps [simp]:
  "nodes (locked cfg l w) = nodes w" "coros (locked cfg l w) = coros w" "lsched (locked cfg l w) = lsched w"
  "errno (locked cfg l w) = errno w"
  by (simp_all add: locked_def)

lemma locked_current [simp]:
  "locals w l = Some ls \<Longrightarrow> sched_get_current l (locked cfg l w) = Inr (current_coro ls)"
  by (simp add: locked_def sched_get_current_def local_of_def)

lemma slock_ok: "locals w l = Some ls \<Longrightarrow> \<not> ls_lock ls \<Longrightarrow> slock cfg l w = Inr (locked cfg l w)"
  by (simp add: slock_def locked_def access_simps)

lemma sunlock_ok:
  assumes "locals w l = Some ls" "\<not> ls_lock ls"
  shows "sunlock cfg l (locked cfg l w) = Inr w"
    "sunlock cfg l ((locked cfg l w)\<lparr>nodes := m\<rparr>) = Inr (w\<lparr>nodes := m\<rparr>)"
proof -
  have "(locals w)(l \<mapsto> ls) = locals w" using assms(1) by auto
  then show "sunlock cfg l (locked cfg l w) = Inr w"
    "sunlock cfg l ((locked cfg l w)\<lparr>nodes := m\<rparr>) = Inr (w\<lparr>nodes := m\<rparr>)"
    using assms by (simp_all add: sunlock_def locked_def access_simps reset_fields world_upd_order)
qed

section \<open>Rescheduling\<close>

lemma resched_empty:
  assumes I: "sched_inv rq w" and R: "running w th l c" and q: "rq l = []"
  shows "sched_resched os cfg th w = Inr w"
proof -
  from R obtain ls where l: "locals w l = Some ls" "lsched w th = Some l" by (rule running_local)
  have "list_empty (cfg_debug cfg) (nodes w) (Run_list l) = Inr True"
    using queues_empty [OF sched_invD(1) [OF I], of l] l(1) q by (simp add: dom_def)
  then show ?thesis
    using l sched_invD(3) [OF I l(1)]
    by (simp add: sched_resched_def access_simps slock_ok sunlock_ok)
qed

text \<open>The world after a switch on \<open>l\<close> from \<open>c\<close> to \<open>x\<close>, \<open>m\<close> being the list nodes then.\<close>

definition switched :: "nat \<Rightarrow> nat \<Rightarrow> coro \<Rightarrow> coro \<Rightarrow> node_addr memory \<Rightarrow> 'k world \<Rightarrow> 'k world" where
  "switched th l c x m w = w\<lparr>
     coros := (coros w)(c \<mapsto> (the (coros w c))\<lparr>co_errno := Some (errno w th), co_context := Some In_switch\<rparr>),
     nodes := m,
     locals := (locals w)(l \<mapsto> (the (locals w l))\<lparr>current_coro := Some x\<rparr>),
     errno := (errno w)(th := the (errno_of w x))\<rparr>"

lemma switched_inv:
  assumes I: "sched_inv rq w" and R: "running w th l c" and q: "rq l = x # xs"
    and Q: "queues_ok m (dom (locals w)) (rq(l := xs @ [c])) (dom (coros w))"
  shows "sched_inv (rq(l := xs @ [c])) (switched th l c x m w)"
proof -
  from R obtain ls where l: "locals w l = Some ls" "current_coro ls = Some c" by (rule running_local)
  have cur: "current w l = Some c" using l by (simp add: current_def)
  have c: "c \<in> dom (coros w)" "\<not> queued rq c" using sched_invD(4,5) [OF I cur] by auto
  have x: "x \<in> dom (coros w)" "x \<noteq> c"
    using c q queues_okD(3) [OF sched_invD(1) [OF I], of x l] queued_front [of rq l x xs] by auto
  have dist: "distinct (rq l)" using sched_invD(1) [OF I] by (rule queues_distinct)
  have nx: "\<not> queued (rq(l := xs @ [c])) x"
    using x(2) q dist queues_okD(2) [OF sched_invD(1) [OF I], of l _ x] by (auto simp: queued_def)
  let ?w = "switched th l c x m w"
  have dom: "dom (coros ?w) = dom (coros w)" using c(1) by (auto simp: switched_def)
  show ?thesis
  proof (rule sched_inv_update [OF I l(1), where x = x and c = c])
    show "queues_ok (nodes ?w) (dom (locals w)) (rq(l := xs @ [c])) (dom (coros ?w))"
      using Q dom by (simp add: switched_def)
    show "locals ?w = (locals w)(l \<mapsto> ls\<lparr>current_coro := Some x\<rparr>)" "brk ?w = brk w"
      using l(1) by (simp_all add: switched_def)
    show "x \<in> dom (coros ?w)" using x dom by simp
    show "e = x \<or> e \<in> set ((rq(l := xs @ [c])) l)" if "event_loop_coro ls = Some e" for e
      using sched_invD(7) [OF I, of l e] that l q by (auto simp: event_loop_def current_def)
    show "ready ?w c" by (simp add: ready_def switched_def)
    show "current w l' \<noteq> Some c" if "l' \<noteq> l" for l' using sched_invD(6) [OF I cur] that by blast
    show "\<exists>l. event_loop w l = Some c" if "state_of ?w c = Some STATE_BLOCKED"
      using sched_invD(9) [OF I, of c l] that cur c(1) by (auto simp: state_of_def switched_def)
  qed (use q nx dom in \<open>auto simp: switched_def\<close>)
qed

lemma resched_ok:
  assumes I: "sched_inv rq w" and R: "running w th l c" and q: "rq l = x # xs"
  shows "\<exists>m. sched_resched os cfg th w = Inr (switched th l c x m w) \<and>
    sched_inv (rq(l := xs @ [c])) (switched th l c x m w)"
proof -
  from R obtain ls where l: "locals w l = Some ls" "current_coro ls = Some c" "lsched w th = Some l"
    by (rule running_local)
  note Q = sched_invD(1) [OF I] and lk = sched_invD(3) [OF I l(1)]
  have cur: "current w l = Some c" using l by (simp add: current_def)
  have c: "c \<in> dom (coros w)" "\<not> queued rq c" using sched_invD(4,5) [OF I cur] by auto
  have x: "queued rq x" using q by (rule queued_front)
  have dl: "l \<in> dom (locals w)" using l(1) by blast
  have ne: "list_empty (cfg_debug cfg) (nodes w) (Run_list l) = Inr False"
    using queues_empty [OF Q dl] q by simp
  obtain m1 where m1: "sched_enqueue_locked cfg l c (locked cfg l w) = Inr ((locked cfg l w)\<lparr>nodes := m1\<rparr>)"
    "queues_ok m1 (dom (locals w)) (rq(l := rq l @ [c])) (dom (coros w))"
    using enqueue_ok [of "locked cfg l w", OF _ dl c] Q by auto
  obtain m where m: "sched_dequeue_locked cfg l ((locked cfg l w)\<lparr>nodes := m1\<rparr>) = Inr (x, (locked cfg l w)\<lparr>nodes := m\<rparr>)"
    "queues_ok m (dom (locals w)) (rq(l := xs @ [c])) (dom (coros w))"
    using dequeue_ok [of "(locked cfg l w)\<lparr>nodes := m1\<rparr>" "dom (locals w)" "rq(l := rq l @ [c])" "dom (coros w)" l x "xs @ [c]"]
      m1(2) dl q by auto
  have run: "sched_resched os cfg th w = sched_switch_context cfg th l x (w\<lparr>nodes := m\<rparr>)"
    using l ne m1(1) m(1) lk by (simp add: sched_resched_def deref_def slock_ok sunlock_ok)
  obtain cc cx where "coros w c = Some cc" "coros w x = Some cx"
    using c(1) sched_invD(8) [OF I x] by (auto simp: ready_def)
  then have "sched_switch_context cfg th l x (w\<lparr>nodes := m\<rparr>) = Inr (switched th l c x m w)"
    using l switch_ok [of "w\<lparr>nodes := m\<rparr>" th l ls c cc x cx cfg] sched_invD(2) [OF I l(1)]
      sched_invD(8) [OF I x] x c(2)
    by (auto simp: switched_def ready_def errno_of_def world_upd_order)
  with run show ?thesis using switched_inv [OF I R q m(2)] by metis
qed

section \<open>Suspending\<close>

text \<open>
  The world between the two halves of \<^verbatim>\<open>sched_suspend\<close>: \<open>x\<close> is already current, \<open>c\<close> has saved
  its context and is still in the state it was.
\<close>

definition suspending :: "config \<Rightarrow> nat \<Rightarrow> nat \<Rightarrow> coro \<Rightarrow> coro \<Rightarrow> node_addr memory \<Rightarrow> 'k world \<Rightarrow> 'k world" where
  "suspending cfg th l c x m w = w\<lparr>
     coros := (coros w)(c \<mapsto> (the (coros w c))\<lparr>co_context := Some In_suspend, co_errno := Some (errno w th)\<rparr>),
     nodes := m,
     locals := (locals w)(l \<mapsto> (the (locals w l))\<lparr>current_coro := Some x,
       preempt_lock := if cfg_preemption cfg then 1 else 0\<rparr>),
     errno := (errno w)(th := the (errno_of w x))\<rparr>"

lemma suspend_begin_ok:
  assumes I: "sched_inv rq w" and R: "running w th l c" and q: "rq l = x # xs"
  shows "\<exists>m. suspend_begin cfg th w = Inr ((c, x), suspending cfg th l c x m w) \<and>
    queues_ok m (dom (locals w)) (rq(l := xs)) (dom (coros w))"
proof -
  from R obtain ls where l: "locals w l = Some ls" "current_coro ls = Some c" "lsched w th = Some l"
    by (rule running_local)
  have cur: "current w l = Some c" using l by (simp add: current_def)
  obtain cc cx e where c: "coros w c = Some cc" "\<not> queued rq c" and x: "coros w x = Some cx" "co_errno cx = Some e"
    using sched_invD(4,5) [OF I cur] sched_invD(8) [OF I queued_front [of rq, OF q]] by (auto simp: ready_def)
  have xc: "x \<noteq> c" using queued_front [of rq, OF q] c by auto
  define w1 where "w1 = w\<lparr>coros := (coros w)(c \<mapsto> cc\<lparr>co_context := Some In_suspend\<rparr>),
    locals := (locals w)(l \<mapsto> ls\<lparr>preempt_lock := if cfg_preemption cfg then 1 else 0\<rparr>)\<rparr>"
  have l1: "locals w1 l = Some (ls\<lparr>preempt_lock := if cfg_preemption cfg then 1 else 0\<rparr>)"
    by (simp add: w1_def)
  have keep: "ls\<lparr>preempt_lock := 0\<rparr> = ls" "(locals w)(l \<mapsto> ls) = locals w"
    using sched_invD(2) [OF I l(1)] l(1) by (auto simp: reset_fields)
  obtain m where m: "sched_dequeue_locked cfg l (locked cfg l w1) = Inr (x, (locked cfg l w1)\<lparr>nodes := m\<rparr>)"
    "queues_ok m (dom (locals w)) (rq(l := xs)) (dom (coros w))"
    using dequeue_ok [of "locked cfg l w1" "dom (locals w)" rq "dom (coros w)" l x xs]
      sched_invD(1) [OF I] l(1) q by (auto simp: w1_def)
  have "suspend_begin cfg th w =
    andthen (slock cfg l w1) (\<lambda>w. andthen (sched_dequeue_locked cfg l w) (\<lambda>(x, w).
      andthen (sunlock cfg l w) (\<lambda>w.
      andthen (set_coro c (\<lambda>co. co\<lparr>co_errno := Some (errno w th)\<rparr>) w) (\<lambda>w.
      andthen (set_local l (\<lambda>ls. ls\<lparr>current_coro := Some x\<rparr>) w) (\<lambda>w.
      andthen (load_errno th x w) (\<lambda>w. Inr ((c, x), w)))))))"
    using l c sched_invD(2) [OF I l(1)] keep
    by (cases "cfg_preemption cfg")
      (simp_all add: suspend_begin_def access_simps sched_block_preempt_def w1_def world_upd_order reset_fields)
  also have "\<dots> = Inr ((c, x), suspending cfg th l c x m w)"
    using l l1 m(1) c x xc sched_invD(3) [OF I l(1)]
    by (simp add: slock_ok sunlock_ok access_simps w1_def world_upd_order local_upd_order suspending_def errno_of_def)
  finally show ?thesis using m(2) by blast
qed

text \<open>The second half, when the state is still BLOCKING and when a waker has changed it.\<close>

lemma commit_blocks:
  assumes "lsched w th = Some l" "locals w l = Some ls" "current_coro ls = Some x" "ready w x" "x \<noteq> c"
    and "preempt_lock ls = (if cfg_preemption cfg then 1 else 0)"
    and "coros w c = Some cc" "co_state cc = Some STATE_BLOCKING"
  shows "suspend_commit cfg th c x w = Inr (w\<lparr>
    coros := (coros w)(c \<mapsto> cc\<lparr>co_state := Some STATE_BLOCKED\<rparr>),
    locals := (locals w)(l \<mapsto> ls\<lparr>preempt_lock := 0\<rparr>)\<rparr>)"
proof -
  let ?w = "w\<lparr>coros := (coros w)(c \<mapsto> cc\<lparr>co_state := Some STATE_BLOCKED\<rparr>)\<rparr>"
  have "ready ?w x" using assms(4,5) by (simp add: ready_def)
  moreover have "(locals w)(l \<mapsto> ls\<lparr>preempt_lock := 0\<rparr>) = locals w" if "\<not> cfg_preemption cfg"
    using assms(2,6) that by (auto simp: reset_fields)
  ultimately show ?thesis
    using assms restore_ok [of ?w th l ls x cfg]
    by (auto simp: suspend_commit_def access_simps)
qed

lemma commit_returns:
  assumes "lsched w th = Some l" "locals w l = Some ls" "\<not> ls_lock ls"
    and "preempt_lock ls = (if cfg_preemption cfg then 1 else 0)"
    and "coros w c = Some cc" "co_state cc = Some s" "s \<noteq> STATE_BLOCKING" "co_errno cc = Some e"
    and "queues_ok (nodes w) (dom (locals w)) rq (dom (coros w))" "x \<in> dom (coros w)" "\<not> queued rq x"
  shows "\<exists>m. suspend_commit cfg th c x w = Inr (w\<lparr>
    nodes := m, locals := (locals w)(l \<mapsto> ls\<lparr>current_coro := Some c, preempt_lock := 0\<rparr>),
    errno := (errno w)(th := e)\<rparr>) \<and>
    queues_ok m (dom (locals w)) (rq(l := rq l @ [x])) (dom (coros w))"
proof -
  let ?ls = "ls\<lparr>current_coro := Some c\<rparr>"
  define w1 where "w1 = w\<lparr>locals := (locals w)(l \<mapsto> ?ls), errno := (errno w)(th := e)\<rparr>"
  have l1: "locals w1 l = Some ?ls" "\<not> ls_lock ?ls" using assms(3) by (simp_all add: w1_def)
  obtain m where m: "sched_enqueue_locked cfg l x (locked cfg l w1) = Inr ((locked cfg l w1)\<lparr>nodes := m\<rparr>)"
    "queues_ok m (dom (locals w)) (rq(l := rq l @ [x])) (dom (coros w))"
    using enqueue_ok [of "locked cfg l w1" "dom (locals w)" rq "dom (coros w)" l x cfg] assms(2,9-11)
    by (auto simp: w1_def)
  have "suspend_commit cfg th c x w = andthen (slock cfg l w1) (\<lambda>w.
      andthen (sched_enqueue_locked cfg l x w) (\<lambda>w.
      andthen (sunlock cfg l w) (\<lambda>w. sched_unblock_preempt cfg l w)))"
    using assms by (simp add: suspend_commit_def access_simps w1_def)
  also have "\<dots> = sched_unblock_preempt cfg l (w1\<lparr>nodes := m\<rparr>)"
    using m(1) slock_ok [OF l1] sunlock_ok(2) [OF l1] by simp
  also have "\<dots> = Inr (w\<lparr>
    nodes := m, locals := (locals w)(l \<mapsto> ls\<lparr>current_coro := Some c, preempt_lock := 0\<rparr>),
    errno := (errno w)(th := e)\<rparr>)"
    using assms(4)
    by (auto simp: sched_unblock_preempt_def access_simps w1_def world_upd_order reset_fields)
  finally show ?thesis using m(2) by blast
qed

lemma queue_nonempty:
  assumes "sched_inv rq w" "running w th l c" "event_loop w l \<noteq> Some c"
  obtains x xs where "rq l = x # xs"
proof -
  from assms(2) obtain ls where ls: "locals w l = Some ls" by (rule running_local)
  then obtain e where "event_loop_coro ls = Some e" using sched_invD(10) [OF assms(1)] by blast
  note ls this
  then have "e \<in> set (rq l)"
    using sched_invD(7) [OF assms(1), of l e] assms(2,3) by (auto simp: running_def event_loop_def)
  then show ?thesis using that by (cases "rq l") auto
qed

text \<open>The world once \<open>c\<close> is asleep.\<close>

definition suspended :: "nat \<Rightarrow> nat \<Rightarrow> coro \<Rightarrow> coro \<Rightarrow> node_addr memory \<Rightarrow> 'k world \<Rightarrow> 'k world" where
  "suspended th l c x m w = w\<lparr>
     coros := (coros w)(c \<mapsto> (the (coros w c))\<lparr>co_context := Some In_suspend,
       co_errno := Some (errno w th), co_state := Some STATE_BLOCKED\<rparr>),
     nodes := m,
     locals := (locals w)(l \<mapsto> (the (locals w l))\<lparr>current_coro := Some x\<rparr>),
     errno := (errno w)(th := the (errno_of w x))\<rparr>"

lemma sched_suspend_eq:
  assumes "sched_inv rq w" "running w th l c" "rq l = x # xs"
  obtains m where "sched_suspend os cfg th w = suspend_commit cfg th c x (suspending cfg th l c x m w)"
    "queues_ok m (dom (locals w)) (rq(l := xs)) (dom (coros w))"
proof -
  have "lsched w th = Some l" using assms(2) by (simp add: running_def)
  with suspend_begin_ok [OF assms, of cfg] that show ?thesis by (auto simp: sched_suspend_def)
qed

lemma not_queued_twice:
  assumes "sched_inv rq w" "rq l = x # xs" "set q \<subseteq> insert c (set xs)" "x \<noteq> c"
  shows "\<not> queued (rq(l := q)) x"
  using assms(2-4) queues_distinct [OF sched_invD(1) [OF assms(1)], of l]
    queues_okD(2) [OF sched_invD(1) [OF assms(1)], of l _ x] by (auto simp: queued_def)

lemma front_not_current:
  assumes "sched_inv rq w" "running w th l c" "rq l = x # xs"
  shows "x \<noteq> c" "x \<in> dom (coros w)" "ready w x" "c \<in> dom (coros w)"
proof -
  have "current w l = Some c" using assms(2) by (simp add: running_def)
  then have c: "c \<in> dom (coros w)" "\<not> queued rq c" using sched_invD(4,5) [OF assms(1)] by auto
  have x: "queued rq x" using assms(3) by (rule queued_front)
  then show "x \<noteq> c" "c \<in> dom (coros w)" "ready w x" using c sched_invD(8) [OF assms(1)] by auto
  then show "x \<in> dom (coros w)" by (auto simp: ready_def)
qed

lemma suspended_inv:
  assumes I: "sched_inv rq w" and R: "running w th l c" and q: "rq l = x # xs"
    and loop: "event_loop w l \<noteq> Some c"
    and Q: "queues_ok m (dom (locals w)) (rq(l := xs)) (dom (coros w))"
  shows "sched_inv (rq(l := xs)) (suspended th l c x m w)"
proof -
  from R obtain ls where l: "locals w l = Some ls" "current_coro ls = Some c" by (rule running_local)
  have cur: "current w l = Some c" using l by (simp add: current_def)
  note x = front_not_current [OF I R q]
  let ?w = "suspended th l c x m w"
  have dom: "dom (coros ?w) = dom (coros w)" using x(4) by (auto simp: suspended_def)
  have nc: "\<not> queued (rq(l := xs)) c"
    using sched_invD(5) [OF I cur] q by (auto simp: queued_def split: if_splits) (metis list.set_intros(2))
  show ?thesis
  proof (rule sched_inv_update [OF I l(1), where x = x and c = c])
    show "queues_ok (nodes ?w) (dom (locals w)) (rq(l := xs)) (dom (coros ?w))"
      using Q dom by (simp add: suspended_def)
    show "locals ?w = (locals w)(l \<mapsto> ls\<lparr>current_coro := Some x\<rparr>)" "brk ?w = brk w"
      using l(1) by (simp_all add: suspended_def)
    show "x \<in> dom (coros ?w)" using x dom by simp
    show "\<not> queued (rq(l := xs)) x" using not_queued_twice [OF I q _ x(1), of xs] by auto
    show "e = x \<or> e \<in> set ((rq(l := xs)) l)" if "event_loop_coro ls = Some e" for e
      using sched_invD(7) [OF I, of l e] that l q loop by (auto simp: event_loop_def current_def)
    show "current w l' \<noteq> Some c" if "l' \<noteq> l" for l' using sched_invD(6) [OF I cur] that by blast
  qed (use q nc dom x(1) in \<open>auto simp: suspended_def\<close>)
qed

lemma suspend_blocks:
  assumes I: "sched_inv rq w" and R: "running w th l c" and q: "rq l = x # xs"
    and loop: "event_loop w l \<noteq> Some c" and st: "state_of w c = Some STATE_BLOCKING"
  shows "\<exists>m. sched_suspend os cfg th w = Inr (suspended th l c x m w) \<and>
    sched_inv (rq(l := xs)) (suspended th l c x m w)"
proof -
  from R obtain ls where l: "locals w l = Some ls" "current_coro ls = Some c" "lsched w th = Some l"
    by (rule running_local)
  note x = front_not_current [OF I R q]
  obtain cc where cc: "coros w c = Some cc" "co_state cc = Some STATE_BLOCKING"
    using x(4) st by (auto simp: state_of_def)
  obtain m where m: "sched_suspend os cfg th w = suspend_commit cfg th c x (suspending cfg th l c x m w)"
    "queues_ok m (dom (locals w)) (rq(l := xs)) (dom (coros w))"
    using I R q by (rule sched_suspend_eq)
  let ?s = "suspending cfg th l c x m w" and ?ls = "ls\<lparr>current_coro := Some x, preempt_lock := if cfg_preemption cfg then 1 else 0\<rparr>"
  have "ready ?s x" using x(1,3) by (simp add: ready_def suspending_def)
  then have "suspend_commit cfg th c x ?s = Inr (suspended th l c x m w)"
    using commit_blocks [of ?s th l ?ls x c cfg "cc\<lparr>co_context := Some In_suspend, co_errno := Some (errno w th)\<rparr>"]
      l cc x(1) sched_invD(2) [OF I l(1)] reset_fields(2) [of "ls\<lparr>current_coro := Some x\<rparr>"]
    by (simp add: suspending_def suspended_def world_upd_order)
  with m suspended_inv [OF I R q loop m(2)] show ?thesis by metis
qed

text \<open>When its state is not BLOCKING the caller goes on; the coroutine it had dequeued goes to the back.\<close>

definition not_suspended :: "nat \<Rightarrow> nat \<Rightarrow> coro \<Rightarrow> node_addr memory \<Rightarrow> 'k world \<Rightarrow> 'k world" where
  "not_suspended th l c m w = w\<lparr>
     coros := (coros w)(c \<mapsto> (the (coros w c))\<lparr>co_context := Some In_suspend, co_errno := Some (errno w th)\<rparr>),
     nodes := m\<rparr>"

lemma suspending_returns:
  assumes I: "sched_inv rq w" and R: "running w th l c" and q: "rq l = x # xs"
    and st: "state_of w c = Some s" "s \<noteq> STATE_BLOCKING"
    and m: "queues_ok m (dom (locals w)) (rq(l := xs)) (dom (coros w))"
  shows "\<exists>m'. suspend_commit cfg th c x (suspending cfg th l c x m w) = Inr (not_suspended th l c m' w) \<and>
    queues_ok m' (dom (locals w)) (rq(l := xs @ [x])) (dom (coros w))"
proof -
  from R obtain ls where l: "locals w l = Some ls" "current_coro ls = Some c" "lsched w th = Some l"
    by (rule running_local)
  note x = front_not_current [OF I R q]
  obtain cc where cc: "coros w c = Some cc" "co_state cc = Some s"
    using x(4) st by (auto simp: state_of_def)
  let ?s = "suspending cfg th l c x m w" and ?ls = "ls\<lparr>current_coro := Some x, preempt_lock := if cfg_preemption cfg then 1 else 0\<rparr>"
  have dom: "dom (locals ?s) = dom (locals w)" "dom (coros ?s) = dom (coros w)"
    using l cc by (auto simp: suspending_def)
  have nx: "\<not> queued (rq(l := xs)) x" using not_queued_twice [OF I q _ x(1), of xs] by auto
  have "queues_ok (nodes ?s) (dom (locals ?s)) (rq(l := xs)) (dom (coros ?s))"
    unfolding dom using m by (simp add: suspending_def)
  then obtain m' where m': "suspend_commit cfg th c x ?s = Inr (?s\<lparr>nodes := m',
        locals := (locals ?s)(l \<mapsto> ?ls\<lparr>current_coro := Some c, preempt_lock := 0\<rparr>),
        errno := (errno ?s)(th := errno w th)\<rparr>)"
      "queues_ok m' (dom (locals w)) (rq(l := xs @ [x])) (dom (coros w))"
    using commit_returns [of ?s th l ?ls cfg c "cc\<lparr>co_context := Some In_suspend, co_errno := Some (errno w th)\<rparr>"
        s "errno w th" "rq(l := xs)" x] l cc st(2) x nx sched_invD(3) [OF I l(1)]
    unfolding dom by (auto simp: suspending_def)
  have keep: "ls\<lparr>current_coro := Some c, preempt_lock := 0\<rparr> = ls" "(locals w)(l \<mapsto> ls) = locals w"
    using l sched_invD(2) [OF I l(1)] by (auto simp: reset_fields)
  have "suspend_commit cfg th c x ?s = Inr (not_suspended th l c m' w)"
    unfolding m'(1) using l cc keep(2)
    by (simp add: suspending_def not_suspended_def world_upd_order local_upd_order keep(1) [unfolded local_upd_order])
  with m'(2) show ?thesis by blast
qed

lemma not_suspended_inv:
  assumes I: "sched_inv rq w" and R: "running w th l c" and q: "rq l = x # xs"
    and Q: "queues_ok m (dom (locals w)) (rq(l := xs @ [x])) (dom (coros w))"
  shows "sched_inv (rq(l := xs @ [x])) (not_suspended th l c m w)"
proof -
  from R obtain ls where l: "locals w l = Some ls" "current_coro ls = Some c" by (rule running_local)
  note x = front_not_current [OF I R q]
  have cur: "current w l = Some c" using l by (simp add: current_def)
  obtain cc where cc: "coros w c = Some cc" using x(4) by blast
  let ?w = "not_suspended th l c m w"
  have d2: "dom (coros ?w) = dom (coros w)" using cc by (auto simp: not_suspended_def)
  have nc: "\<not> queued (rq(l := xs @ [x])) c"
    using sched_invD(5) [OF I cur] q x(1) by (auto simp: queued_def split: if_splits) (metis list.set_intros(2))
  have keep: "(locals w)(l \<mapsto> ls) = locals w" using l by auto
  show ?thesis
  proof (rule sched_inv_update [OF I l(1), where x = c and c = c])
    show "queues_ok (nodes ?w) (dom (locals w)) (rq(l := xs @ [x])) (dom (coros ?w))"
      using Q d2 by (simp add: not_suspended_def)
    show "locals ?w = (locals w)(l \<mapsto> ls\<lparr>current_coro := Some c\<rparr>)" "brk ?w = brk w"
      using l keep by (simp_all add: not_suspended_def reset_fields)
    show "e = c \<or> e \<in> set ((rq(l := xs @ [x])) l)" if "event_loop_coro ls = Some e" for e
      using sched_invD(7) [OF I, of l e] that l q by (auto simp: event_loop_def current_def)
    show "current w l' \<noteq> Some c" if "l' \<noteq> l" for l' using sched_invD(6) [OF I cur] that by blast
    show "\<exists>l. event_loop w l = Some c" if "state_of ?w c = Some STATE_BLOCKED"
      using sched_invD(9) [OF I, of c l] that cur cc by (auto simp: state_of_def not_suspended_def)
  qed (use q nc d2 l cc in \<open>auto simp: not_suspended_def\<close>)
qed

lemma suspend_returns:
  assumes I: "sched_inv rq w" and R: "running w th l c" and q: "rq l = x # xs"
    and st: "state_of w c = Some s" "s \<noteq> STATE_BLOCKING"
  shows "\<exists>m. sched_suspend os cfg th w = Inr (not_suspended th l c m w) \<and>
    sched_inv (rq(l := xs @ [x])) (not_suspended th l c m w)"
proof -
  obtain m where m: "sched_suspend os cfg th w = suspend_commit cfg th c x (suspending cfg th l c x m w)"
    "queues_ok m (dom (locals w)) (rq(l := xs)) (dom (coros w))"
    using I R q by (rule sched_suspend_eq)
  from suspending_returns [OF I R q st m(2), of cfg] not_suspended_inv [OF I R q] m(1) show ?thesis by metis
qed

section \<open>Waking\<close>

definition woken :: "coro \<Rightarrow> 'k world \<Rightarrow> 'k world" where
  "woken c w = w\<lparr>coros := (coros w)(c \<mapsto> (the (coros w c))\<lparr>co_state := Some STATE_RUNNABLE\<rparr>)\<rparr>"

lemma woken_simps [simp]:
  "locals (woken c w) = locals w" "nodes (woken c w) = nodes w" "lsched (woken c w) = lsched w"
  "brk (woken c w) = brk w" "current (woken c w) = current w" "event_loop (woken c w) = event_loop w"
  "errno (woken c w) = errno w" "gsched (woken c w) = gsched w" "waits (woken c w) = waits w" "kernel (woken c w) = kernel w"
  by (auto simp: woken_def current_def event_loop_def)

lemma schedule_awake:
  assumes "lsched w th = Some l" "state_of w c = Some s" "s \<noteq> STATE_BLOCKED"
  shows "sched_schedule os cfg th c w = Inr (woken c w)"
  using assms by (auto simp: sched_schedule_def access_simps woken_def state_of_def split: option.splits)

lemma woken_inv:
  assumes I: "sched_inv rq w" and c: "c \<in> dom (coros w)"
  shows "sched_inv rq (woken c w)"
proof -
  have dom: "dom (coros (woken c w)) = dom (coros w)" using c by (auto simp: woken_def)
  have ready: "ready (woken c w) x = ready w x" for x
    using c by (auto simp: ready_def woken_def)
  have st: "state_of (woken c w) x = Some STATE_BLOCKED \<Longrightarrow> state_of w x = Some STATE_BLOCKED" for x
    by (auto simp: state_of_def woken_def STATE_RUNNABLE_def STATE_BLOCKED_def split: if_splits)
  show ?thesis using I unfolding sched_inv_def dom ready woken_simps by (blast dest: st)
qed

lemma schedule_blocked:
  assumes I: "sched_inv rq w" and l: "lsched w th = Some l" "l \<in> dom (locals w)"
    and c: "state_of w c = Some STATE_BLOCKED" "ready w c" "\<forall>k. event_loop w k \<noteq> Some c"
  shows "\<exists>m. sched_schedule os cfg th c w = Inr ((woken c w)\<lparr>nodes := m\<rparr>) \<and>
    sched_inv (rq(l := rq l @ [c])) ((woken c w)\<lparr>nodes := m\<rparr>)"
proof -
  obtain ls x where ls: "locals w l = Some ls" "current_coro ls = Some x"
    using l(2) sched_invD(11) [OF I, of l] by blast
  have cur: "current w l = Some x" using ls by (simp add: current_def)
  have nc: "\<not> queued rq c" "current w k \<noteq> Some c" for k using sched_invD(9) [OF I c(1)] c(3) by blast+
  have live: "c \<in> dom (coros w)" using c(2) by (auto simp: ready_def)
  have dom: "dom (coros (woken c w)) = dom (coros w)" using live by (auto simp: woken_def)
  obtain m where m: "sched_enqueue_locked cfg l c (locked cfg l (woken c w)) = Inr ((locked cfg l (woken c w))\<lparr>nodes := m\<rparr>)"
    "queues_ok m (dom (locals w)) (rq(l := rq l @ [c])) (dom (coros w))"
    using enqueue_ok [of "locked cfg l (woken c w)" "dom (locals w)" rq "dom (coros w)" l c cfg]
      sched_invD(1) [OF I] l live nc by auto
  have ls': "locals (woken c w) l = Some ls" using ls by simp
  have "sched_schedule os cfg th c w = andthen (slock cfg l (woken c w)) (\<lambda>w.
      andthen (sched_enqueue_locked cfg l c w) (\<lambda>w. sunlock cfg l w))"
    using l(1) c(1) by (auto simp: sched_schedule_def access_simps woken_def state_of_def split: option.splits)
  then have run: "sched_schedule os cfg th c w = Inr ((woken c w)\<lparr>nodes := m\<rparr>)"
    using m(1) slock_ok [OF ls'] sunlock_ok(2) [OF ls'] sched_invD(3) [OF I ls(1)] by simp
  let ?w = "(woken c w)\<lparr>nodes := m\<rparr>"
  have "sched_inv (rq(l := rq l @ [c])) ?w"
  proof (rule sched_inv_update [OF I ls(1), where x = x and c = c])
    show "queues_ok (nodes ?w) (dom (locals w)) (rq(l := rq l @ [c])) (dom (coros ?w))"
      using m(2) dom by simp
    show "locals ?w = (locals w)(l \<mapsto> ls\<lparr>current_coro := Some x\<rparr>)"
      using ls by (auto simp: reset_fields)
    show "e = x \<or> e \<in> set ((rq(l := rq l @ [c])) l)" if "event_loop_coro ls = Some e" for e
      using sched_invD(7) [OF I, of l e] that ls by (auto simp: event_loop_def current_def)
    show "ready ?w c" using c(2) by (auto simp: ready_def woken_def)
    show "\<not> queued (rq(l := rq l @ [c])) x" "x \<in> dom (coros ?w)"
      using sched_invD(4,5) [OF I cur] nc(2) [of l] cur dom by (auto simp: queued_def split: if_splits)
    show "\<exists>l. event_loop w l = Some c" if "state_of ?w c = Some STATE_BLOCKED"
      using that by (auto simp: state_of_def woken_def STATE_RUNNABLE_def STATE_BLOCKED_def)
  qed (use nc ls dom in \<open>auto simp: woken_def\<close>)
  with run show ?thesis by blast
qed

end
