(* ===== verification/Sched_Life.thy ===== *)
theory Sched_Life
  imports Sched_Ops
begin

text \<open>
  The life of coroutines and local schedulers: initialisation, creation of coroutines with
  and without a new thread, and death, each with the invariant it establishes or keeps.
\<close>

section \<open>Fresh memory\<close>

abbreviation null_node :: "node_addr list_node" where
  "null_node \<equiv> \<lparr>node_next = None, node_prev = None\<rparr>"

abbreviation self_node :: "node_addr \<Rightarrow> node_addr list_node" where
  "self_node n \<equiv> \<lparr>node_next = Some n, node_prev = Some n\<rparr>"

lemma list_node_init_eq: "m n \<noteq> None \<Longrightarrow> list_node_init m n = Inr (m(n \<mapsto> \<lparr>node_next = None, node_prev = None\<rparr>))"
  by (cases "the (m n)") (auto simp: list_node_init_def mem_simps)

lemma list_init_eq: "m n \<noteq> None \<Longrightarrow> list_init m n = Inr (m(n \<mapsto> \<lparr>node_next = Some n, node_prev = Some n\<rparr>))"
  by (cases "the (m n)") (auto simp: list_init_def mem_simps)

lemma malloc_ok:
  "os_ok os \<Longrightarrow> malloc os n w = (Some (brk w), w\<lparr>kernel := snd (os_malloc os n (kernel w)), brk := Suc (brk w)\<rparr>)"
  by (auto simp: malloc_def os_ok_def case_prod_beta Let_def)

definition newborn :: "start_fn \<Rightarrow> nat \<Rightarrow> nat \<Rightarrow> coroutine" where
  "newborn start arg stack = \<lparr>co_state = Some STATE_BLOCKED, co_context = Some In_trampoline,
     co_stack = Some stack, co_errno = Some 0, co_start = Some start, co_arg = Some arg\<rparr>"

definition blank :: coroutine where
  "blank = \<lparr>co_state = None, co_context = None, co_stack = None, co_errno = None, co_start = None, co_arg = None\<rparr>"

lemma make_coro_ok:
  assumes "os_ok os"
  shows "\<exists>k. sched_make_coro os start arg w = Inr (brk w, w\<lparr>
    coros := (coros w)(brk w \<mapsto> newborn start arg (Suc (brk w))),
    nodes := (nodes w)(Coro_node (brk w) \<mapsto> null_node),
    brk := brk w + 2, kernel := k\<rparr>)"
  using assms
  by (auto simp: sched_make_coro_def malloc_ok new_coro_memory_def list_node_init_eq access_simps newborn_def
      Let_def intro!: exI world.equality)

lemma new_local_ok:
  assumes "os_ok os"
  shows "\<exists>k. sched_new_local os cfg w = Inr (brk w, w\<lparr>
    coros := (coros w)(Suc (brk w) \<mapsto> blank),
    nodes := (nodes w)(Run_list (brk w) \<mapsto> self_node (Run_list (brk w)),
      Inactive_list (brk w) \<mapsto> self_node (Inactive_list (brk w)), Coro_node (Suc (brk w)) \<mapsto> null_node),
    locals := (locals w)(brk w \<mapsto> \<lparr>current_coro = Some (Suc (brk w)), event_loop_coro = None, preempt_lock = 0,
      ls_lock = False, platform_sched_initialised = False\<rparr>),
    brk := brk w + 2, kernel := k\<rparr>)"
  using assms
  by (auto simp: sched_new_local_def malloc_ok new_coro_memory_def new_local_memory_def list_node_init_eq
      list_init_eq access_simps blank_def Let_def intro!: exI world.equality)

section \<open>Growth of the world\<close>

lemma sched_inv_add_coro:
  assumes I: "sched_inv rq w" and b: "brk w \<le> b" "b < brk w'" and C: "coros w' = (coros w)(b \<mapsto> co)"
    and L: "locals w' = locals w" and N: "nodes w' (Coro_node b) = Some null_node"
      "\<And>l. l \<in> dom (locals w) \<Longrightarrow> nodes w' (Run_list l) = nodes w (Run_list l)"
      "\<And>x. x \<in> dom (coros w) \<Longrightarrow> nodes w' (Coro_node x) = nodes w (Coro_node x)"
  shows "sched_inv rq w'"
proof -
  have fresh: "b \<notin> dom (coros w)" using sched_invD(12) [OF I, of b] b by auto
  have live: "queued rq x \<Longrightarrow> x \<in> dom (coros w)" for x
    using queues_okD(3) [OF sched_invD(1) [OF I]] by (auto simp: queued_def)
  have "queues_ok (nodes w') (dom (locals w)) rq (dom (coros w))"
    by (rule queues_frame [OF sched_invD(1) [OF I]]) (use N in auto)
  then have Q: "queues_ok (nodes w') (dom (locals w')) rq (dom (coros w'))"
    using queues_new_coro [OF _ fresh] N(1) by (simp add: L C detached_def)
  have cur: "current w' = current w" "event_loop w' = event_loop w"
    by (auto simp: current_def event_loop_def L)
  have old: "ready w' x = ready w x" "state_of w' x = state_of w x" if "x \<noteq> b" for x
    using that by (simp_all add: ready_def state_of_def C)
  have nb: "\<not> queued rq b" "current w l \<noteq> Some b" for l
    using live sched_invD(4) [OF I] fresh by blast+
  have bound: "x < brk w'" if "x \<in> dom (coros w') \<union> dom (locals w')" for x
    using that sched_invD(12) [OF I, of x] b by (auto simp: C L dom_def split: if_splits)
  show ?thesis
    unfolding sched_inv_def cur
  proof (intro conjI allI impI ballI)
    fix l c assume "current w l = Some c"
    then show "c \<in> dom (coros w')" "\<not> queued rq c" using sched_invD(4,5) [OF I] C by auto
  next
    fix x assume "queued rq x"
    then show "ready w' x" using old(1) [of x] nb sched_invD(8) [OF I] by metis
  next
    fix x assume "state_of w' x = Some STATE_BLOCKED" "queued rq x \<or> (\<exists>l. current w l = Some x)"
    then show "\<exists>l. event_loop w l = Some x" using old(2) [of x] nb sched_invD(9) [OF I] by metis
  qed (use Q bound sched_invD(2,3,6,7,10,11) [OF I] in \<open>auto simp: L\<close>)
qed

lemma sched_inv_add_local:
  assumes I: "sched_inv rq w" and l: "l \<notin> dom (locals w)" "l < brk w"
    and L: "locals w' = (locals w)(l \<mapsto> ls)" "current_coro ls = Some d" "event_loop_coro ls = Some e"
      "preempt_lock ls = 0" "\<not> ls_lock ls"
    and C: "coros w' = coros w" "brk w' = brk w"
    and d: "d \<in> dom (coros w)" "\<not> queued rq d" "\<And>k. current w k \<noteq> Some d"
    and c: "ready w c" "\<And>k. current w k \<noteq> Some c" "c \<noteq> d"
    and e: "e = d \<or> e = c" "\<And>y. y \<in> {c, d} \<Longrightarrow> state_of w y = Some STATE_BLOCKED \<Longrightarrow> y = e"
    and Q: "queues_ok (nodes w') (insert l (dom (locals w))) (rq(l := [c])) (dom (coros w))"
  shows "sched_inv (rq(l := [c])) w'"
proof -
  have rql: "rq l = []" using queues_okD(5) [OF sched_invD(1) [OF I]] l(1) by blast
  have q: "queued (rq(l := [c])) x \<longleftrightarrow> queued rq x \<or> x = c" for x
    using rql by (auto simp: queued_def split: if_splits) (metis empty_iff empty_set)
  have cur: "current w' k = (if k = l then Some d else current w k)"
    and loop: "event_loop w' k = (if k = l then Some e else event_loop w k)" for k
    using L by (simp_all add: current_def event_loop_def)
  have none: "event_loop w l = None" using l by (auto simp: event_loop_def dom_def)
  have same: "ready w' x = ready w x" "state_of w' x = state_of w x" for x
    by (simp_all add: ready_def state_of_def C)
  show ?thesis
    unfolding sched_inv_def
  proof (intro conjI allI impI ballI)
    show "queues_ok (nodes w') (dom (locals w')) (rq(l := [c])) (dom (coros w'))" using Q by (simp add: L C)
    fix k ks assume "locals w' k = Some ks"
    then show "preempt_lock ks = 0" "\<not> ls_lock ks" "current_coro ks \<noteq> None" "event_loop_coro ks \<noteq> None"
      using sched_invD(2,3,10,11) [OF I] L by (auto split: if_splits)
  next
    fix k x assume "current w' k = Some x"
    then show "x \<in> dom (coros w')" "\<not> queued (rq(l := [c])) x"
      using sched_invD(4,5) [OF I] d c(2,3) by (auto simp: cur q C split: if_splits)
  next
    fix k k' x assume "current w' k = Some x" "current w' k' = Some x"
    then show "k = k'" using sched_invD(6) [OF I] d(3) by (auto simp: cur split: if_splits)
  next
    fix k x assume "event_loop w' k = Some x"
    then show "current w' k = Some x \<or> x \<in> set ((rq(l := [c])) k)"
      using sched_invD(7) [OF I, of k x] e(1) by (auto simp: cur loop split: if_splits)
  next
    fix x assume "queued (rq(l := [c])) x"
    then show "ready w' x" using sched_invD(8) [OF I] c(1) by (auto simp: q same)
  next
    fix x assume b: "state_of w' x = Some STATE_BLOCKED" "queued (rq(l := [c])) x \<or> (\<exists>k. current w' k = Some x)"
    show "\<exists>k. event_loop w' k = Some x"
    proof (cases "x \<in> {c, d}")
      case True
      with b(1) e(2) same have "event_loop w' l = Some x" by (simp add: loop)
      then show ?thesis by blast
    next
      case False
      with b obtain k where "event_loop w k = Some x"
        using sched_invD(9) [OF I, of x] by (auto simp: q cur same split: if_splits)
      then have "event_loop w' k = Some x" using none by (auto simp: loop)
      then show ?thesis by blast
    qed
  next
    fix x assume "x \<in> dom (coros w') \<union> dom (locals w')"
    then show "x < brk w'" using sched_invD(12) [OF I, of x] l(2) by (auto simp: C L split: if_splits)
  qed
qed

section \<open>Death\<close>

definition buried :: "nat \<Rightarrow> coro \<Rightarrow> coro \<Rightarrow> node_addr memory \<Rightarrow> 'k world \<Rightarrow> 'k world" where
  "buried l c x m w = w\<lparr>coros := (coros w)(c := None), nodes := m,
     locals := (locals w)(l \<mapsto> (the (locals w l))\<lparr>current_coro := Some x\<rparr>)\<rparr>"

lemma buried_inv:
  assumes I: "sched_inv rq w" and R: "running w th l c" and q: "rq l = x # xs"
    and loop: "event_loop w l \<noteq> Some c"
    and Q: "queues_ok m (dom (locals w)) (rq(l := xs)) (dom (coros w) - {c})"
  shows "sched_inv (rq(l := xs)) (buried l c x m w)"
proof -
  from R obtain ls where l: "locals w l = Some ls" "current_coro ls = Some c" by (rule running_local)
  have cur: "current w l = Some c" using l by (simp add: current_def)
  note x = front_not_current [OF I R q]
  let ?w = "buried l c x m w"
  have dom: "dom (coros ?w) = dom (coros w) - {c}" by (auto simp: buried_def)
  have nc: "\<not> queued (rq(l := xs)) c" using queues_okD(3) [OF Q] unfolding queued_def by blast
  show ?thesis
  proof (rule sched_inv_update [OF I l(1), where x = x and c = c])
    show "queues_ok (nodes ?w) (dom (locals w)) (rq(l := xs)) (dom (coros ?w))"
      using Q dom by (simp add: buried_def)
    show "locals ?w = (locals w)(l \<mapsto> ls\<lparr>current_coro := Some x\<rparr>)" "brk ?w = brk w"
      using l(1) by (simp_all add: buried_def)
    show "x \<in> dom (coros ?w)" using x dom by simp
    show "\<not> queued (rq(l := xs)) x" using not_queued_twice [OF I q _ x(1), of xs] by auto
    show "e = x \<or> e \<in> set ((rq(l := xs)) l)" if "event_loop_coro ls = Some e" for e
      using sched_invD(7) [OF I, of l e] that l q loop by (auto simp: event_loop_def current_def)
    show "current w l' \<noteq> Some c" if "l' \<noteq> l" for l' using sched_invD(6) [OF I cur] that by blast
  qed (use q nc x(1) in \<open>auto simp: buried_def\<close>)
qed

lemma die_ok:
  assumes I: "sched_inv rq w" and R: "running w th l c" and q: "rq l = x # xs"
    and loop: "event_loop w l \<noteq> Some c" and cc: "coros w c = Some cc" "co_stack cc \<noteq> None"
  shows "\<exists>m. sched_coro_die cfg th w = Inr (buried l c x m w) \<and> sched_inv (rq(l := xs)) (buried l c x m w)"
proof -
  from R obtain ls where l: "locals w l = Some ls" "current_coro ls = Some c" "lsched w th = Some l"
    by (rule running_local)
  note x = front_not_current [OF I R q] and Q = sched_invD(1) [OF I]
  have cur: "current w l = Some c" using l by (simp add: current_def)
  have nc: "\<not> queued rq c" using sched_invD(5) [OF I cur] .
  have il: "list_in_list (nodes w) (Coro_node c) = Inr False" using queues_in_list [OF Q x(4)] nc by simp
  let ?p = "if cfg_preemption cfg then 1 else 0"
  define w1 where "w1 = w\<lparr>coros := (coros w)(c := None), nodes := (nodes w)(Coro_node c := None),
     locals := (locals w)(l \<mapsto> ls\<lparr>preempt_lock := ?p\<rparr>)\<rparr>"
  have l1: "locals w1 l = Some (ls\<lparr>preempt_lock := ?p\<rparr>)" by (simp add: w1_def)
  have keep: "(locals w)(l \<mapsto> ls) = locals w" using l(1) by auto
  have Q1: "queues_ok (nodes w1) (dom (locals w)) rq (dom (coros w) - {c})"
    using queues_free [OF Q nc] by (simp add: w1_def)
  then obtain m where m: "sched_dequeue_locked cfg l (locked cfg l w1) = Inr (x, (locked cfg l w1)\<lparr>nodes := m\<rparr>)"
    "queues_ok m (dom (locals w)) (rq(l := xs)) (dom (coros w) - {c})"
    using dequeue_ok [of "locked cfg l w1" "dom (locals w)" rq "dom (coros w) - {c}" l x xs] l(1) q by auto
  have "sched_coro_die cfg th w = andthen (slock cfg l w1) (\<lambda>w. andthen (sched_dequeue_locked cfg l w) (\<lambda>(c', w).
      andthen (sunlock cfg l w) (\<lambda>w. andthen (set_local l (\<lambda>ls. ls\<lparr>current_coro := Some c'\<rparr>) w) (\<lambda>w.
      restore_coro cfg th c' w))))"
    using l cc il keep sched_invD(2) [OF I l(1)]
    by (cases "cfg_preemption cfg")
      (auto simp: sched_coro_die_def free_coro_def access_simps sched_block_preempt_def w1_def world_upd_order
        reset_fields Let_def)
  also have "\<dots> = restore_coro cfg th x (w1\<lparr>nodes := m,
      locals := (locals w1)(l \<mapsto> ls\<lparr>preempt_lock := ?p, current_coro := Some x\<rparr>)\<rparr>)"
    using m(1) slock_ok [OF l1] sunlock_ok(2) [OF l1] sched_invD(3) [OF I l(1)] l1 by (simp add: access_simps)
  also have "\<dots> = Inr (buried l c x m w)"
    using x(1,3) l sched_invD(2) [OF I l(1)]
    by (subst restore_ok [where l = l and ls = "ls\<lparr>preempt_lock := ?p, current_coro := Some x\<rparr>"])
      (auto simp: w1_def buried_def ready_def reset_fields local_upd_order)
  finally show ?thesis using buried_inv [OF I R q loop m(2)] by blast
qed

section \<open>Initialisation\<close>

definition empty_heap :: "timer_wait heap" where
  "empty_heap = \<lparr>hp_heap = Block (replicate INITIAL_SIZE None), hp_size = INITIAL_SIZE, hp_items = 0,
     hp_compare = timer_compare\<rparr>"

lemma new_global_ok:
  assumes "os_ok os"
  shows "\<exists>p k. sched_new_global os n w = Inr (\<lparr>gs_poller = p,
      timer_heap = \<lparr>hp_heap = Block (replicate INITIAL_SIZE None), hp_size = INITIAL_SIZE, hp_items = 0, hp_compare = timer_compare\<rparr>,
      gs_lock = False, local_size = n, local_count = 0, local_schedulers = replicate n None\<rparr>,
    w\<lparr>kernel := k, brk := Suc (brk w)\<rparr>)"
proof -
  have m: "fst (os_malloc os n k) = True" for n k using assms by (simp add: os_ok_def)
  have e: "fst (fst (os_epoll_create1 os k)) \<noteq> -1" for k
    using assms unfolding os_ok_def by (metis neg_0_le_iff_le not_one_le_zero)
  show ?thesis
    using malloc_ok [OF assms, of "global_sched_bytes n" w] e
    by (auto simp: sched_new_global_def heap_init_def m platform_poll_init_def case_prod_beta Let_def deref_def
        intro!: exI world.equality)
qed

lemma empty_world_inv: "coros w = Map.empty \<Longrightarrow> locals w = Map.empty \<Longrightarrow> sched_inv (\<lambda>_. []) w"
  by (simp add: sched_inv_def queues_ok_def queued_def current_def event_loop_def)

lemma enqueue_nodes:
  assumes "sched_enqueue_locked cfg l c w' = Inr (w'\<lparr>nodes := m\<rparr>)" "nodes w' = nodes w"
  shows "sched_enqueue_locked cfg l c w = Inr (w\<lparr>nodes := m\<rparr>)"
proof -
  obtain q m' where m': "list_in_list (nodes w') (Coro_node c) = Inr q" "\<not> q"
      "list_push_back (cfg_debug cfg) (nodes w') (Run_list l) (Coro_node c) = Inr m'"
      "w'\<lparr>nodes := m'\<rparr> = w'\<lparr>nodes := m\<rparr>"
    using assms(1) unfolding sched_enqueue_locked_def andthen_eq_Inr_iff by auto
  have "nodes (w'\<lparr>nodes := m'\<rparr>) = nodes (w'\<lparr>nodes := m\<rparr>)" using m'(4) by (rule arg_cong)
  then have "m' = m" by simp
  with m' assms(2) show ?thesis by (simp add: sched_enqueue_locked_def)
qed

lemma enqueue_new_local:
  assumes I: "sched_inv rq w" and l: "l \<notin> dom (locals w)" "dlist (nodes w) (Run_list l) []"
    and c: "c \<in> dom (coros w)" "\<not> queued rq c"
  shows "\<exists>m. sched_enqueue_locked cfg l c w = Inr (w\<lparr>nodes := m\<rparr>) \<and>
    queues_ok m (insert l (dom (locals w))) (rq(l := [c])) (dom (coros w))"
proof -
  have "queues_ok (nodes w) (insert l (dom (locals w))) rq (dom (coros w))"
    using queues_new_local [OF sched_invD(1) [OF I] l] .
  moreover have "rq l = []" using queues_okD(5) [OF sched_invD(1) [OF I] l(1)] .
  ultimately show ?thesis using enqueue_ok [of w _ rq _ l c cfg] c by auto
qed

text \<open>
  The local scheduler \<open>l\<close> of thread \<open>th\<close>, its main coroutine \<open>d\<close> and its event loop \<open>e\<close> are
  laid out in memory before the event loop is enqueued.
\<close>

lemma init_worlds_inv:
  fixes w w0 :: "'k world"
  assumes w: "coros w = (coros w0)(d \<mapsto> blank, e \<mapsto> newborn start arg stk)" "coros w0 = Map.empty" "locals w0 = Map.empty"
    and N: "nodes w = (nodes w0)(Run_list l \<mapsto> self_node (Run_list l), Inactive_list l \<mapsto> z, Coro_node d \<mapsto> null_node,
        Coro_node e \<mapsto> null_node)"
    and L: "locals w = (locals w0)(l \<mapsto> ls)" "current_coro ls = Some d" "event_loop_coro ls = Some e"
      "preempt_lock ls = 0" "\<not> ls_lock ls"
    and b: "brk w0 \<le> l" "l < d" "d < e" "e < brk w"
  shows "\<exists>m. sched_enqueue_locked cfg l e w = Inr (w\<lparr>nodes := m\<rparr>) \<and>
    sched_inv ((\<lambda>_. [])(l := [e])) (w\<lparr>nodes := m\<rparr>)"
proof -
  let ?rq = "\<lambda>_. [] :: coro list"
  define w1 where "w1 = w0\<lparr>coros := (coros w0)(d \<mapsto> blank), nodes := nodes w, brk := e\<rparr>"
  define w2 where "w2 = w1\<lparr>coros := coros w, brk := brk w\<rparr>"
  have I1: "sched_inv ?rq w1"
    by (rule sched_inv_add_coro [OF empty_world_inv [OF w(2,3)], where b = d and co = blank])
      (use w b N in \<open>auto simp: w1_def\<close>)
  have I2: "sched_inv ?rq w2"
    by (rule sched_inv_add_coro [OF I1, where b = e and co = "newborn start arg stk"])
      (use w b N in \<open>auto simp: w1_def w2_def\<close>)
  have loc: "locals w2 = Map.empty" by (simp add: w2_def w1_def w(3))
  have cur: "current w2 k = None" for k by (simp add: current_def loc)
  have dl: "dlist (nodes w2) (Run_list l) []" by (simp add: dlist_def mem_simps w2_def w1_def N)
  have C: "coros w2 = coros w" "brk w2 = brk w" "nodes w2 = nodes w" by (simp_all add: w2_def w1_def)
  obtain m where m: "sched_enqueue_locked cfg l e w2 = Inr (w2\<lparr>nodes := m\<rparr>)"
    "queues_ok m (insert l (dom (locals w2))) (?rq(l := [e])) (dom (coros w2))"
    using enqueue_new_local [OF I2 _ dl, of e cfg] loc by (auto simp: C w queued_def)
  have run: "sched_enqueue_locked cfg l e w = Inr (w\<lparr>nodes := m\<rparr>)"
    using enqueue_nodes [OF m(1)] C(3) by metis
  have "sched_inv (?rq(l := [e])) (w\<lparr>nodes := m\<rparr>)"
    by (rule sched_inv_add_local [OF I2, where l = l and ls = ls and d = d and e = e])
      (use L b C cur loc m(2) w in \<open>auto simp: queued_def ready_def newborn_def state_of_def blank_def\<close>)
  with run show ?thesis by blast
qed

lemma init_preemption_ok:
  assumes "os_ok os"
  shows "\<exists>k. init_preemption os th w = Inr (w\<lparr>setup_signal_handler := True, kernel := k\<rparr>)"
  using platform_sched_init_ok [OF assms, of th "setup_signal_handler w" "kernel w"]
  by (auto simp: init_preemption_def)

text \<open>The invariant does not depend on the kernel, the signal handler or the platform timer.\<close>

lemma sched_inv_irrelevant:
  assumes "sched_inv rq w" "coros w' = coros w" "nodes w' = nodes w" "brk w' = brk w"
    and "locals w' = locals w \<or> (\<exists>ls. locals w l = Some ls \<and>
      locals w' = (locals w)(l \<mapsto> ls\<lparr>platform_sched_initialised := b\<rparr>))"
  shows "sched_inv rq w'"
proof -
  have "current w' = current w" "event_loop w' = event_loop w" "dom (locals w') = dom (locals w)"
    using assms(5) by (auto simp: current_def event_loop_def split: if_splits)
  moreover have "ready w' = ready w" "state_of w' = state_of w"
    using assms(2) by (auto simp: ready_def state_of_def)
  moreover have "\<forall>l ls. locals w' l = Some ls \<longrightarrow> preempt_lock ls = 0 \<and> \<not> ls_lock ls \<and>
        current_coro ls \<noteq> None \<and> event_loop_coro ls \<noteq> None"
    using assms(5) sched_invD(2,3,10,11) [OF assms(1)] by (auto split: if_splits)
  ultimately show ?thesis using assms(1-4) unfolding sched_inv_def by simp
qed

lemma init_before_preemption:
  assumes os: "os_ok os" and w: "lsched w th = None" "coros w = Map.empty" "locals w = Map.empty"
  obtains wf l d e g ls where "sched_init os cfg th w = (if cfg_preemption cfg then
      andthen (init_preemption os th wf) (\<lambda>w. set_local l (\<lambda>ls. ls\<lparr>platform_sched_initialised := True\<rparr>) w) else Inr wf)"
    "sched_inv ((\<lambda>_. [])(l := [e])) wf" "running wf th l d" "event_loop wf l = Some e" "e \<noteq> d" "gsched wf = Some g"
    "locals wf l = Some ls" "waits wf = waits w" "dom (coros wf) = {d, e}" "lsched wf = (lsched w)(th \<mapsto> l)"
    "local_schedulers g = Some l # replicate (local_size g - 1) None" "local_count g = 1" "0 < local_size g" "\<not> gs_lock g"
    "timer_heap g = empty_heap" "local_size g = snd (fst (os_sched_getaffinity os (kernel w)))"
proof -
  obtain n k where n: "platform_sched_cpu_count os (kernel w) = Inr (n, k)" "0 < n"
    "n = snd (fst (os_sched_getaffinity os (kernel w)))"
    using os by (auto simp: platform_sched_cpu_count_def os_ok_def case_prod_beta)
  define wa where "wa = w\<lparr>kernel := k\<rparr>"
  obtain p k1 where g: "sched_new_global os n wa = Inr (\<lparr>gs_poller = p, timer_heap = empty_heap,
      gs_lock = False, local_size = n, local_count = 0, local_schedulers = replicate n None\<rparr>,
      wa\<lparr>kernel := k1, brk := Suc (brk wa)\<rparr>)"
    using new_global_ok [OF os, of n wa] by (auto simp: empty_heap_def)
  let ?l = "Suc (brk w)" and ?d = "Suc (Suc (brk w))" and ?e = "Suc (Suc (Suc (brk w)))"
  let ?g = "\<lparr>gs_poller = p, timer_heap = empty_heap, gs_lock = False, local_size = n, local_count = 1,
      local_schedulers = (replicate n None)[0 := Some ?l]\<rparr>"
  let ?ls = "\<lparr>current_coro = Some ?d, event_loop_coro = Some ?e, preempt_lock = 0,
      ls_lock = False, platform_sched_initialised = False\<rparr>"
  define wg where "wg = wa\<lparr>kernel := k1, brk := Suc (brk wa)\<rparr>"
  have bg: "brk wg = ?l" "coros wg = coros w" "nodes wg = nodes w" "locals wg = locals w"
    "waits wg = waits w" "lsched wg = lsched w" by (simp_all add: wg_def wa_def)
  obtain wb where b: "sched_new_local os cfg wg = Inr (?l, wb)" "coros wb = (coros w)(?d \<mapsto> blank)"
    "nodes wb = (nodes w)(Run_list ?l \<mapsto> self_node (Run_list ?l),
      Inactive_list ?l \<mapsto> self_node (Inactive_list ?l), Coro_node ?d \<mapsto> null_node)"
    "locals wb = (locals w)(?l \<mapsto> ?ls\<lparr>event_loop_coro := None\<rparr>)" "brk wb = ?e"
    "waits wb = waits w" "lsched wb = lsched w"
    using new_local_ok [OF os, of cfg wg] by (auto simp: bg)
  define wc where "wc = wb\<lparr>gsched := Some ?g, lsched := (lsched wb)(th \<mapsto> ?l)\<rparr>"
  have bc: "brk wc = ?e" "coros wc = coros wb" "nodes wc = nodes wb" "locals wc = locals wb"
    by (simp_all add: wc_def b(5))
  obtain wd where c: "sched_make_coro os Sched_loop ?l wc = Inr (?e, wd)"
    "coros wd = (coros wb)(?e \<mapsto> newborn Sched_loop ?l (Suc ?e))"
    "nodes wd = (nodes wb)(Coro_node ?e \<mapsto> null_node)" "brk wd = ?e + 2" "locals wd = locals wb"
    "lsched wd = (lsched w)(th \<mapsto> ?l)" "gsched wd = Some ?g" "waits wd = waits w"
    using make_coro_ok [OF os, of Sched_loop ?l wc] unfolding bc(1) by (auto simp: bc wc_def b)
  define we where "we = wd\<lparr>locals := (locals w)(?l \<mapsto> ?ls)\<rparr>"
  obtain m where m: "sched_enqueue_locked cfg ?l ?e we = Inr (we\<lparr>nodes := m\<rparr>)"
    "sched_inv ((\<lambda>_. [])(?l := [?e])) (we\<lparr>nodes := m\<rparr>)"
    using init_worlds_inv [of we w ?d ?e Sched_loop ?l "Suc ?e" ?l "self_node (Inactive_list ?l)" ?ls cfg] w
    by (auto simp: we_def c b)
  let ?wf = "we\<lparr>nodes := m\<rparr>"
  have "set_local ?l (\<lambda>ls. ls\<lparr>event_loop_coro := Some ?e\<rparr>) wd = Inr we"
    by (simp add: access_simps we_def c(5) b(4))
  then have run: "sched_init os cfg th w = (if cfg_preemption cfg then
      andthen (init_preemption os th ?wf) (\<lambda>w. set_local ?l (\<lambda>ls. ls\<lparr>platform_sched_initialised := True\<rparr>) w)
      else Inr ?wf)"
    using w(1) n g(1) b(1) c(1) m(1)
    by (simp add: sched_init_def wa_def [symmetric] wg_def [symmetric] wc_def set_slot_def)
  have fin: "running ?wf th ?l ?d" "event_loop ?wf ?l = Some ?e" "gsched ?wf = Some ?g" "locals ?wf ?l = Some ?ls"
    "waits ?wf = waits w" "dom (coros ?wf) = {?d, ?e}" "lsched ?wf = (lsched w)(th \<mapsto> ?l)"
    by (simp_all add: running_def current_def event_loop_def we_def c b w(2) insert_commute)
  have sl: "local_schedulers ?g = Some ?l # replicate (local_size ?g - 1) None"
    using n(2) by (cases n) simp_all
  show thesis
    by (rule that [OF run m(2) fin(1,2) _ fin(3,4,5,6,7) sl]) (use n(2,3) in simp_all)
qed

lemma init_ok:
  assumes os: "os_ok os" and w: "lsched w th = None" "coros w = Map.empty" "locals w = Map.empty"
  shows "\<exists>w' l d e g. sched_init os cfg th w = Inr w' \<and> sched_inv ((\<lambda>_. [])(l := [e])) w' \<and>
    running w' th l d \<and> event_loop w' l = Some e \<and> e \<noteq> d \<and>
    gsched w' = Some g \<and> local_schedulers g = Some l # replicate (local_size g - 1) None \<and>
    local_count g = 1 \<and> 0 < local_size g \<and> \<not> gs_lock g \<and> timer_heap g = empty_heap \<and> waits w' = waits w \<and>
    dom (coros w') = {d, e} \<and> lsched w' = (lsched w)(th \<mapsto> l) \<and>
    local_size g = snd (fst (os_sched_getaffinity os (kernel w)))"
proof -
  obtain wf l d e g ls where run: "sched_init os cfg th w = (if cfg_preemption cfg then
      andthen (init_preemption os th wf) (\<lambda>w. set_local l (\<lambda>ls. ls\<lparr>platform_sched_initialised := True\<rparr>) w) else Inr wf)"
    and inv: "sched_inv ((\<lambda>_. [])(l := [e])) wf"
    and fin: "running wf th l d" "event_loop wf l = Some e" "e \<noteq> d" "gsched wf = Some g" "locals wf l = Some ls"
      "waits wf = waits w" "dom (coros wf) = {d, e}" "lsched wf = (lsched w)(th \<mapsto> l)"
    and g: "local_schedulers g = Some l # replicate (local_size g - 1) None" "local_count g = 1" "0 < local_size g" "\<not> gs_lock g"
      "timer_heap g = empty_heap" "local_size g = snd (fst (os_sched_getaffinity os (kernel w)))"
    using os w by (rule init_before_preemption [where cfg = cfg])
  show ?thesis
  proof (cases "cfg_preemption cfg")
    case False
    with run inv fin g show ?thesis by (intro exI [of _ wf] exI [of _ l] exI [of _ d] exI [of _ e] exI [of _ g]) simp
  next
    case True
    obtain k4 where "init_preemption os th wf = Inr (wf\<lparr>setup_signal_handler := True, kernel := k4\<rparr>)"
      using init_preemption_ok [OF os] by blast
    moreover define wh where "wh = wf\<lparr>setup_signal_handler := True, kernel := k4,
      locals := (locals wf)(l \<mapsto> ls\<lparr>platform_sched_initialised := True\<rparr>)\<rparr>"
    ultimately have "sched_init os cfg th w = Inr wh" using run True fin(5) by (simp add: access_simps)
    moreover have "sched_inv ((\<lambda>_. [])(l := [e])) wh"
      by (rule sched_inv_irrelevant [OF inv, where l = l and b = True]) (use fin(5) in \<open>simp_all add: wh_def\<close>)
    moreover have "running wh th l d" "event_loop wh l = Some e" "gsched wh = Some g" "waits wh = waits w"
      "dom (coros wh) = {d, e}" "lsched wh = (lsched w)(th \<mapsto> l)"
      using fin by (simp_all add: running_def current_def event_loop_def wh_def)
    ultimately show ?thesis using g fin(3)
      by (intro exI [of _ wh] exI [of _ l] exI [of _ d] exI [of _ e] exI [of _ g]) simp
  qed
qed

section \<open>New coroutines\<close>

lemma make_coro_inv:
  assumes os: "os_ok os" and I: "sched_inv rq w"
  obtains w1 where "sched_make_coro os start arg w = Inr (brk w, w1)" "sched_inv rq w1"
    "coros w1 = (coros w)(brk w \<mapsto> newborn start arg (Suc (brk w)))" "locals w1 = locals w"
    "lsched w1 = lsched w" "gsched w1 = gsched w" "spawned w1 = spawned w" "brk w1 = brk w + 2" "errno w1 = errno w"
    "waits w1 = waits w"
proof -
  obtain k where k: "sched_make_coro os start arg w = Inr (brk w, w\<lparr>
    coros := (coros w)(brk w \<mapsto> newborn start arg (Suc (brk w))),
    nodes := (nodes w)(Coro_node (brk w) \<mapsto> null_node), brk := brk w + 2, kernel := k\<rparr>)" (is "_ = Inr (_, ?w1)")
    using make_coro_ok [OF os] by blast
  have "x \<noteq> brk w" if "x \<in> dom (coros w)" for x using sched_invD(12) [OF I, of x] that by auto
  then have "sched_inv rq ?w1"
    by (intro sched_inv_add_coro [OF I, where b = "brk w" and co = "newborn start arg (Suc (brk w))"]) auto
  with k that show ?thesis by simp
qed

lemma fresh_not_in_use:
  assumes "sched_inv rq w" "brk w \<le> b"
  shows "b \<notin> dom (coros w)" "b \<notin> dom (locals w)" "\<not> queued rq b" "current w l \<noteq> Some b" "event_loop w l \<noteq> Some b"
proof -
  show b: "b \<notin> dom (coros w)" "b \<notin> dom (locals w)" using sched_invD(12) [OF assms(1), of b] assms(2) by auto
  then show q: "\<not> queued rq b" using queues_okD(3) [OF sched_invD(1) [OF assms(1)]] unfolding queued_def by blast
  show c: "current w l \<noteq> Some b" for l using sched_invD(4) [OF assms(1)] b by blast
  show "event_loop w l \<noteq> Some b" using sched_invD(7) [OF assms(1), of l b] c q unfolding queued_def by blast
qed

lemma new_coroutine_fast:
  assumes os: "os_ok os" and I: "sched_inv rq w" and R: "running w th l c0"
    and g: "gsched w = Some g" "local_count g \<ge> local_size g"
  shows "\<exists>w'. sched_new_coroutine os cfg th start arg w = Inr (brk w, w') \<and>
    sched_inv (rq(l := rq l @ [brk w])) w' \<and> state_of w' (brk w) = Some STATE_RUNNABLE \<and>
    locals w' = locals w \<and> lsched w' = lsched w \<and> spawned w' = spawned w \<and> gsched w' = gsched w \<and>
    errno w' = errno w \<and> waits w' = waits w \<and> dom (coros w') = insert (brk w) (dom (coros w)) \<and>
    (\<forall>y\<in>dom (coros w). coros w' y = coros w y)"
proof -
  obtain w1 where w1: "sched_make_coro os start arg w = Inr (brk w, w1)" "sched_inv rq w1"
    "coros w1 = (coros w)(brk w \<mapsto> newborn start arg (Suc (brk w)))" "locals w1 = locals w"
    "lsched w1 = lsched w" "gsched w1 = gsched w" "spawned w1 = spawned w" "errno w1 = errno w" "waits w1 = waits w"
    using os I by (rule make_coro_inv)
  from R obtain ls where l: "locals w l = Some ls" "lsched w th = Some l" by (rule running_local)
  have nl: "\<forall>k. event_loop w1 k \<noteq> Some (brk w)"
    using fresh_not_in_use(5) [OF I, of "brk w"] w1(4) by (simp add: event_loop_def)
  have st: "state_of w1 (brk w) = Some STATE_BLOCKED" "ready w1 (brk w)"
    by (simp_all add: state_of_def ready_def w1(3) newborn_def)
  obtain m where m: "sched_schedule os cfg th (brk w) w1 = Inr ((woken (brk w) w1)\<lparr>nodes := m\<rparr>)"
    "sched_inv (rq(l := rq l @ [brk w])) ((woken (brk w) w1)\<lparr>nodes := m\<rparr>)"
    using schedule_blocked [OF w1(2) _ _ st nl, of th l os cfg] l w1(4,5) by auto
  have "sched_new_coroutine os cfg th start arg w = Inr (brk w, (woken (brk w) w1)\<lparr>nodes := m\<rparr>)"
    using l(2) w1(1,6) g m(1) by (simp add: sched_new_coroutine_def deref_def Let_def)
  moreover have "\<forall>y\<in>dom (coros w). y \<noteq> brk w" using fresh_not_in_use(1) [OF I, of "brk w"] by auto
  then have "\<forall>y\<in>dom (coros w). coros ((woken (brk w) w1)\<lparr>nodes := m\<rparr>) y = coros w y" by (simp add: woken_def w1(3))
  ultimately show ?thesis
    using m(2) w1(3-9) by (simp add: state_of_def) (simp add: woken_def)
qed

text \<open>The memory of the new local scheduler and its thread's coroutine joins the world.\<close>

lemma new_local_inv:
  assumes os: "os_ok os" and I: "sched_inv rq w"
  obtains w1 where "sched_new_local os cfg w = Inr (brk w, w1)"
    "sched_inv rq (w1\<lparr>locals := locals w\<rparr>)" "dlist (nodes w1) (Run_list (brk w)) []"
    "coros w1 = (coros w)(Suc (brk w) \<mapsto> blank)"
    "locals w1 = (locals w)(brk w \<mapsto> \<lparr>current_coro = Some (Suc (brk w)), event_loop_coro = None, preempt_lock = 0,
      ls_lock = False, platform_sched_initialised = False\<rparr>)"
    "lsched w1 = lsched w" "gsched w1 = gsched w" "spawned w1 = spawned w" "brk w1 = brk w + 2" "errno w1 = errno w"
    "waits w1 = waits w"
proof -
  obtain w1 where w1: "sched_new_local os cfg w = Inr (brk w, w1)"
    "coros w1 = (coros w)(Suc (brk w) \<mapsto> blank)"
    "nodes w1 = (nodes w)(Run_list (brk w) \<mapsto> self_node (Run_list (brk w)),
      Inactive_list (brk w) \<mapsto> self_node (Inactive_list (brk w)), Coro_node (Suc (brk w)) \<mapsto> null_node)"
    "locals w1 = (locals w)(brk w \<mapsto> \<lparr>current_coro = Some (Suc (brk w)), event_loop_coro = None, preempt_lock = 0,
      ls_lock = False, platform_sched_initialised = False\<rparr>)" "brk w1 = brk w + 2"
    "lsched w1 = lsched w" "gsched w1 = gsched w" "spawned w1 = spawned w" "errno w1 = errno w" "waits w1 = waits w"
    using new_local_ok [OF os, of cfg w] by auto
  have fr: "Suc (brk w) \<notin> dom (coros w)" "brk w \<notin> dom (locals w)"
    using fresh_not_in_use(1) [OF I, of "Suc (brk w)"] fresh_not_in_use(2) [OF I, of "brk w"] by auto
  have "sched_inv rq (w1\<lparr>locals := locals w\<rparr>)"
    by (rule sched_inv_add_coro [OF I, where b = "Suc (brk w)" and co = blank])
      (use w1 fr in \<open>auto simp: dom_def\<close>)
  moreover have "dlist (nodes w1) (Run_list (brk w)) []" by (simp add: dlist_def mem_simps w1(3))
  ultimately show ?thesis using that w1 by blast
qed

lemma start_thread_ok:
  assumes "os_ok os" "locals w l = Some ls"
  shows "\<exists>k. sched_local_start_thread os l w = Inr (w\<lparr>locals := (locals w)(l \<mapsto> ls\<lparr>event_loop_coro := current_coro ls\<rparr>),
    spawned := spawned w @ [l], kernel := k\<rparr>)"
  using assms by (auto simp: sched_local_start_thread_def os_ok_def access_simps case_prod_beta Let_def)

lemma new_coroutine_slow:
  assumes os: "os_ok os" and I: "sched_inv rq w" and R: "running w th l c0"
    and g: "gsched w = Some g" "local_count g < local_size g" "local_size g < 2 ^ 32"
      "length (local_schedulers g) = local_size g"
  shows "\<exists>w' l' d. sched_new_coroutine os cfg th start arg w = Inr (brk w, w') \<and>
    sched_inv (rq(l' := [brk w])) w' \<and> l' \<notin> dom (locals w) \<and> state_of w' (brk w) = Some STATE_RUNNABLE \<and>
    current w' l' = Some d \<and> event_loop w' l' = Some d \<and> spawned w' = spawned w @ [l'] \<and>
    (\<forall>k\<in>dom (locals w). locals w' k = locals w k) \<and> lsched w' = lsched w \<and> errno w' = errno w \<and>
    waits w' = waits w \<and> dom (coros w') = insert d (insert (brk w) (dom (coros w))) \<and>
    (\<forall>y\<in>dom (coros w). coros w' y = coros w y) \<and> d \<notin> dom (coros w) \<and> dom (locals w') = insert l' (dom (locals w)) \<and>
    gsched w' = Some (g\<lparr>local_count := local_count g + 1,
      local_schedulers := (local_schedulers g)[local_count g := Some l']\<rparr>)"
proof -
  let ?c = "brk w" and ?l = "brk w + 2" and ?d = "Suc (brk w + 2)"
  obtain w1 where w1: "sched_make_coro os start arg w = Inr (?c, w1)" "sched_inv rq w1"
    "coros w1 = (coros w)(?c \<mapsto> newborn start arg (Suc ?c))" "locals w1 = locals w"
    "lsched w1 = lsched w" "gsched w1 = gsched w" "spawned w1 = spawned w" "brk w1 = ?l" "errno w1 = errno w"
    "waits w1 = waits w"
    using os I by (rule make_coro_inv)
  let ?g1 = "g\<lparr>local_count := local_count g + 1\<rparr>"
  define w2 where "w2 = w1\<lparr>gsched := Some ?g1\<rparr>"
  have I2: "sched_inv rq w2" by (rule sched_inv_irrelevant [OF w1(2)]) (simp_all add: w2_def)
  have b2: "brk w2 = ?l" "locals w2 = locals w" by (simp_all add: w2_def w1)
  obtain w3 where w3: "sched_new_local os cfg w2 = Inr (?l, w3)" "sched_inv rq (w3\<lparr>locals := locals w\<rparr>)"
    "dlist (nodes w3) (Run_list ?l) []" "coros w3 = (coros w1)(?d \<mapsto> blank)"
    "locals w3 = (locals w)(?l \<mapsto> \<lparr>current_coro = Some ?d, event_loop_coro = None, preempt_lock = 0,
      ls_lock = False, platform_sched_initialised = False\<rparr>)"
    "lsched w3 = lsched w" "gsched w3 = Some ?g1" "spawned w3 = spawned w" "brk w3 = ?l + 2" "errno w3 = errno w"
    "waits w3 = waits w"
    using new_local_inv [OF os I2, of cfg] unfolding b2 by (auto simp: w2_def w1)
  let ?g2 = "?g1\<lparr>local_schedulers := (local_schedulers g)[local_count g := Some ?l]\<rparr>"
  define w5 where "w5 = woken ?c (w3\<lparr>gsched := Some ?g2\<rparr>)"
  define v where "v = w5\<lparr>locals := locals w\<rparr>"
  have "v = woken ?c (w3\<lparr>gsched := Some ?g2, locals := locals w\<rparr>)" by (simp add: v_def w5_def woken_def)
  moreover have "sched_inv rq (w3\<lparr>gsched := Some ?g2, locals := locals w\<rparr>)"
    by (rule sched_inv_irrelevant [OF w3(2)]) simp_all
  ultimately have Iv: "sched_inv rq v" using woken_inv w3(4) w1(3) by fastforce
  have cv: "coros v = (coros w)(?c \<mapsto> (newborn start arg (Suc ?c))\<lparr>co_state := Some STATE_RUNNABLE\<rparr>, ?d \<mapsto> blank)"
    by (auto simp: v_def w5_def woken_def w3(4) w1(3))
  have fields: "locals v = locals w" "nodes v = nodes w3" "nodes w5 = nodes w3" "brk v = ?l + 2"
    "coros w5 = coros v" "brk w5 = ?l + 2"
    by (simp_all add: v_def w5_def w3)
  note fresh = fresh_not_in_use [OF I]
  have cur: "current v k = current w k" for k by (simp add: current_def fields)
  obtain m where m: "sched_enqueue_locked cfg ?l ?c v = Inr (v\<lparr>nodes := m\<rparr>)"
    "queues_ok m (insert ?l (dom (locals v))) (rq(?l := [?c])) (dom (coros v))"
    using enqueue_new_local [OF Iv, of ?l ?c cfg] fresh(2) [of ?l] fresh(3) [of ?c] w3(3) by (auto simp: fields cv)
  have enq: "sched_enqueue_locked cfg ?l ?c w5 = Inr (w5\<lparr>nodes := m\<rparr>)"
    using enqueue_nodes [OF m(1), of w5] by (simp add: fields)
  define ls where "ls = \<lparr>current_coro = Some ?d, event_loop_coro = Some ?d, preempt_lock = 0,
      ls_lock = False, platform_sched_initialised = False\<rparr>"
  obtain k where k: "sched_local_start_thread os ?l (w5\<lparr>nodes := m\<rparr>) = Inr (w5\<lparr>nodes := m,
      locals := (locals w)(?l \<mapsto> ls), spawned := spawned w @ [?l], kernel := k\<rparr>)" (is "_ = Inr ?w7")
    using start_thread_ok [OF os, of "w5\<lparr>nodes := m\<rparr>" ?l "ls\<lparr>event_loop_coro := None\<rparr>"]
    by (auto simp: w5_def w3 ls_def woken_def)
  have set: "set_coro ?c (\<lambda>co. co\<lparr>co_state := Some STATE_RUNNABLE\<rparr>) (w3\<lparr>gsched := Some ?g2\<rparr>) = Inr w5"
    by (simp add: access_simps w5_def woken_def w3(4) w1(3))
  have run: "sched_new_coroutine os cfg th start arg w = Inr (?c, ?w7)"
    using R w1(1,6) g w3(1,7) set enq k
    by (simp add: sched_new_coroutine_def running_def deref_def Let_def fetch_add_local_count_def
        w2_def [symmetric] set_slot_def del: add_2_eq_Suc' One_nat_def)
  have "sched_inv (rq(?l := [?c])) ?w7"
    by (rule sched_inv_add_local [OF Iv, where l = ?l and ls = ls and d = ?d and e = ?d])
      (use fresh m(2) in \<open>auto simp: fields cur cv ls_def ready_def newborn_def state_of_def blank_def
        STATE_RUNNABLE_def STATE_BLOCKED_def\<close>)
  moreover have "\<forall>y\<in>dom (coros w). y \<noteq> ?c \<and> y \<noteq> ?d" using fresh(1) [of ?c] fresh(1) [of ?d] by auto
  then have "\<forall>y\<in>dom (coros w). coros ?w7 y = coros w y" by (simp add: fields cv)
  moreover have "dom (coros ?w7) = insert ?d (insert ?c (dom (coros w)))" by (simp add: fields cv)
  ultimately show ?thesis using run fresh(2) [of ?l] fresh(1) [of ?d]
    by (intro exI [of _ ?w7] exI [of _ ?l] exI [of _ ?d])
      (simp add: current_def event_loop_def ls_def state_of_def w5_def woken_def w3 w1)
qed

end
