(* ===== verification/Scheduling.thy ===== *)
theory Scheduling
  imports Sched_Life
begin

text \<open>
  What the scheduler guarantees: round robin with private errno, sleeping and waking
  without losing a wake-up, creation, death and initialisation.
\<close>

section \<open>A running example\<close>

text \<open>
  Local scheduler 10 of thread 0 runs coroutine 1; its event loop 2 and coroutine 3 are
  queued; coroutine 4 sleeps. Local scheduler 20 of thread 7 runs its event loop 5.
\<close>

definition demo_coro :: "int \<Rightarrow> resume_point \<Rightarrow> int \<Rightarrow> coroutine" where
  "demo_coro st pc e = \<lparr>co_state = Some st, co_context = Some pc, co_stack = Some 99, co_errno = Some e,
     co_start = Some (User_fn 0), co_arg = Some 0\<rparr>"

definition demo_local :: "coro \<Rightarrow> coro \<Rightarrow> local_sched" where
  "demo_local c e = \<lparr>current_coro = Some c, event_loop_coro = Some e, preempt_lock = 0, ls_lock = False,
     platform_sched_initialised = True\<rparr>"

definition demo_queues :: "nat \<Rightarrow> coro list" where
  "demo_queues = (\<lambda>_. [])(10 := [2, 3])"

definition demo_nodes :: "node_addr memory" where
  "demo_nodes = [Run_list 10 \<mapsto> \<lparr>node_next = Some (Coro_node 2), node_prev = Some (Coro_node 3)\<rparr>,
     Coro_node 2 \<mapsto> \<lparr>node_next = Some (Coro_node 3), node_prev = Some (Run_list 10)\<rparr>,
     Coro_node 3 \<mapsto> \<lparr>node_next = Some (Run_list 10), node_prev = Some (Coro_node 2)\<rparr>,
     Run_list 20 \<mapsto> self_node (Run_list 20),
     Coro_node 1 \<mapsto> null_node, Coro_node 4 \<mapsto> null_node, Coro_node 5 \<mapsto> null_node]"

definition demo_world :: "int \<Rightarrow> unit world" where
  "demo_world st = \<lparr>
     coros = [1 \<mapsto> demo_coro st In_switch 11, 2 \<mapsto> demo_coro STATE_BLOCKED In_trampoline 12,
       3 \<mapsto> demo_coro STATE_RUNNABLE In_switch 13, 4 \<mapsto> demo_coro STATE_BLOCKED In_suspend 14,
       5 \<mapsto> demo_coro STATE_RUNNABLE In_switch 15],
     nodes = demo_nodes, locals = [10 \<mapsto> demo_local 1 2, 20 \<mapsto> demo_local 5 5], gsched = None,
     lsched = [0 \<mapsto> 10, 7 \<mapsto> 20], errno = \<lambda>_. 0, waits = Map.empty, brk = 100, setup_signal_handler = True,
     spawned = [20], kernel = ()\<rparr>"

definition demo_config :: config where
  "demo_config = \<lparr>cfg_debug = True, cfg_preemption = True, cfg_work_stealing = True\<rparr>"

lemma demo_queues_ok: "queues_ok demo_nodes {10, 20} demo_queues {1, 2, 3, 4, 5}"
  unfolding queues_ok_def
proof (intro conjI)
  show "\<forall>l\<in>{10, 20}. dlist demo_nodes (Run_list l) (map Coro_node (demo_queues l))"
    by (auto simp: demo_queues_def dlist_def demo_nodes_def mem_simps)
  show "\<forall>x\<in>{1, 2, 3, 4, 5}. (\<forall>l. x \<notin> set (demo_queues l)) \<longrightarrow> detached demo_nodes (Coro_node x)"
    by (simp add: demo_queues_def detached_def demo_nodes_def)
qed (auto simp: demo_queues_def)

lemma demo_inv: "st \<noteq> STATE_BLOCKED \<Longrightarrow> sched_inv demo_queues (demo_world st)"
proof -
  assume st: "st \<noteq> STATE_BLOCKED"
  have cur: "current (demo_world st) l = (if l = 10 then Some 1 else if l = 20 then Some 5 else None)"
    and loop: "event_loop (demo_world st) l = (if l = 10 then Some 2 else if l = 20 then Some 5 else None)" for l
    by (simp_all add: current_def event_loop_def demo_world_def demo_local_def)
  have q: "queued demo_queues x \<longleftrightarrow> x = 2 \<or> x = 3" for x
    by (auto simp: queued_def demo_queues_def split: if_splits)
  have dom: "dom (coros (demo_world st)) = {1, 2, 3, 4, 5}" "dom (locals (demo_world st)) = {10, 20}"
    by (auto simp: demo_world_def)
  show ?thesis
    unfolding sched_inv_def dom cur loop q
  proof (intro conjI)
    show "queues_ok (nodes (demo_world st)) {10, 20} demo_queues {1, 2, 3, 4, 5}"
      using demo_queues_ok by (simp add: demo_world_def)
    show "\<forall>l ls. locals (demo_world st) l = Some ls \<longrightarrow> preempt_lock ls = 0 \<and> \<not> ls_lock ls \<and>
        current_coro ls \<noteq> None \<and> event_loop_coro ls \<noteq> None"
      by (auto simp: demo_world_def demo_local_def split: if_splits)
    show "\<forall>x. x = 2 \<or> x = 3 \<longrightarrow> ready (demo_world st) x"
      by (auto simp: ready_def demo_world_def demo_coro_def)
    show "\<forall>x. state_of (demo_world st) x = Some STATE_BLOCKED \<longrightarrow>
        (x = 2 \<or> x = 3) \<or> (\<exists>l::nat. (if l = 10 then Some 1 else if l = 20 then Some 5 else None) = Some x) \<longrightarrow>
        (\<exists>l::nat. (if l = 10 then Some 2 else if l = 20 then Some 5 else None) = Some x)"
      using st by (auto simp: state_of_def demo_world_def demo_coro_def STATE_RUNNABLE_def STATE_BLOCKED_def
          split: if_splits intro: exI [of _ 10])
  qed (auto simp: demo_world_def demo_queues_def split: if_splits)
qed

lemma demo_running: "running (demo_world st) 0 10 1" "demo_queues 10 = [2, 3]" "event_loop (demo_world st) 10 = Some 2"
  by (simp_all add: running_def current_def event_loop_def demo_world_def demo_local_def demo_queues_def)

section \<open>Round robin\<close>

text \<open>The errno that coroutine \<open>y\<close> sees when it runs: the thread's while it runs, else the saved one.\<close>

definition own_errno :: "'k world \<Rightarrow> nat \<Rightarrow> nat \<Rightarrow> coro \<Rightarrow> int option" where
  "own_errno w th l y = (if current w l = Some y then Some (errno w th) else errno_of w y)"

lemma switched_view:
  assumes I: "sched_inv rq w" and R: "running w th l c" and q: "rq l = x # xs"
  shows "running (switched th l c x m w) th l x" "own_errno (switched th l c x m w) th l y = own_errno w th l y"
    "\<And>k. k \<noteq> l \<Longrightarrow> locals (switched th l c x m w) k = locals w k"
    "event_loop (switched th l c x m w) = event_loop w" "state_of (switched th l c x m w) y = state_of w y"
proof -
  from R obtain ls where l: "locals w l = Some ls" "current_coro ls = Some c" "lsched w th = Some l"
    by (rule running_local)
  note x = front_not_current [OF I R q]
  obtain cc where cc: "coros w c = Some cc" using x(4) by blast
  show "running (switched th l c x m w) th l x" using l by (simp add: running_def current_def switched_def)
  have "\<exists>e. errno_of w x = Some e" using x(3) by (auto simp: ready_def errno_of_def)
  then show "own_errno (switched th l c x m w) th l y = own_errno w th l y"
    using l x(1) by (auto simp: own_errno_def current_def switched_def errno_of_def)
  show "locals (switched th l c x m w) k = locals w k" if "k \<noteq> l" for k using that by (simp add: switched_def)
  show "event_loop (switched th l c x m w) = event_loop w" using l by (auto simp: event_loop_def switched_def)
  show "state_of (switched th l c x m w) y = state_of w y" using cc by (auto simp: state_of_def switched_def)
qed

text \<open>
  C3: Rescheduling puts the running coroutine at the back of its queue and runs the front
  one; every coroutine keeps its own errno, no coroutine's state and no other local
  scheduler changes, and the scheduler's invariant is kept.
\<close>

theorem sched_resched_round_robin:
  assumes "sched_inv rq w" "running w th l c" "rq l = x # xs"
  shows "\<exists>w'. sched_resched os cfg th w = Inr w' \<and> running w' th l x \<and>
    sched_inv (rq(l := xs @ [c])) w' \<and> (\<forall>y. own_errno w' th l y = own_errno w th l y) \<and>
    (\<forall>y. state_of w' y = state_of w y) \<and> (\<forall>k. k \<noteq> l \<longrightarrow> locals w' k = locals w k)"
  using resched_ok [OF assms, of os cfg] switched_view [OF assms] by blast

theorem sched_resched_round_robin_witness:
  "\<exists>w'. sched_resched (simple_os 1 \<lparr>tv_sec = 0, tv_nsec = 0\<rparr>) demo_config 0 (demo_world 1) = Inr w' \<and>
     running w' 0 10 2 \<and> sched_inv (demo_queues(10 := [3, 1])) w' \<and> own_errno w' 0 10 1 = Some 0"
proof -
  have "own_errno (demo_world 1) 0 10 1 = Some 0"
    by (simp add: own_errno_def current_def demo_world_def demo_local_def)
  with sched_resched_round_robin [OF demo_inv demo_running(1,2), of 1
      "simple_os 1 \<lparr>tv_sec = 0, tv_nsec = 0\<rparr>" demo_config]
  show ?thesis by (auto simp: STATE_BLOCKED_def)
qed

text \<open>\<open>n\<close> rescheduling calls in a row, each made by the coroutine that then runs.\<close>

primrec resched_times :: "'k os \<Rightarrow> config \<Rightarrow> nat \<Rightarrow> nat \<Rightarrow> 'k op" where
  "resched_times os cfg th 0 w = Inr w"
| "resched_times os cfg th (Suc n) w = andthen (sched_resched os cfg th w) (resched_times os cfg th n)"

lemma resched_turn:
  assumes "sched_inv rq w" "running w th l c"
  shows "\<exists>w'. sched_resched os cfg th w = Inr w' \<and> running w' th l (hd (rotate1 (c # rq l))) \<and>
    sched_inv (rq(l := tl (rotate1 (c # rq l)))) w' \<and> (\<forall>y. own_errno w' th l y = own_errno w th l y)"
proof (cases "rq l")
  case Nil
  then have "rq(l := []) = rq" by auto
  with resched_empty [OF assms Nil, of os cfg] assms Nil show ?thesis by auto
next
  case (Cons x xs)
  then show ?thesis using resched_ok [OF assms Cons, of os cfg] switched_view [OF assms Cons] by auto
qed

lemma resched_times_ok:
  "sched_inv rq w \<Longrightarrow> running w th l c \<Longrightarrow>
   \<exists>w'. resched_times os cfg th n w = Inr w' \<and> running w' th l (hd (rotate n (c # rq l))) \<and>
     sched_inv (rq(l := tl (rotate n (c # rq l)))) w' \<and> (\<forall>y. own_errno w' th l y = own_errno w th l y)"
proof (induction n arbitrary: rq w c)
  case 0
  then show ?case by simp
next
  case (Suc n)
  let ?r = "rotate1 (c # rq l)"
  obtain w1 where w1: "sched_resched os cfg th w = Inr w1" "running w1 th l (hd ?r)"
    "sched_inv (rq(l := tl ?r)) w1" "\<forall>y. own_errno w1 th l y = own_errno w th l y"
    using resched_turn [OF Suc.prems, of os cfg] by blast
  have r: "hd ?r # (rq(l := tl ?r)) l = ?r" by (simp add: hd_append)
  have rot: "rotate n ?r = rotate (Suc n) (c # rq l)" by (simp only: rotate_def funpow_Suc_right comp_apply)
  obtain w' where w': "resched_times os cfg th n w1 = Inr w'" "running w' th l (hd (rotate n ?r))"
    "sched_inv ((rq(l := tl ?r))(l := tl (rotate n ?r))) w'" "\<forall>y. own_errno w' th l y = own_errno w1 th l y"
    using Suc.IH [OF w1(3,2)] unfolding r by blast
  have "sched_inv (rq(l := tl (rotate (Suc n) (c # rq l)))) w'" using w'(3) unfolding fun_upd_upd rot .
  moreover have "resched_times os cfg th (Suc n) w = Inr w'" using w1(1) w'(1) by simp
  ultimately show ?case using w'(2,4) w1(4) unfolding rot by metis
qed

text \<open>
  C4: Fairness: over any number of rescheduling calls the coroutines of a queue run in a
  cycle, so with \<open>n\<close> coroutines each of them runs once in every \<open>n\<close> calls; errno is private
  to each of them throughout.
\<close>

theorem sched_resched_fair:
  assumes "sched_inv rq w" "running w th l c"
  shows "\<exists>w'. resched_times os cfg th n w = Inr w' \<and>
    running w' th l ((c # rq l) ! (n mod length (c # rq l))) \<and>
    sched_inv (rq(l := tl (rotate n (c # rq l)))) w' \<and> (\<forall>y. own_errno w' th l y = own_errno w th l y)"
  using resched_times_ok [OF assms, of os cfg n] hd_rotate_conv_nth [of "c # rq l" n] by simp

theorem sched_resched_fair_witness:
  "\<exists>w'. resched_times (simple_os 1 \<lparr>tv_sec = 0, tv_nsec = 0\<rparr>) demo_config 0 301 (demo_world 1) = Inr w' \<and>
     running w' 0 10 2"
proof -
  have "([1, 2, 3] :: nat list) ! (301 mod 3) = 2" by simp
  with sched_resched_fair [OF demo_inv demo_running(1), of 1 "simple_os 1 \<lparr>tv_sec = 0, tv_nsec = 0\<rparr>" demo_config 301]
  show ?thesis by (auto simp: STATE_BLOCKED_def demo_running(2))
qed

section \<open>Sleeping and waking\<close>

text \<open>
  C5: A coroutine that has announced it will block, and is not the event loop, always finds
  another one to run (its queue is never empty): it goes to sleep in state BLOCKED, on no
  queue, with its errno saved, the front coroutine runs with its own errno, and the
  invariant is kept.
\<close>

theorem sched_suspend_sleeps:
  assumes "sched_inv rq w" "running w th l c" "event_loop w l \<noteq> Some c"
    and "state_of w c = Some STATE_BLOCKING"
  shows "\<exists>x xs w'. rq l = x # xs \<and> sched_suspend os cfg th w = Inr w' \<and> running w' th l x \<and>
    state_of w' c = Some STATE_BLOCKED \<and> sched_inv (rq(l := xs)) w' \<and> \<not> queued (rq(l := xs)) c \<and>
    ready w' c \<and> errno_of w' c = Some (errno w th) \<and> Some (errno w' th) = errno_of w x"
proof -
  obtain x xs where q: "rq l = x # xs" using assms(1-3) by (rule queue_nonempty)
  from assms(2) obtain ls where l: "locals w l = Some ls" "current_coro ls = Some c" "lsched w th = Some l"
    by (rule running_local)
  note x = front_not_current [OF assms(1,2) q]
  obtain m where m: "sched_suspend os cfg th w = Inr (suspended th l c x m w)"
    "sched_inv (rq(l := xs)) (suspended th l c x m w)"
    using suspend_blocks [OF assms(1,2) q assms(3,4)] by blast
  have "running (suspended th l c x m w) th l x" using l by (simp add: running_def current_def suspended_def)
  moreover have "state_of (suspended th l c x m w) c = Some STATE_BLOCKED"
    "errno_of (suspended th l c x m w) c = Some (errno w th)" "ready (suspended th l c x m w) c"
    by (simp_all add: state_of_def errno_of_def ready_def suspended_def)
  moreover have "Some (errno (suspended th l c x m w) th) = errno_of w x"
    using x(3) by (auto simp: suspended_def ready_def errno_of_def)
  moreover have "\<not> queued (rq(l := xs)) c"
    using sched_invD(5) [OF assms(1), of l c] assms(2) q
    by (auto simp: running_def queued_def split: if_splits) (metis list.set_intros(2))
  ultimately show ?thesis using q m by blast
qed

theorem sched_suspend_sleeps_witness:
  "\<exists>x xs w'. demo_queues 10 = x # xs \<and>
     sched_suspend (simple_os 1 \<lparr>tv_sec = 0, tv_nsec = 0\<rparr>) demo_config 0 (demo_world STATE_BLOCKING) = Inr w' \<and>
     running w' 0 10 x \<and> state_of w' 1 = Some STATE_BLOCKED"
proof -
  have "STATE_BLOCKING \<noteq> STATE_BLOCKED" by (simp add: STATE_BLOCKING_def STATE_BLOCKED_def)
  moreover have "state_of (demo_world STATE_BLOCKING) 1 = Some STATE_BLOCKING"
    by (simp add: state_of_def demo_world_def demo_coro_def)
  ultimately show ?thesis
    using sched_suspend_sleeps [OF demo_inv demo_running(1), of STATE_BLOCKING
        "simple_os 1 \<lparr>tv_sec = 0, tv_nsec = 0\<rparr>" demo_config] demo_running(3)
    by fastforce
qed

text \<open>
  C6: No lost wake-up: when another thread wakes the coroutine after it has saved its context
  and dequeued its successor but before it is BLOCKED, the compare-and-exchange fails, the
  coroutine goes on running with its errno, it is RUNNABLE and on no queue, and the
  dequeued successor goes back on the queue (at its end).
\<close>

theorem sched_suspend_wakeup_race:
  assumes "sched_inv rq w" "running w th l c" "rq l = x # xs"
    and "state_of w c = Some STATE_BLOCKING" "lsched w th' = Some l'"
  shows "\<exists>w'. andthen (suspend_begin cfg th w) (\<lambda>((current, coro), w1).
      andthen (sched_schedule os cfg th' c w1) (suspend_commit cfg th current coro)) = Inr w' \<and>
    running w' th l c \<and> state_of w' c = Some STATE_RUNNABLE \<and> errno w' = errno w \<and> locals w' = locals w \<and>
    sched_inv (rq(l := xs @ [x])) w'"
proof -
  note x = front_not_current [OF assms(1-3)]
  obtain m where m: "suspend_begin cfg th w = Inr ((c, x), suspending cfg th l c x m w)"
    "queues_ok m (dom (locals w)) (rq(l := xs)) (dom (coros w))"
    using suspend_begin_ok [OF assms(1-3)] by blast
  let ?v = "woken c w" and ?s = "suspending cfg th l c x m w"
  have wake: "sched_schedule os cfg th' c ?s = Inr (woken c ?s)"
    using assms(4,5) x(4) schedule_awake [of ?s th' l' c STATE_BLOCKING os cfg]
    by (auto simp: suspending_def state_of_def STATE_BLOCKING_def STATE_BLOCKED_def)
  have swap: "woken c ?s = suspending cfg th l c x m ?v"
    using x(1) by (auto simp: suspending_def woken_def errno_of_def world_upd_order coro_upd_order)
  have v: "sched_inv rq ?v" "running ?v th l c" "dom (coros ?v) = dom (coros w)" "state_of ?v c = Some STATE_RUNNABLE"
    using woken_inv [OF assms(1) x(4)] assms(2) x(4) by (auto simp: running_def woken_def state_of_def current_def)
  obtain m' where m': "suspend_commit cfg th c x (suspending cfg th l c x m ?v) = Inr (not_suspended th l c m' ?v)"
    "queues_ok m' (dom (locals ?v)) (rq(l := xs @ [x])) (dom (coros ?v))"
    using suspending_returns [OF v(1,2) assms(3) v(4), of m cfg] m(2) v(3)
    by (auto simp: STATE_RUNNABLE_def STATE_BLOCKING_def)
  have "sched_inv (rq(l := xs @ [x])) (not_suspended th l c m' ?v)"
    using not_suspended_inv [OF v(1,2) assms(3) m'(2)] .
  moreover have "running (not_suspended th l c m' ?v) th l c" "locals (not_suspended th l c m' ?v) = locals w"
    "errno (not_suspended th l c m' ?v) = errno w" "state_of (not_suspended th l c m' ?v) c = Some STATE_RUNNABLE"
    using v(2,4) by (simp_all add: running_def current_def not_suspended_def state_of_def woken_def)
  ultimately show ?thesis using m(1) wake swap m'(1) by simp
qed

theorem sched_suspend_wakeup_race_witness:
  "\<exists>w'. andthen (suspend_begin demo_config 0 (demo_world STATE_BLOCKING)) (\<lambda>((current, coro), w1).
      andthen (sched_schedule (simple_os 1 \<lparr>tv_sec = 0, tv_nsec = 0\<rparr>) demo_config 7 1 w1)
        (suspend_commit demo_config 0 current coro)) = Inr w' \<and> running w' 0 10 1"
proof -
  have "STATE_BLOCKING \<noteq> STATE_BLOCKED" by (simp add: STATE_BLOCKING_def STATE_BLOCKED_def)
  moreover have "state_of (demo_world STATE_BLOCKING) 1 = Some STATE_BLOCKING" "lsched (demo_world STATE_BLOCKING) 7 = Some 20"
    by (simp_all add: state_of_def demo_world_def demo_coro_def)
  ultimately show ?thesis
    using sched_suspend_wakeup_race [OF demo_inv demo_running(1,2), of STATE_BLOCKING 7 20 demo_config
        "simple_os 1 \<lparr>tv_sec = 0, tv_nsec = 0\<rparr>"]
    by fastforce
qed

text \<open>
  \<^verbatim>\<open>sched_suspend\<close> called on its own, by a coroutine that was scheduled before and has not
  announced a wait, does not suspend: it returns to the caller with nothing changed
  but that the front of the run queue moved to its back, so an explicit
  \<^verbatim>\<open>sched_schedule\<close> is not what it waits for.
\<close>

theorem sched_suspend_needs_prepare:
  assumes "sched_inv rq w" "running w th l c" "rq l = x # xs" "state_of w c = Some STATE_RUNNABLE"
  shows "\<exists>w'. sched_suspend os cfg th w = Inr w' \<and> running w' th l c \<and> state_of w' c = Some STATE_RUNNABLE \<and>
    errno w' = errno w \<and> locals w' = locals w \<and> sched_inv (rq(l := xs @ [x])) w'"
proof -
  note x = front_not_current [OF assms(1-3)]
  obtain m where m: "sched_suspend os cfg th w = Inr (not_suspended th l c m w)"
    "sched_inv (rq(l := xs @ [x])) (not_suspended th l c m w)"
    using suspend_returns [OF assms] by (auto simp: STATE_RUNNABLE_def STATE_BLOCKING_def)
  have "running (not_suspended th l c m w) th l c" "state_of (not_suspended th l c m w) c = Some STATE_RUNNABLE"
    using assms(2,4) x(4) by (auto simp: running_def current_def not_suspended_def state_of_def)
  with m show ?thesis by (auto simp: not_suspended_def)
qed

theorem sched_suspend_needs_prepare_witness:
  "\<exists>w'. sched_suspend (simple_os 1 \<lparr>tv_sec = 0, tv_nsec = 0\<rparr>) demo_config 0 (demo_world STATE_RUNNABLE) = Inr w' \<and>
     running w' 0 10 1"
proof -
  have "STATE_RUNNABLE \<noteq> STATE_BLOCKED" by (simp add: STATE_RUNNABLE_def STATE_BLOCKED_def)
  moreover have "state_of (demo_world STATE_RUNNABLE) 1 = Some STATE_RUNNABLE"
    by (simp add: state_of_def demo_world_def demo_coro_def)
  ultimately show ?thesis
    using sched_suspend_needs_prepare [OF demo_inv demo_running(1,2), of STATE_RUNNABLE
        "simple_os 1 \<lparr>tv_sec = 0, tv_nsec = 0\<rparr>" demo_config]
    by fastforce
qed



section \<open>Life and death\<close>

text \<open>
  When a coroutine's function returns, the coroutine is freed and the front of the queue
  runs; the invariant is kept. The errno of the thread is not changed: the coroutine that
  runs next sees the errno of the dead one, not the errno saved for it.
\<close>

theorem sched_coro_die_leaks_errno:
  assumes "sched_inv rq w" "running w th l c" "event_loop w l \<noteq> Some c"
    and "coros w c = Some cc" "co_stack cc \<noteq> None"
  shows "\<exists>x xs w'. rq l = x # xs \<and> sched_coro_die cfg th w = Inr w' \<and> sched_inv (rq(l := xs)) w' \<and>
    running w' th l x \<and> coros w' c = None \<and> errno_of w' x = errno_of w x \<and> errno w' th = errno w th"
proof -
  obtain x xs where q: "rq l = x # xs" using assms(1-3) by (rule queue_nonempty)
  obtain m where m: "sched_coro_die cfg th w = Inr (buried l c x m w)" "sched_inv (rq(l := xs)) (buried l c x m w)"
    using die_ok [OF assms(1,2) q assms(3-5)] by blast
  have "running (buried l c x m w) th l x"
    using assms(2) by (simp add: running_def current_def buried_def)
  with q m front_not_current(1) [OF assms(1,2) q] show ?thesis
    by (auto simp: buried_def errno_of_def)
qed

theorem sched_coro_die_leaks_errno_witness:
  "\<exists>x xs w'. demo_queues 10 = x # xs \<and> sched_coro_die demo_config 0 (demo_world 1) = Inr w' \<and>
     running w' 0 10 x \<and> coros w' 1 = None \<and> errno_of w' 2 = Some 12 \<and> errno w' 0 = 0"
proof -
  have e: "errno_of (demo_world 1) 2 = Some 12" "errno (demo_world 1) 0 = 0"
    "coros (demo_world 1) 1 = Some (demo_coro 1 In_switch 11)" "co_stack (demo_coro 1 In_switch 11) \<noteq> None"
    by (simp_all add: errno_of_def demo_world_def demo_coro_def)
  have "sched_inv demo_queues (demo_world 1)" by (rule demo_inv) (simp add: STATE_BLOCKED_def)
  from sched_coro_die_leaks_errno [OF this demo_running(1) _ e(3,4), of demo_config] e(1,2) demo_running(2,3)
  show ?thesis by force
qed

text \<open>
  C8: Creating a coroutine. While there are fewer local schedulers than processors, the new
  coroutine gets a local scheduler, a thread and a slot of its own and is the only one on
  that queue, the thread's own coroutine being its event loop; afterwards, it joins the
  creator's queue. In both cases it is RUNNABLE on exactly one queue, the creator goes on
  running, and the invariant is kept.
\<close>

theorem sched_new_coroutine_placed:
  assumes "os_ok os" "sched_inv rq w" "running w th l c0" "gsched w = Some g"
    and "local_size g < 2 ^ 32" "length (local_schedulers g) = local_size g"
  shows "\<exists>c w' l'. sched_new_coroutine os cfg th start arg w = Inr (c, w') \<and> c \<notin> dom (coros w) \<and>
    running w' th l c0 \<and> errno w' = errno w \<and> state_of w' c = Some STATE_RUNNABLE \<and>
    (if local_count g < local_size g
     then sched_inv (rq(l' := [c])) w' \<and> l' \<notin> dom (locals w) \<and> spawned w' = spawned w @ [l'] \<and>
       event_loop w' l' = current w' l' \<and>
       gsched w' = Some (g\<lparr>local_count := local_count g + 1,
         local_schedulers := (local_schedulers g)[local_count g := Some l']\<rparr>)
     else sched_inv (rq(l := rq l @ [c])) w' \<and> spawned w' = spawned w \<and> gsched w' = gsched w)"
proof -
  have fresh: "brk w \<notin> dom (coros w)" using fresh_not_in_use(1) [OF assms(2)] by blast
  from assms(3) obtain ls where l: "locals w l = Some ls" "current_coro ls = Some c0" "lsched w th = Some l"
    by (rule running_local)
  show ?thesis
  proof (cases "local_count g < local_size g")
    case True
    obtain w' l' d where w': "sched_new_coroutine os cfg th start arg w = Inr (brk w, w')"
      "sched_inv (rq(l' := [brk w])) w'" "l' \<notin> dom (locals w)" "state_of w' (brk w) = Some STATE_RUNNABLE"
      "current w' l' = Some d" "event_loop w' l' = Some d" "spawned w' = spawned w @ [l']"
      "\<forall>k\<in>dom (locals w). locals w' k = locals w k" "lsched w' = lsched w" "errno w' = errno w"
      "gsched w' = Some (g\<lparr>local_count := local_count g + 1,
        local_schedulers := (local_schedulers g)[local_count g := Some l']\<rparr>)"
      using new_coroutine_slow [OF assms(1-4) True assms(5,6)] by blast
    moreover have "running w' th l c0" using l bspec [OF w'(8) domI [of "locals w", OF l(1)]] w'(9) by (auto simp: running_def current_def)
    ultimately show ?thesis using True fresh by (intro exI [of _ "brk w"] exI [of _ w'] exI [of _ l']) simp
  next
    case False
    then have "local_size g \<le> local_count g" by simp
    from new_coroutine_fast [OF assms(1-4) this] obtain w' where
      w': "sched_new_coroutine os cfg th start arg w = Inr (brk w, w')"
      "sched_inv (rq(l := rq l @ [brk w])) w'" "state_of w' (brk w) = Some STATE_RUNNABLE"
      "locals w' = locals w" "lsched w' = lsched w" "spawned w' = spawned w" "gsched w' = gsched w" "errno w' = errno w"
      by blast
    moreover have "running w' th l c0" using l w'(4,5) by (simp add: running_def current_def)
    ultimately show ?thesis using False fresh by (intro exI [of _ "brk w"] exI [of _ w']) simp
  qed
qed

definition demo_global :: "nat \<Rightarrow> nat \<Rightarrow> global_sched" where
  "demo_global n taken = \<lparr>gs_poller = \<lparr>epoll_fd = 3\<rparr>, timer_heap = snd (heap_init (\<lambda>_. True) timer_compare),
     gs_lock = False, local_size = n, local_count = taken, local_schedulers = replicate n None\<rparr>"

lemma demo_global_inv: "sched_inv demo_queues ((demo_world 1)\<lparr>gsched := Some g\<rparr>)"
  "running ((demo_world 1)\<lparr>gsched := Some g\<rparr>) 0 10 1"
proof -
  have "sched_inv demo_queues (demo_world 1)" by (rule demo_inv) (simp add: STATE_BLOCKED_def)
  then show "sched_inv demo_queues ((demo_world 1)\<lparr>gsched := Some g\<rparr>)"
    by (rule sched_inv_irrelevant) simp_all
  show "running ((demo_world 1)\<lparr>gsched := Some g\<rparr>) 0 10 1"
    using demo_running(1) [of 1] by (simp add: running_def current_def)
qed

theorem sched_new_coroutine_placed_witness:
  "\<exists>c w' l'. sched_new_coroutine (simple_os 1 \<lparr>tv_sec = 0, tv_nsec = 0\<rparr>) demo_config 0 (User_fn 5) 6
       ((demo_world 1)\<lparr>gsched := Some (demo_global 4 2)\<rparr>) = Inr (c, w') \<and>
     sched_inv (demo_queues(l' := [c])) w' \<and> running w' 0 10 1 \<and> state_of w' c = Some STATE_RUNNABLE"
proof -
  let ?w = "(demo_world 1)\<lparr>gsched := Some (demo_global 4 2)\<rparr>"
  have g: "gsched ?w = Some (demo_global 4 2)" "local_size (demo_global 4 2) = 4" "local_count (demo_global 4 2) = 2"
    "length (local_schedulers (demo_global 4 2)) = local_size (demo_global 4 2)"
    by (simp_all add: demo_global_def)
  then have "local_size (demo_global 4 2) < 2 ^ 32" by simp
  with sched_new_coroutine_placed [OF simple_os_ok demo_global_inv g(1) _ g(4),
      of 1 "\<lparr>tv_sec = 0, tv_nsec = 0\<rparr>" demo_config "User_fn 5" 6] g(2,3)
  show ?thesis by (simp only: zero_less_one simp_thms if_True) (auto simp del: One_nat_def)
qed

text \<open>
  C9: The first call of any thread of a fresh process initialises the scheduler: its main
  coroutine runs, the event loop is the only queued coroutine, the first of as many slots
  as there are processors is taken, no timer is set, and the invariant holds. Later calls
  of the thread return at once.
\<close>

theorem sched_init_establishes:
  assumes "os_ok os" "lsched w th = None" "coros w = Map.empty" "locals w = Map.empty"
  shows "\<exists>w' l d e g. sched_init os cfg th w = Inr w' \<and> sched_inv ((\<lambda>_. [])(l := [e])) w' \<and>
    running w' th l d \<and> event_loop w' l = Some e \<and> e \<noteq> d \<and> gsched w' = Some g \<and>
    local_schedulers g = Some l # replicate (local_size g - 1) None \<and> local_count g = 1 \<and>
    heap_empty (timer_heap g) \<and> sched_init os cfg th w' = Inr w'"
proof -
  obtain w' l d e g where "sched_init os cfg th w = Inr w'" "sched_inv ((\<lambda>_. [])(l := [e])) w'"
    "running w' th l d" "event_loop w' l = Some e" "e \<noteq> d" "gsched w' = Some g"
    "local_schedulers g = Some l # replicate (local_size g - 1) None" "local_count g = 1" "timer_heap g = empty_heap"
    using init_ok [OF assms, of cfg] by blast
  moreover from this(3) have "sched_init os cfg th w' = Inr w'" by (simp add: running_def)
  moreover have "heap_empty empty_heap" by (simp add: heap_empty_def empty_heap_def)
  ultimately show ?thesis by metis
qed

definition fresh_process :: "unit world" where
  "fresh_process = \<lparr>coros = Map.empty, nodes = Map.empty, locals = Map.empty, gsched = None, lsched = Map.empty,
     errno = \<lambda>_. 0, waits = Map.empty, brk = 1, setup_signal_handler = False, spawned = [], kernel = ()\<rparr>"

theorem sched_init_establishes_witness:
  "\<exists>w' l d e. sched_init (simple_os 4 \<lparr>tv_sec = 0, tv_nsec = 0\<rparr>) demo_config 0 fresh_process = Inr w' \<and>
     sched_inv ((\<lambda>_. [])(l := [e])) w' \<and> running w' 0 l d"
proof -
  have "os_ok (simple_os 4 \<lparr>tv_sec = 0, tv_nsec = 0\<rparr>)" by (rule simple_os_ok) simp
  from sched_init_establishes [OF this, of fresh_process 0 demo_config] show ?thesis
    by (auto simp: fresh_process_def)
qed

section \<open>The preemption window\<close>



end
