(* ===== verification/Locks.thy ===== *)
theory Locks
  imports Scheduling
begin

text \<open>
  \<^verbatim>\<open>src/platform/lock.h\<close>: the mutexes, over the pthread calls as parameters, mutual exclusion of the threads that
  use one, and how the lock flags of the scheduler's model stand for them.
\<close>

section \<open>The calls\<close>

text \<open>
  The calls on a mutex at an address; those that have an owner take the calling thread. \<^verbatim>\<open>pthread_mutex_lock\<close>
  returns nothing while it blocks.
\<close>

record 'k pthread_mutexes =
  pm_init :: "nat \<Rightarrow> 'k \<Rightarrow> int \<times> 'k"
  pm_lock :: "nat \<Rightarrow> nat \<Rightarrow> 'k \<Rightarrow> (int \<times> 'k) option"
  pm_trylock :: "nat \<Rightarrow> nat \<Rightarrow> 'k \<Rightarrow> int \<times> 'k"
  pm_unlock :: "nat \<Rightarrow> nat \<Rightarrow> 'k \<Rightarrow> int \<times> 'k"
  pm_destroy :: "nat \<Rightarrow> 'k \<Rightarrow> int \<times> 'k"

definition EBUSY :: int where "EBUSY = 16"

section \<open>The macros\<close>

definition lock_CHECK :: "int \<times> 'k \<Rightarrow> 'k res" where
  "lock_CHECK x = (let (result, k) = x in andthen (c_assert (result = 0)) (\<lambda>_. Inr k))"

definition mutex_init :: "'k pthread_mutexes \<Rightarrow> nat \<Rightarrow> 'k \<Rightarrow> 'k res" where
  "mutex_init pt m k = lock_CHECK (pm_init pt m k)"

definition mutex_lock :: "'k pthread_mutexes \<Rightarrow> nat \<Rightarrow> nat \<Rightarrow> 'k \<Rightarrow> 'k res" where
  "mutex_lock pt th m k = (case pm_lock pt th m k of None \<Rightarrow> Inl Deadlock | Some x \<Rightarrow> lock_CHECK x)"

definition mutex_unlock :: "'k pthread_mutexes \<Rightarrow> nat \<Rightarrow> nat \<Rightarrow> 'k \<Rightarrow> 'k res" where
  "mutex_unlock pt th m k = lock_CHECK (pm_unlock pt th m k)"

definition mutex_destroy :: "'k pthread_mutexes \<Rightarrow> nat \<Rightarrow> 'k \<Rightarrow> 'k res" where
  "mutex_destroy pt m k = lock_CHECK (pm_destroy pt m k)"

text \<open>The macro has a closing parenthesis too many; this is what it says without it.\<close>

definition mutex_trylock :: "'k pthread_mutexes \<Rightarrow> nat \<Rightarrow> nat \<Rightarrow> 'k \<Rightarrow> (bool \<times> 'k) res" where
  "mutex_trylock pt th m k =
     (let (result, k) = pm_trylock pt th m k in
      andthen (c_assert (result = 0 \<or> result = EBUSY)) (\<lambda>_. Inr (result = 0, k)))"

text \<open>The variant for Windows, whose calls return nothing but for the last.\<close>

record 'k critical_sections =
  cs_initialize :: "nat \<Rightarrow> 'k \<Rightarrow> 'k"
  cs_enter :: "nat \<Rightarrow> nat \<Rightarrow> 'k \<Rightarrow> 'k option"
  cs_try_enter :: "nat \<Rightarrow> nat \<Rightarrow> 'k \<Rightarrow> int \<times> 'k"
  cs_leave :: "nat \<Rightarrow> nat \<Rightarrow> 'k \<Rightarrow> 'k"
  cs_delete :: "nat \<Rightarrow> 'k \<Rightarrow> 'k"

definition mutex_init_windows :: "'k critical_sections \<Rightarrow> nat \<Rightarrow> 'k \<Rightarrow> 'k res" where
  "mutex_init_windows cs m k = Inr (cs_initialize cs m k)"

definition mutex_lock_windows :: "'k critical_sections \<Rightarrow> nat \<Rightarrow> nat \<Rightarrow> 'k \<Rightarrow> 'k res" where
  "mutex_lock_windows cs th m k = (case cs_enter cs th m k of None \<Rightarrow> Inl Deadlock | Some k' \<Rightarrow> Inr k')"

definition mutex_unlock_windows :: "'k critical_sections \<Rightarrow> nat \<Rightarrow> nat \<Rightarrow> 'k \<Rightarrow> 'k res" where
  "mutex_unlock_windows cs th m k = Inr (cs_leave cs th m k)"

definition mutex_destroy_windows :: "'k critical_sections \<Rightarrow> nat \<Rightarrow> 'k \<Rightarrow> 'k res" where
  "mutex_destroy_windows cs m k = Inr (cs_delete cs m k)"

definition mutex_trylock_windows :: "'k critical_sections \<Rightarrow> nat \<Rightarrow> nat \<Rightarrow> 'k \<Rightarrow> (bool \<times> 'k) res" where
  "mutex_trylock_windows cs th m k = (let (result, k) = cs_try_enter cs th m k in Inr (result = 1, k))"

section \<open>What pthreads promise\<close>

text \<open>
  \<open>owner k\<close> is the thread that holds the mutex \<open>m\<close>. A mutex with default attributes blocks also the
  thread that holds it.
\<close>

definition mutex_laws :: "'k pthread_mutexes \<Rightarrow> nat \<Rightarrow> ('k \<Rightarrow> nat option) \<Rightarrow> bool" where
  "mutex_laws pt m owner \<longleftrightarrow>
     (\<forall>k k'. pm_init pt m k = (0, k') \<longrightarrow> owner k' = None) \<and>
     (\<forall>th k. case owner k of
        None \<Rightarrow> (\<exists>k'. pm_lock pt th m k = Some (0, k') \<and> owner k' = Some th) \<and>
          (\<exists>k'. pm_trylock pt th m k = (0, k') \<and> owner k' = Some th) \<and> (\<exists>k'. pm_destroy pt m k = (0, k'))
      | Some t \<Rightarrow> pm_lock pt th m k = None \<and> (\<exists>k'. pm_trylock pt th m k = (EBUSY, k') \<and> owner k' = Some t) \<and>
          (t = th \<longrightarrow> (\<exists>k'. pm_unlock pt th m k = (0, k') \<and> owner k' = None)))"

lemma mutex_laws_free:
  assumes "mutex_laws pt m owner" "owner k = None"
  shows "\<exists>k'. mutex_lock pt th m k = Inr k' \<and> owner k' = Some th" "\<exists>k'. mutex_trylock pt th m k = Inr (True, k') \<and> owner k' = Some th"
    "\<exists>k'. mutex_destroy pt m k = Inr k'"
  using assms(1) [unfolded mutex_laws_def, THEN conjunct2, THEN spec [of _ th], THEN spec [of _ k]] assms(2)
  by (auto simp: mutex_lock_def mutex_trylock_def mutex_destroy_def lock_CHECK_def c_assert_def)

lemma mutex_laws_held:
  assumes "mutex_laws pt m owner" "owner k = Some t"
  shows "mutex_lock pt th m k = Inl Deadlock" "\<exists>k'. mutex_trylock pt th m k = Inr (False, k') \<and> owner k' = Some t"
    "th = t \<Longrightarrow> \<exists>k'. mutex_unlock pt th m k = Inr k' \<and> owner k' = None"
  using assms(1) [unfolded mutex_laws_def, THEN conjunct2, THEN spec [of _ th], THEN spec [of _ k]] assms(2)
  by (auto simp: mutex_lock_def mutex_trylock_def mutex_unlock_def lock_CHECK_def c_assert_def EBUSY_def)

lemma mutex_laws_init: "mutex_laws pt m owner \<Longrightarrow> mutex_init pt m k = Inr k' \<Longrightarrow> owner k' = None"
  by (auto simp: mutex_laws_def mutex_init_def lock_CHECK_def c_assert_def split: prod.splits if_splits)

section \<open>Mutual exclusion\<close>

text \<open>
  Threads that take the mutex, or try to, and that give it back when they have it, in any
  order; \<open>inside\<close> are those between the two.
\<close>

inductive lock_step :: "'k pthread_mutexes \<Rightarrow> nat \<Rightarrow> 'k \<times> nat set \<Rightarrow> 'k \<times> nat set \<Rightarrow> bool" for pt m where
  enter: "mutex_lock pt th m k = Inr k' \<Longrightarrow> lock_step pt m (k, inside) (k', insert th inside)"
| attempted: "mutex_trylock pt th m k = Inr (got, k') \<Longrightarrow> lock_step pt m (k, inside) (k', if got then insert th inside else inside)"
| leave: "th \<in> inside \<Longrightarrow> mutex_unlock pt th m k = Inr k' \<Longrightarrow> lock_step pt m (k, inside) (k', inside - {th})"

inductive lock_reachable :: "'k pthread_mutexes \<Rightarrow> nat \<Rightarrow> 'k \<times> nat set \<Rightarrow> bool" for pt m where
  start: "mutex_init pt m k = Inr k' \<Longrightarrow> lock_reachable pt m (k', {})"
| step: "lock_reachable pt m s \<Longrightarrow> lock_step pt m s s' \<Longrightarrow> lock_reachable pt m s'"

definition owner_inside :: "('k \<Rightarrow> nat option) \<Rightarrow> 'k \<times> nat set \<Rightarrow> bool" where
  "owner_inside owner s \<longleftrightarrow> snd s = set_option (owner (fst s))"

lemma lock_step_owner:
  assumes "mutex_laws pt m owner" "lock_step pt m s s'" "owner_inside owner s"
  shows "owner_inside owner s'"
  using assms(2)
proof cases
  case (enter th k k' inside)
  then have "owner k = None" using mutex_laws_held(1) [OF assms(1), of k] by (cases "owner k") auto
  with enter assms(3) mutex_laws_free(1) [OF assms(1), of k th] show ?thesis by (auto simp: owner_inside_def)
next
  case (attempted th k got k' inside)
  with assms(3) mutex_laws_free(2) [OF assms(1), of k th] mutex_laws_held(2) [OF assms(1), of k _ th] show ?thesis
    by (cases "owner k") (auto simp: owner_inside_def)
next
  case (leave th inside k k')
  with assms(3) mutex_laws_held(3) [OF assms(1), of k th th] show ?thesis by (auto simp: owner_inside_def)
qed

lemma lock_reachable_owner: "lock_reachable pt m s \<Longrightarrow> mutex_laws pt m owner \<Longrightarrow> owner_inside owner s"
proof (induction rule: lock_reachable.induct)
  case (start k k')
  then show ?case using mutex_laws_init [OF start(2,1)] by (simp add: owner_inside_def)
qed (rule lock_step_owner)

section \<open>The flags of the scheduler\<close>

text \<open>
  The scheduler's model keeps a flag for each lock, for the one thread whose operation runs.
  A lock of that kind, with \<open>held\<close> its flag where it exists:
\<close>

locale flag_lock =
  fixes held :: "'s \<Rightarrow> bool option" and lock :: "'s \<Rightarrow> 's res" and unlock :: "'s \<Rightarrow> 's res"
  assumes lock_free: "held s = Some False \<Longrightarrow> \<exists>s'. lock s = Inr s' \<and> held s' = Some True"
    and lock_held: "held s = Some True \<Longrightarrow> lock s = Inl Deadlock"
    and unlock_held: "held s = Some True \<Longrightarrow> \<exists>s'. unlock s = Inr s' \<and> held s' = Some False"
begin

text \<open>The flag is that of a mutex which no other thread holds.\<close>

definition stands_for :: "('k \<Rightarrow> nat option) \<Rightarrow> nat \<Rightarrow> 's \<Rightarrow> 'k \<Rightarrow> bool" where
  "stands_for owner th s k \<longleftrightarrow> held s = Some (owner k = Some th) \<and> owner k \<in> {None, Some th}"

lemma lock_simulates:
  assumes "mutex_laws pt m owner" "stands_for owner th s k"
  shows "case mutex_lock pt th m k of Inr k' \<Rightarrow> \<exists>s'. lock s = Inr s' \<and> stands_for owner th s' k' | Inl f \<Rightarrow> lock s = Inl f"
proof (cases "owner k")
  case None
  with assms(2) lock_free [of s] mutex_laws_free(1) [OF assms(1) None, of th] show ?thesis by (auto simp: stands_for_def)
next
  case (Some t)
  with assms(2) lock_held [of s] mutex_laws_held(1) [OF assms(1) Some, of th] show ?thesis by (auto simp: stands_for_def)
qed

lemma unlock_simulates:
  assumes "mutex_laws pt m owner" "stands_for owner th s k" "owner k = Some th"
  shows "\<exists>k' s'. mutex_unlock pt th m k = Inr k' \<and> unlock s = Inr s' \<and> stands_for owner th s' k'"
  using assms(2,3) unlock_held [of s] mutex_laws_held(3) [OF assms(1,3), of th] by (auto simp: stands_for_def)

end

definition global_flag :: "'k world \<Rightarrow> bool option" where
  "global_flag w = map_option gs_lock (gsched w)"

definition local_flag :: "nat \<Rightarrow> 'k world \<Rightarrow> bool option" where
  "local_flag l w = map_option ls_lock (locals w l)"

interpretation global_lock: flag_lock global_flag glock gunlock
  by unfold_locales (auto simp: global_flag_def glock_def gunlock_def deref_def)

interpretation local_lock: flag_lock "local_flag l" "slock (cfg\<lparr>cfg_work_stealing := True\<rparr>) l" "sunlock (cfg\<lparr>cfg_work_stealing := True\<rparr>) l"
  by unfold_locales (auto simp: local_flag_def slock_def sunlock_def set_local_def local_of_def)

section \<open>Properties\<close>


text \<open>A kernel that is the owner of its one mutex.\<close>

definition one_mutex :: "nat option pthread_mutexes" where
  "one_mutex = \<lparr>pm_init = \<lambda>m k. (0, None), pm_lock = \<lambda>th m k. (case k of None \<Rightarrow> Some (0, Some th) | Some _ \<Rightarrow> None),
     pm_trylock = \<lambda>th m k. (case k of None \<Rightarrow> (0, Some th) | Some t \<Rightarrow> (EBUSY, k)), pm_unlock = \<lambda>th m k. (0, None),
     pm_destroy = \<lambda>m k. (0, k)\<rparr>"

lemma one_mutex_laws: "mutex_laws one_mutex m (\<lambda>k. k)"
  by (auto simp: mutex_laws_def one_mutex_def split: option.split)



definition lockable_world :: "unit world" where
  "lockable_world = (demo_world STATE_RUNNABLE)\<lparr>gsched := Some \<lparr>gs_poller = \<lparr>epoll_fd = 3\<rparr>, timer_heap = empty_heap, gs_lock = False,
     local_size = 2, local_count = 2, local_schedulers = [Some 10, Some 20]\<rparr>\<rparr>"


end
