(* ===== verification/Event_Loop.thy ===== *)
theory Event_Loop
  imports Scheduling
begin

text \<open>
  Waiting for time and for file descriptors: the timer and event part of
  \<^verbatim>\<open>src/scheduler.c\<close>, the polling loop of \<^verbatim>\<open>src/platform/poll_epoll.c\<close> that calls back into it, and
  the event loop that drives both.
\<close>

section \<open>Timers\<close>

definition read_clock :: "'k os \<Rightarrow> 'k world \<Rightarrow> (timespec \<times> 'k world) res" where
  "read_clock os w =
     (let ((result, now), k) = os_clock_gettime os (kernel w) in
      andthen (c_assert (result = 0)) (\<lambda>_. Inr (now, w\<lparr>kernel := k\<rparr>)))"

text \<open>\<^verbatim>\<open>timer_expiration\<close> with its own reading of the clock.\<close>

definition expiration :: "'k os \<Rightarrow> timer_wait \<Rightarrow> 'k world \<Rightarrow> (int \<times> 'k world) res" where
  "expiration os t w =
     andthen (read_clock os w) (\<lambda>(now, w).
     andthen (timer_expiration now t) (\<lambda>ms. Inr (ms, w)))"

definition sched_poll_timeout :: "'k os \<Rightarrow> config \<Rightarrow> nat \<Rightarrow> 'k world \<Rightarrow> (int \<times> 'k world) res" where
  "sched_poll_timeout os cfg l w =
     andthen (list_empty (cfg_debug cfg) (nodes w) (Run_list l)) (\<lambda>empty.
     if \<not> empty then Inr (0, w)
     else
       andthen (deref (gsched w)) (\<lambda>g.
       andthen (heap_min (timer_heap g)) (\<lambda>timer.
       case timer of None \<Rightarrow> Inr (-1, w)
       | Some t \<Rightarrow> andthen (expiration os t w) (\<lambda>(e, w). Inr (if e < 0 then 0 else e, w)))))"

definition set_timer_heap :: "timer_wait heap \<Rightarrow> 'k op" where
  "set_timer_heap h w = andthen (deref (gsched w)) (\<lambda>g. Inr (w\<lparr>gsched := Some (g\<lparr>timer_heap := h\<rparr>)\<rparr>))"

text \<open>The allocator's answer to a resize of the heap, as the kernel state has it.\<close>

definition heap_alloc :: "'k os \<Rightarrow> 'k world \<Rightarrow> nat \<Rightarrow> bool" where
  "heap_alloc os w n = fst (os_malloc os n (kernel w))"

text \<open>
  The loop of \<^verbatim>\<open>sched_handle_timers\<close>. Every iteration but the last takes one timer off the heap, so
  one more iteration than there are timers is enough.
\<close>

primrec handle_timers_loop :: "nat \<Rightarrow> 'k os \<Rightarrow> config \<Rightarrow> nat \<Rightarrow> 'k op" where
  "handle_timers_loop 0 os cfg th w = Inl Diverged"
| "handle_timers_loop (Suc n) os cfg th w =
     andthen (deref (gsched w)) (\<lambda>g.
     if heap_empty (timer_heap g) then Inr w
     else
       andthen (glock w) (\<lambda>w.
       andthen (heap_min (timer_heap g)) (\<lambda>timer.
       case timer of None \<Rightarrow> gunlock w
       | Some t \<Rightarrow>
           andthen (expiration os t w) (\<lambda>(e, w).
           if e \<le> 0 then
             andthen (heap_pop_min (heap_alloc os w) (timer_heap g)) (\<lambda>(_, h).
             andthen (set_timer_heap h w) (\<lambda>w.
             andthen (sched_schedule os cfg th (tw_coro t) w) (\<lambda>w.
             andthen (gunlock w) (\<lambda>w.
             handle_timers_loop n os cfg th w))))
           else gunlock w))))"

definition sched_handle_timers :: "'k os \<Rightarrow> config \<Rightarrow> nat \<Rightarrow> 'k op" where
  "sched_handle_timers os cfg th w =
     andthen (deref (gsched w)) (\<lambda>g.
     handle_timers_loop (Suc (hp_items (timer_heap g))) os cfg th w)"

text \<open>
  \<^verbatim>\<open>sched_wait\<close>. The \<^verbatim>\<open>struct timer_wait\<close> and the time it points to are on the stack of the sleeping
  coroutine, which does not change them while it sleeps, so the heap holds their values.
\<close>

definition sched_wait :: "'k os \<Rightarrow> config \<Rightarrow> nat \<Rightarrow> timespec \<Rightarrow> 'k op" where
  "sched_wait os cfg th time w =
     andthen (sched_init os cfg th w) (\<lambda>w.
     andthen (deref (lsched w th)) (\<lambda>l.
     andthen (sched_get_current l w) (\<lambda>c.
     andthen (deref c) (\<lambda>c.
     andthen (sched_prepare_to_suspend th w) (\<lambda>w.
     andthen (glock w) (\<lambda>w.
     andthen (deref (gsched w)) (\<lambda>g.
     andthen (heap_push (heap_alloc os w) (timer_heap g) \<lparr>tw_time = time, tw_coro = c\<rparr>) (\<lambda>(result, h).
     andthen (set_timer_heap h w) (\<lambda>w.
     andthen (gunlock w) (\<lambda>w.
     andthen (c_assert (result = 0)) (\<lambda>_.
     sched_suspend os cfg th w)))))))))))"

section \<open>Events\<close>

text \<open>
  \<^verbatim>\<open>sched_event_wait\<close> until it suspends, and from where it is resumed. The key registered with
  the poller is the address of the \<^verbatim>\<open>struct event_wait\<close>, kept under the coroutine.
\<close>

definition event_wait_begin :: "'k os \<Rightarrow> config \<Rightarrow> nat \<Rightarrow> int \<Rightarrow> uint32 \<Rightarrow> 'k op" where
  "event_wait_begin os cfg th fd events w =
     andthen (sched_init os cfg th w) (\<lambda>w.
     andthen (deref (lsched w th)) (\<lambda>l.
     andthen (sched_get_current l w) (\<lambda>c.
     let wait = \<lparr>ew_fd = fd, ew_events = 0, ew_coro = c\<rparr> in
     andthen (deref c) (\<lambda>c.
     let w = w\<lparr>waits := (waits w)(c \<mapsto> wait)\<rparr> in
     andthen (sched_prepare_to_suspend th w) (\<lambda>w.
     andthen (deref (gsched w)) (\<lambda>g.
     let (result, k) = platform_poll_register os (gs_poller g) fd events c (kernel w) in
     andthen (c_assert (result = 0)) (\<lambda>_.
     sched_suspend os cfg th (w\<lparr>kernel := k\<rparr>))))))))"

definition event_wait_end :: "'k os \<Rightarrow> nat \<Rightarrow> 'k world \<Rightarrow> (uint32 \<times> 'k world) res" where
  "event_wait_end os th w =
     andthen (deref (lsched w th)) (\<lambda>l.
     andthen (sched_get_current l w) (\<lambda>c.
     andthen (deref c) (\<lambda>c.
     andthen (deref (waits w c)) (\<lambda>wait.
     andthen (deref (gsched w)) (\<lambda>g.
     let (result, k) = platform_poll_unregister os (gs_poller g) (ew_fd wait) (kernel w) in
     andthen (c_assert (result = 0)) (\<lambda>_.
     andthen (c_assert (ew_events wait \<noteq> 0)) (\<lambda>_.
     Inr (ew_events wait, w\<lparr>waits := (waits w)(c := None), kernel := k\<rparr>))))))))"

definition sched_poll_event :: "'k os \<Rightarrow> config \<Rightarrow> nat \<Rightarrow> nat \<Rightarrow> uint32 \<Rightarrow> 'k op" where
  "sched_poll_event os cfg th key revents w =
     (case waits w key of None \<Rightarrow> Inl Use_after_free
      | Some wait \<Rightarrow>
         let coro = ew_coro wait; wait = wait\<lparr>ew_coro := None\<rparr> in
         case coro of None \<Rightarrow> Inr (w\<lparr>waits := (waits w)(key \<mapsto> wait)\<rparr>)
         | Some c \<Rightarrow>
             sched_schedule os cfg th c
               (w\<lparr>waits := (waits w)(key \<mapsto> wait\<lparr>ew_events := revents\<rparr>)\<rparr>))"

section \<open>Polling\<close>

definition MAX_EVENTS :: nat where "MAX_EVENTS = 128"
definition EINTR :: int where "EINTR = 4"

primrec deliver_events :: "'k os \<Rightarrow> config \<Rightarrow> nat \<Rightarrow> epoll_event list \<Rightarrow> 'k op" where
  "deliver_events os cfg th [] w = Inr w"
| "deliver_events os cfg th (e # es) w =
     andthen (sched_poll_event os cfg th (ev_data e) (ev_events e) w) (deliver_events os cfg th es)"

text \<open>
  The loop of \<^verbatim>\<open>platform_poll_poll\<close>, which may go on for ever; the first argument bounds the number of
  \<^verbatim>\<open>epoll_wait\<close> calls, whose last parameter is an int.
\<close>

primrec platform_poll_poll ::
  "nat \<Rightarrow> 'k os \<Rightarrow> config \<Rightarrow> nat \<Rightarrow> poller \<Rightarrow> int \<Rightarrow> 'k world \<Rightarrow> (int \<times> 'k world) res" where
  "platform_poll_poll 0 os cfg th p timeout w = Inl Diverged"
| "platform_poll_poll (Suc n) os cfg th p timeout w =
     (let (r, k) = os_epoll_wait os (epoll_fd p) MAX_EVENTS (long_to_int timeout) (kernel w);
          w = w\<lparr>kernel := k\<rparr> in
      case r of
        Inl err \<Rightarrow>
          let w = w\<lparr>errno := (errno w)(th := err)\<rparr> in
          if err = EINTR then platform_poll_poll n os cfg th p timeout w else Inr (-1, w)
      | Inr events \<Rightarrow>
          andthen (deliver_events os cfg th events w) (\<lambda>w.
          if length events < MAX_EVENTS then Inr (0, w)
          else platform_poll_poll n os cfg th p timeout w))"

section \<open>The event loop\<close>

definition sched_loop_enter :: "'k os \<Rightarrow> config \<Rightarrow> nat \<Rightarrow> nat \<Rightarrow> 'k op" where
  "sched_loop_enter os cfg th l w =
     (let w = w\<lparr>lsched := (lsched w)(th \<mapsto> l)\<rparr> in
      if cfg_preemption cfg then
        andthen (local_of w l) (\<lambda>ls.
        if \<not> platform_sched_initialised ls then init_preemption os th w else Inr w)
      else Inr w)"

text \<open>One turn of the loop; \<open>n\<close> bounds the \<^verbatim>\<open>epoll_wait\<close> calls of the turn.\<close>

definition sched_loop_turn :: "nat \<Rightarrow> 'k os \<Rightarrow> config \<Rightarrow> nat \<Rightarrow> nat \<Rightarrow> 'k op" where
  "sched_loop_turn n os cfg th l w =
     andthen (sched_poll_timeout os cfg l w) (\<lambda>(timeout, w).
     andthen (deref (gsched w)) (\<lambda>g.
     andthen (platform_poll_poll n os cfg th (gs_poller g) timeout w) (\<lambda>(events, w).
     if events = -1 then Inl Exit_failure
     else
       andthen (sched_handle_timers os cfg th w) (\<lambda>w.
       if timeout = 0 then sched_resched os cfg th w else Inr w))))"

section \<open>The clock and the timers in the heap\<close>

definition clock :: "'k os \<Rightarrow> 'k \<Rightarrow> timespec" where
  "clock os k = snd (fst (os_clock_gettime os k))"

definition tick :: "'k os \<Rightarrow> 'k \<Rightarrow> 'k" where
  "tick os k = snd (os_clock_gettime os k)"

text \<open>The clock can be read, shows sane times, and is not set back.\<close>

definition clock_ok :: "'k os \<Rightarrow> bool" where
  "clock_ok os \<longleftrightarrow> (\<forall>k. fst (fst (os_clock_gettime os k)) = 0 \<and> sane_time (clock os k) \<and>
     nanos (clock os k) \<le> nanos (clock os (tick os k)))"

text \<open>A timer heap whose timers lie in a window of 68 years.\<close>

definition timers_ok :: "int \<Rightarrow> timer_wait heap \<Rightarrow> bool" where
  "timers_ok base h \<longleftrightarrow> heap_inv (timer_window base) h \<and> hp_compare h = timer_compare \<and> hp_items h \<le> 2 ^ 30 \<and>
     - (2 ^ 51) \<le> base \<and> base < 2 ^ 51"

text \<open>
  A heap whose block has the initial size. The block of such a heap is never resized by a pop, nor
  by a push while it has a free slot.
\<close>

definition heap_small :: "timer_wait heap \<Rightarrow> bool" where
  "heap_small h \<longleftrightarrow> heap_sized h \<and> hp_size h = INITIAL_SIZE"

lemma window_sane: "t \<in> timer_window base \<Longrightarrow> - (2 ^ 51) \<le> base \<Longrightarrow> base < 2 ^ 51 \<Longrightarrow> sane_time (tw_time t)"
  by (auto simp: timer_window_def sane_time_def)

lemma heap_bag_within: "heap_inv C h \<Longrightarrow> x \<in># heap_bag h \<Longrightarrow> x \<in> C"
  by (auto elim!: heap_invE simp: heap_bag_def within_def)

lemma earliest:
  assumes "timers_ok base h" "heap_min h = Inr (Some t)" "t \<in># heap_bag h"
    "\<forall>y\<in>#heap_bag h. hp_compare h t y \<le> 0" "y \<in># heap_bag h"
  shows "nanos (tw_time t) \<le> nanos (tw_time y)"
proof -
  have "t \<in> timer_window base" "y \<in> timer_window base" "timer_compare t y \<le> 0"
    using assms heap_bag_within [of "timer_window base" h] by (auto simp: timers_ok_def)
  from timer_compare_sgn [OF this(1,2)] this(3) show ?thesis by (auto simp: sgn_if split: if_splits)
qed

lemma timers_pop:
  assumes "timers_ok base h" "hp_items h \<noteq> 0"
  shows "\<exists>t h'. heap_pop_min alloc h = Inr (Some t, h') \<and> heap_min h = Inr (Some t) \<and> timers_ok base h' \<and>
    hp_items h' = hp_items h - 1 \<and> heap_bag h = add_mset t (heap_bag h') \<and>
    (\<forall>y\<in>#heap_bag h. nanos (tw_time t) \<le> nanos (tw_time y)) \<and> sane_time (tw_time t) \<and>
    (heap_small h \<longrightarrow> heap_small h')"
proof -
  have h: "heap_inv (timer_window base) h" "hp_items h \<le> 2 ^ 30" "hp_compare h = timer_compare" using assms(1) by (auto simp: timers_ok_def)
  obtain t h' where t: "heap_pop_min alloc h = Inr (Some t, h')" "heap_min h = Inr (Some t)"
    "heap_inv (timer_window base) h'" "hp_compare h' = hp_compare h" "hp_items h' = hp_items h - 1"
    "heap_bag h = add_mset t (heap_bag h')" "\<forall>y\<in>#heap_bag h. hp_compare h t y \<le> 0"
    using heap_pop_ok [OF h(1) assms(2) h(2), of alloc] by blast
  have "t \<in># heap_bag h" using t(6) by simp
  moreover have "sane_time (tw_time t)"
    using window_sane [of t base] heap_bag_within [OF h(1)] calculation assms(1) by (auto simp: timers_ok_def)
  moreover have "timers_ok base h'" using assms(1) t(3-5) by (auto simp: timers_ok_def)
  moreover have "heap_small h \<longrightarrow> heap_small h'" using heap_pop_keeps_block [OF t(1)] by (simp add: heap_small_def)
  ultimately show ?thesis using t earliest [OF assms(1) t(2)] by blast
qed

lemma expiration_ok:
  assumes "clock_ok os" "sane_time (tw_time t)"
  shows "\<exists>ms. expiration os t w = Inr (ms, w\<lparr>kernel := tick os (kernel w)\<rparr>) \<and>
    (nanos (tw_time t) \<le> nanos (clock os (kernel w)) \<longrightarrow> ms \<le> 0) \<and>
    (ms \<le> 0 \<longrightarrow> nanos (tw_time t) < nanos (clock os (kernel w)) + 1000000) \<and>
    \<bar>ms * 1000000 - (nanos (tw_time t) - nanos (clock os (kernel w)))\<bar> < 1000000"
proof -
  have c: "fst (fst (os_clock_gettime os (kernel w))) = 0" "sane_time (clock os (kernel w))"
    using assms(1) by (simp_all add: clock_ok_def)
  obtain ms where "timer_expiration (clock os (kernel w)) t = Inr ms"
    "\<bar>ms * 1000000 - (nanos (tw_time t) - nanos (clock os (kernel w)))\<bar> < 1000000"
    "nanos (tw_time t) - nanos (clock os (kernel w)) \<le> 0 \<longrightarrow> ms \<le> 0"
    "ms \<le> 0 \<longrightarrow> nanos (tw_time t) - nanos (clock os (kernel w)) < 1000000"
    using timer_expiration_near [OF c(2) assms(2)] by blast
  then show ?thesis using c(1)
    by (auto simp: expiration_def read_clock_def clock_def tick_def case_prod_beta Let_def)
qed

section \<open>Handling timers\<close>

text \<open>The coroutine of a timer sleeps.\<close>

definition asleep :: "'k world \<Rightarrow> coro \<Rightarrow> bool" where
  "asleep w c \<longleftrightarrow> state_of w c = Some STATE_BLOCKED \<and> ready w c \<and> (\<forall>k. event_loop w k \<noteq> Some c)"

lemma asleep_irrelevant: "coros w' = coros w \<Longrightarrow> locals w' = locals w \<Longrightarrow> asleep w' c = asleep w c"
  by (simp add: asleep_def state_of_def ready_def event_loop_def)

lemma asleep_woken: "asleep w c \<Longrightarrow> c \<noteq> d \<Longrightarrow> asleep (woken d w) c"
  by (simp add: asleep_def state_of_def ready_def) (simp add: woken_def)

text \<open>A registered wait: its coroutine, unless woken already, is asleep or about to be.\<close>

definition wait_ok :: "'k world \<Rightarrow> nat \<Rightarrow> bool" where
  "wait_ok w key \<longleftrightarrow> (\<exists>wt. waits w key = Some wt \<and>
     (ew_coro wt = None \<or> ew_coro wt = Some key \<and>
      (asleep w key \<or> (\<exists>s. state_of w key = Some s \<and> s \<noteq> STATE_BLOCKED))))"

lemma wait_ok_woken:
  assumes "wait_ok w key" "coros w' = coros (woken c w)" "locals w' = locals w"
    and "waits w' = waits w \<or> (\<exists>wt. waits w' = (waits w)(c \<mapsto> wt) \<and> ew_coro wt = None)" "c \<in> dom (coros w)"
  shows "wait_ok w' key"
proof (cases "key = c")
  case True
  have "state_of w' c = Some STATE_RUNNABLE" "STATE_RUNNABLE \<noteq> STATE_BLOCKED"
    using assms(2) by (simp_all add: state_of_def woken_def STATE_RUNNABLE_def STATE_BLOCKED_def)
  with assms(1,4) True show ?thesis unfolding wait_ok_def by (metis fun_upd_same)
next
  case False
  have "asleep w' key = asleep w key"
    using False assms(2,3) by (simp add: asleep_def state_of_def ready_def event_loop_def) (simp add: woken_def)
  moreover have "state_of w' key = state_of w key" using False assms(2) by (simp add: state_of_def woken_def)
  moreover have "waits w' key = waits w key" using False assms(4) by auto
  ultimately show ?thesis using assms(1) by (simp add: wait_ok_def)
qed

lemma wait_over_simps [simp]:
  "ew_coro (wt\<lparr>ew_coro := c, ew_events := e\<rparr>) = c" "ew_fd (wt\<lparr>ew_coro := c, ew_events := e\<rparr>) = ew_fd wt"
  "ew_events (wt\<lparr>ew_coro := c, ew_events := e\<rparr>) = e"
  by (cases wt, simp)+

lemma asleep_after_wake:
  assumes "coros w' = coros (woken c w)" "locals w' = locals w"
  shows "asleep w' d \<longleftrightarrow> asleep w d \<and> d \<noteq> c"
proof (cases "d = c")
  case True
  have "state_of w' c = Some STATE_RUNNABLE" using assms(1) by (simp add: state_of_def woken_def)
  with True show ?thesis by (auto simp: asleep_def STATE_RUNNABLE_def STATE_BLOCKED_def)
next
  case False
  then show ?thesis using assms by (simp add: asleep_def state_of_def ready_def event_loop_def) (simp add: woken_def)
qed

lemma asleep_live: "asleep w c \<Longrightarrow> c \<in> dom (coros w)"
  by (auto simp: asleep_def ready_def)

text \<open>
  The stronger form that holds while no coroutine is between announcing a wait and sleeping: a
  wait that is over has recorded its events, and the coroutine of any other sleeps.
\<close>

definition wait_held :: "'k world \<Rightarrow> nat \<Rightarrow> bool" where
  "wait_held w key \<longleftrightarrow> (\<forall>wt. waits w key = Some wt \<longrightarrow>
     (if asleep w key then ew_coro wt = Some key else ew_coro wt = None \<and> ew_events wt \<noteq> 0))"

lemma wait_held_irrelevant:
  "waits w' key = waits w key \<Longrightarrow> asleep w' key = asleep w key \<Longrightarrow> wait_held w key \<Longrightarrow> wait_held w' key"
  by (auto simp: wait_held_def)

text \<open>A wait whose event has come.\<close>

definition wait_over :: "'k world \<Rightarrow> nat \<Rightarrow> bool" where
  "wait_over w key \<longleftrightarrow> (\<exists>wt. waits w key = Some wt \<and> ew_coro wt = None)"

definition wait_fds :: "'k world \<Rightarrow> coro \<Rightarrow> int option" where
  "wait_fds w c = map_option ew_fd (waits w c)"

text \<open>What a world looks like after the sleeping coroutines \<open>cs\<close> were woken.\<close>

definition woke :: "'k world \<Rightarrow> coro list \<Rightarrow> 'k world \<Rightarrow> bool" where
  "woke w cs w' \<longleftrightarrow> locals w' = locals w \<and> lsched w' = lsched w \<and> errno w' = errno w \<and>
     dom (coros w') = dom (coros w) \<and> errno_of w' = errno_of w \<and> wait_fds w' = wait_fds w \<and>
     distinct cs \<and> (\<forall>c\<in>set cs. asleep w c) \<and> (\<forall>c. asleep w' c \<longleftrightarrow> asleep w c \<and> c \<notin> set cs) \<and>
     (\<forall>key. wait_ok w key \<longrightarrow> wait_ok w' key)"

lemma woke_refl: "woke w [] w"
  by (simp add: woke_def)

lemma woke_trans:
  assumes "woke w cs w1" "woke w1 ds w'"
  shows "woke w (cs @ ds) w'"
proof -
  have 1: "distinct cs" "\<forall>c\<in>set cs. asleep w c" "\<And>c. asleep w1 c \<longleftrightarrow> asleep w c \<and> c \<notin> set cs"
    and 2: "distinct ds" "\<forall>c\<in>set ds. asleep w1 c" "\<And>c. asleep w' c \<longleftrightarrow> asleep w1 c \<and> c \<notin> set ds"
    using assms unfolding woke_def by blast+
  have "distinct (cs @ ds)" "\<forall>c\<in>set (cs @ ds). asleep w c" "\<forall>c. asleep w' c \<longleftrightarrow> asleep w c \<and> c \<notin> set (cs @ ds)"
    using 1 2 by auto
  moreover have "\<forall>key. wait_ok w key \<longrightarrow> wait_ok w' key" using assms unfolding woke_def by blast
  ultimately show ?thesis using assms by (simp add: woke_def)
qed

lemma errno_of_woken: "errno_of (woken c w) = errno_of w" if "c \<in> dom (coros w)"
  using that by (auto simp: errno_of_def woken_def fun_eq_iff)

lemma woke_one:
  assumes "asleep w c" "coros w' = coros (woken c w)" "locals w' = locals w" "lsched w' = lsched w" "errno w' = errno w"
    and waits: "waits w' = waits w \<or>
      (\<exists>wt0 wt. waits w c = Some wt0 \<and> waits w' = (waits w)(c \<mapsto> wt) \<and> ew_coro wt = None \<and> ew_fd wt = ew_fd wt0)"
  shows "woke w [c] w'"
proof -
  have live: "c \<in> dom (coros w)" by (rule asleep_live [OF assms(1)])
  have "wait_ok w' k" if "wait_ok w k" for k
    by (rule wait_ok_woken [OF that assms(2,3) _ live]) (use waits in auto)
  moreover have "wait_fds w' = wait_fds w" using waits by (auto simp: wait_fds_def fun_eq_iff)
  moreover have "errno_of w' = errno_of w" using errno_of_woken [OF live] assms(2) by (simp add: errno_of_def fun_eq_iff)
  moreover have "dom (coros w') = dom (coros w)" using live assms(2) by (auto simp: woken_def)
  ultimately show ?thesis using assms asleep_after_wake [OF assms(2,3)] by (simp add: woke_def)
qed

lemma woke_irrelevant:
  assumes "woke w cs v" "coros w' = coros v" "locals w' = locals v" "lsched w' = lsched v" "errno w' = errno v" "waits w' = waits v"
  shows "woke w cs w'"
proof -
  have "errno_of w' = errno_of v" "wait_fds w' = wait_fds v" "state_of w' = state_of v"
    by (rule ext, simp add: errno_of_def wait_fds_def state_of_def assms)+
  moreover have "wait_ok w' = wait_ok v"
    by (rule ext) (simp add: wait_ok_def assms(6) calculation asleep_irrelevant [OF assms(2,3)])
  ultimately show ?thesis using assms asleep_irrelevant [OF assms(2,3)] by (simp add: woke_def)
qed

text \<open>One iteration of the loop, when the earliest timer is due and when it is not.\<close>

lemma timers_iteration:
  assumes os: "clock_ok os" and I: "sched_inv rq w" and l: "lsched w th = Some l" "l \<in> dom (locals w)"
    and g: "gsched w = Some g" "\<not> gs_lock g" "timers_ok base (timer_heap g)" "hp_items (timer_heap g) \<noteq> 0"
    and sleep: "\<forall>t\<in>#heap_bag (timer_heap g). asleep w (tw_coro t)"
  obtains (stop) "handle_timers_loop (Suc n) os cfg th w = Inr (w\<lparr>kernel := tick os (kernel w)\<rparr>)"
      "\<forall>y\<in>#heap_bag (timer_heap g). nanos (clock os (kernel w)) < nanos (tw_time y)"
  | (wake) t h' w1 where "handle_timers_loop (Suc n) os cfg th w = handle_timers_loop n os cfg th w1"
      "sched_inv (rq(l := rq l @ [tw_coro t])) w1" "woke w [tw_coro t] w1" "kernel w1 = tick os (kernel w)" "waits w1 = waits w"
      "gsched w1 = Some (g\<lparr>timer_heap := h'\<rparr>)" "heap_small (timer_heap g) \<longrightarrow> heap_small h'" "timers_ok base h'"
      "hp_items h' = hp_items (timer_heap g) - 1" "heap_bag (timer_heap g) = add_mset t (heap_bag h')"
      "\<forall>y\<in>#heap_bag (timer_heap g). nanos (tw_time t) \<le> nanos (tw_time y)"
      "nanos (tw_time t) < nanos (clock os (kernel w)) + 1000000"
proof -
  let ?h = "timer_heap g" and ?g1 = "g\<lparr>gs_lock := True\<rparr>"
  let ?w1 = "w\<lparr>gsched := Some ?g1, kernel := tick os (kernel w)\<rparr>"
  obtain t h' where t: "heap_pop_min (heap_alloc os ?w1) ?h = Inr (Some t, h')" "heap_min ?h = Inr (Some t)"
    "timers_ok base h'" "hp_items h' = hp_items ?h - 1" "heap_bag ?h = add_mset t (heap_bag h')"
    "\<forall>y\<in>#heap_bag ?h. nanos (tw_time t) \<le> nanos (tw_time y)" "sane_time (tw_time t)"
    "heap_small ?h \<longrightarrow> heap_small h'"
    using timers_pop [OF g(3,4)] by blast
  obtain ms where ms: "expiration os t (w\<lparr>gsched := Some ?g1\<rparr>) = Inr (ms, ?w1)"
    "nanos (tw_time t) \<le> nanos (clock os (kernel w)) \<longrightarrow> ms \<le> 0"
    "ms \<le> 0 \<longrightarrow> nanos (tw_time t) < nanos (clock os (kernel w)) + 1000000"
    using expiration_ok [OF os t(7), of "w\<lparr>gsched := Some ?g1\<rparr>"] by auto
  have lk: "g\<lparr>gs_lock := False\<rparr> = g" "g\<lparr>timer_heap := x, gs_lock := False\<rparr> = g\<lparr>timer_heap := x\<rparr>" for x
    using g(2) by (cases g, simp)+
  have gs: "w\<lparr>gsched := Some g\<rparr> = w" using g(1) by (cases w) simp
  show thesis
  proof (cases "ms \<le> 0")
    case False
    then have "handle_timers_loop (Suc n) os cfg th w = Inr (w\<lparr>kernel := tick os (kernel w)\<rparr>)"
      using g ms(1) t(2) lk gs by (simp add: heap_empty_def glock_def gunlock_def deref_def)
    moreover have "\<forall>y\<in>#heap_bag ?h. nanos (clock os (kernel w)) < nanos (tw_time y)"
      using False ms(2) t(6) by force
    ultimately show thesis by (rule stop)
  next
    case True
    let ?c = "tw_coro t"
    define w2 where "w2 = ?w1\<lparr>gsched := Some (?g1\<lparr>timer_heap := h'\<rparr>)\<rparr>"
    have I2: "sched_inv rq w2" by (rule sched_inv_irrelevant [OF I]) (simp_all add: w2_def)
    have "asleep w2 ?c" using sleep t(5) asleep_irrelevant [of w2 w] by (simp add: w2_def)
    then obtain m where m: "sched_schedule os cfg th ?c w2 = Inr ((woken ?c w2)\<lparr>nodes := m\<rparr>)"
      "sched_inv (rq(l := rq l @ [?c])) ((woken ?c w2)\<lparr>nodes := m\<rparr>)"
      using schedule_blocked [OF I2, of th l ?c os cfg] l by (auto simp: asleep_def w2_def)
    define w3 where "w3 = (woken ?c w2)\<lparr>nodes := m, gsched := Some (g\<lparr>timer_heap := h'\<rparr>)\<rparr>"
    have "handle_timers_loop (Suc n) os cfg th w = andthen (sched_schedule os cfg th ?c w2)
        (\<lambda>w. andthen (gunlock w) (handle_timers_loop n os cfg th))"
      using g ms(1) t(1,2) True
      by (simp add: heap_empty_def glock_def deref_def set_timer_heap_def w2_def)
    also have "\<dots> = handle_timers_loop n os cfg th w3"
      using lk unfolding m(1) by (simp add: gunlock_def deref_def w3_def w2_def)
    finally have run: "handle_timers_loop (Suc n) os cfg th w = handle_timers_loop n os cfg th w3" .
    have "sched_inv (rq(l := rq l @ [?c])) w3" by (rule sched_inv_irrelevant [OF m(2)]) (simp_all add: w3_def)
    moreover have "woke w [?c] w3"
      by (rule woke_one) (use sleep t(5) in \<open>simp_all add: w3_def w2_def woken_def\<close>)
    ultimately show thesis using run True ms(3) t(3-6,8)
      by (intro wake [of w3 t h']) (simp_all add: w3_def w2_def)
  qed
qed

text \<open>Each sleeping coroutine has one timer.\<close>

definition one_timer_each :: "timer_wait multiset \<Rightarrow> bool" where
  "one_timer_each H \<longleftrightarrow> (\<forall>c. count (image_mset tw_coro H) c \<le> 1)"

lemma one_timer_remove:
  assumes "one_timer_each (add_mset t H)"
  shows "one_timer_each H" "y \<in># H \<Longrightarrow> tw_coro y \<noteq> tw_coro t"
proof -
  have "count (image_mset tw_coro H) c \<le> 1" for c
    using assms unfolding one_timer_each_def by (metis count_add_mset image_mset_add_mset le_SucI Suc_leD)
  then show "one_timer_each H" by (simp add: one_timer_each_def)
  show "tw_coro y \<noteq> tw_coro t" if y: "y \<in># H"
  proof
    assume "tw_coro y = tw_coro t"
    then have "tw_coro t \<in> tw_coro ` set_mset H" using y by (metis imageI)
    then have "tw_coro t \<in># image_mset tw_coro H" by simp
    then have "count (image_mset tw_coro (add_mset t H)) (tw_coro t) \<ge> 2"
      by (simp add: Suc_le_eq)
    with assms show False unfolding one_timer_each_def by (metis Suc_1 Suc_n_not_le_n le_trans)
  qed
qed

text \<open>
  What a timer pass does: the coroutines of the due timers \<open>ts\<close>, earliest first, join the run queue of \<open>l\<close>, and the
  timers that are left in \<open>h'\<close> are in the future.
\<close>

definition timer_pass ::
  "'k os \<Rightarrow> int \<Rightarrow> (nat \<Rightarrow> coro list) \<Rightarrow> nat \<Rightarrow> 'k world \<Rightarrow> global_sched \<Rightarrow> timer_wait list \<Rightarrow> timer_wait heap \<Rightarrow> 'k world \<Rightarrow> bool" where
  "timer_pass os base rq l w g ts h' w' \<longleftrightarrow> sched_inv (rq(l := rq l @ map tw_coro ts)) w' \<and>
     gsched w' = Some (g\<lparr>timer_heap := h'\<rparr>) \<and> timers_ok base h' \<and> heap_bag (timer_heap g) = mset ts + heap_bag h' \<and>
     sorted_wrt (\<lambda>s t. nanos (tw_time s) \<le> nanos (tw_time t)) ts \<and>
     (\<forall>t\<in>#heap_bag h'. nanos (clock os (kernel w)) < nanos (tw_time t)) \<and>
     (\<forall>t\<in>set ts. nanos (tw_time t) < nanos (clock os (kernel w')) + 1000000) \<and>
     nanos (clock os (kernel w)) \<le> nanos (clock os (kernel w')) \<and>
     woke w (map tw_coro ts) w' \<and> waits w' = waits w \<and> (heap_small (timer_heap g) \<longrightarrow> heap_small h')"

lemma timer_pass_end:
  assumes "sched_inv rq w" "gsched w = Some g" "timers_ok base (timer_heap g)"
    and "\<forall>t\<in>#heap_bag (timer_heap g). nanos (clock os (kernel w)) < nanos (tw_time t)"
    and "w' = w\<lparr>kernel := k\<rparr>" "nanos (clock os (kernel w)) \<le> nanos (clock os k)"
  shows "timer_pass os base rq l w g [] (timer_heap g) w'"
  using assms sched_inv_irrelevant [OF assms(1), of w'] woke_irrelevant [OF woke_refl, of w' w] by (simp add: timer_pass_def)

lemma timer_pass_wake:
  assumes first: "sched_inv (rq(l := rq l @ [tw_coro t])) w1" "woke w [tw_coro t] w1" "waits w1 = waits w"
      "heap_small (timer_heap g) \<longrightarrow> heap_small h'" "nanos (clock os (kernel w)) \<le> nanos (clock os (kernel w1))"
    and bag: "heap_bag (timer_heap g) = add_mset t (heap_bag h')"
    and least: "\<forall>y\<in>#heap_bag (timer_heap g). nanos (tw_time t) \<le> nanos (tw_time y)"
    and due: "nanos (tw_time t) < nanos (clock os (kernel w)) + 1000000"
    and rest: "timer_pass os base (rq(l := rq l @ [tw_coro t])) l w1 (g\<lparr>timer_heap := h'\<rparr>) ts h2 w'"
  shows "timer_pass os base rq l w g (t # ts) h2 w'"
proof -
  have r: "heap_bag h' = mset ts + heap_bag h2" "\<forall>t\<in>#heap_bag h2. nanos (clock os (kernel w1)) < nanos (tw_time t)"
    "\<forall>t\<in>set ts. nanos (tw_time t) < nanos (clock os (kernel w')) + 1000000"
    "nanos (clock os (kernel w1)) \<le> nanos (clock os (kernel w'))" "woke w1 (map tw_coro ts) w'"
    using rest by (simp_all add: timer_pass_def)
  have "woke w (map tw_coro (t # ts)) w'" using woke_trans [OF first(2) r(5)] by simp
  moreover have "\<forall>s\<in>set ts. nanos (tw_time t) \<le> nanos (tw_time s)" using bag least r(1) by auto
  moreover have "\<forall>s\<in>set (t # ts). nanos (tw_time s) < nanos (clock os (kernel w')) + 1000000"
    using r(3,4) due first(5) by auto
  moreover have "\<forall>t\<in>#heap_bag h2. nanos (clock os (kernel w)) < nanos (tw_time t)" using r(2) first(5) by force
  ultimately show ?thesis using rest first bag by (simp add: timer_pass_def)
qed

lemma handle_timers_loop_ok:
  assumes os: "clock_ok os"
  shows "sched_inv rq w \<Longrightarrow> lsched w th = Some l \<Longrightarrow> l \<in> dom (locals w) \<Longrightarrow> gsched w = Some g \<Longrightarrow> \<not> gs_lock g \<Longrightarrow>
    timers_ok base (timer_heap g) \<Longrightarrow> hp_items (timer_heap g) < n \<Longrightarrow>
    (\<forall>t\<in>#heap_bag (timer_heap g). asleep w (tw_coro t)) \<Longrightarrow> one_timer_each (heap_bag (timer_heap g)) \<Longrightarrow>
    \<exists>w' ts h'. handle_timers_loop n os cfg th w = Inr w' \<and> timer_pass os base rq l w g ts h' w'"
proof (induction n arbitrary: rq w g)
  case 0
  then show ?case by simp
next
  case (Suc n)
  note I = Suc.prems(1) and l = Suc.prems(2,3) and g = Suc.prems(4-6) and items = Suc.prems(7)
    and sleep = Suc.prems(8) and one = Suc.prems(9)
  have mono: "nanos (clock os k) \<le> nanos (clock os (tick os k))" for k using os by (simp add: clock_ok_def)
  show ?case
  proof (cases "hp_items (timer_heap g) = 0")
    case True
    then have "heap_bag (timer_heap g) = {#}" using heap_bag_empty g(3) by (auto simp: timers_ok_def)
    with timer_pass_end [OF I g(1,3), of os w "kernel w"] True g(1) show ?thesis
      by (intro exI [of _ w] exI [of _ "[]"] exI [of _ "timer_heap g"]) (simp add: heap_empty_def deref_def)
  next
    case False
    from os I l g False sleep show ?thesis
    proof (cases rule: timers_iteration [where n = n and cfg = cfg])
      case stop
      with timer_pass_end [OF I g(1,3) stop(2) refl mono] show ?thesis by blast
    next
      case (wake t h' w1)
      note rest = one_timer_remove [OF one [unfolded wake(10)]]
      have "\<forall>y\<in>#heap_bag h'. asleep w1 (tw_coro y)" using sleep rest(2) wake(3) by (simp add: wake(10) woke_def)
      then have "\<exists>w' ts h2. handle_timers_loop n os cfg th w1 = Inr w' \<and>
          timer_pass os base (rq(l := rq l @ [tw_coro t])) l w1 (g\<lparr>timer_heap := h'\<rparr>) ts h2 w'"
        using l g wake items False rest(1) by (intro Suc.IH [OF wake(2) _ _ wake(6)]) (auto simp: woke_def)
      then show ?thesis
        using timer_pass_wake [OF wake(2,3,5,7) _ wake(10-12)] mono wake(1,4) by (metis (no_types, lifting))
    qed
  qed
qed

section \<open>Going to sleep\<close>

definition with_state :: "coro \<Rightarrow> int \<Rightarrow> 'k world \<Rightarrow> 'k world" where
  "with_state c s w = w\<lparr>coros := (coros w)(c \<mapsto> (the (coros w c))\<lparr>co_state := Some s\<rparr>)\<rparr>"

lemma with_state_inv:
  assumes I: "sched_inv rq w" and c: "c \<in> dom (coros w)" "s \<noteq> STATE_BLOCKED"
  shows "sched_inv rq (with_state c s w)"
proof -
  let ?w = "with_state c s w"
  have same: "locals ?w = locals w" "nodes ?w = nodes w" "brk ?w = brk w" by (simp_all add: with_state_def)
  have fields: "current ?w = current w" "event_loop ?w = event_loop w" by (auto simp: current_def event_loop_def same)
  have dom: "dom (coros ?w) = dom (coros w)" using c by (auto simp: with_state_def)
  have ready: "ready ?w x = ready w x" for x using c by (auto simp: ready_def with_state_def)
  have st: "state_of ?w x = Some STATE_BLOCKED \<Longrightarrow> state_of w x = Some STATE_BLOCKED" for x
    using c(2) by (auto simp: state_of_def with_state_def split: if_splits)
  show ?thesis using I unfolding sched_inv_def dom ready same fields by (blast dest: st)
qed

lemma prepare_ok:
  assumes "running w th l c" "c \<in> dom (coros w)"
  shows "sched_prepare_to_suspend th w = Inr (with_state c STATE_BLOCKING w)"
  using assms
  by (auto simp: sched_prepare_to_suspend_def access_simps running_def current_def with_state_def split: option.splits)

text \<open>
  A coroutine that announces its wait, makes some arrangement for being woken, and suspends.
\<close>

lemma announce_and_suspend:
  assumes I: "sched_inv rq w" and R: "running w th l c" and loop: "event_loop w l \<noteq> Some c"
    and v: "coros v = coros (with_state c STATE_BLOCKING w)" "locals v = locals w" "nodes v = nodes w"
      "brk v = brk w" "lsched v = lsched w" "errno v = errno w"
  shows "\<exists>x xs w'. rq l = x # xs \<and> sched_suspend os cfg th v = Inr w' \<and> sched_inv (rq(l := xs)) w' \<and>
    running w' th l x \<and> asleep w' c \<and> errno_of w' c = Some (errno w th) \<and> gsched w' = gsched v \<and>
    waits w' = waits v \<and> kernel w' = kernel v \<and> lsched w' = lsched w \<and>
    (\<forall>y. y \<noteq> c \<longrightarrow> coros w' y = coros w y) \<and> event_loop w' = event_loop w \<and> dom (locals w') = dom (locals w) \<and>
    current w' = (current w)(l \<mapsto> x) \<and> dom (coros w') = dom (coros w)"
proof -
  obtain x xs where q: "rq l = x # xs" using I R loop by (rule queue_nonempty)
  have cur: "current w l = Some c" using R by (simp add: running_def)
  have live: "c \<in> dom (coros w)" using sched_invD(4) [OF I cur] .
  have "sched_inv rq (with_state c STATE_BLOCKING w)"
    by (rule with_state_inv [OF I live]) (simp add: STATE_BLOCKING_def STATE_BLOCKED_def)
  then have Iv: "sched_inv rq v" by (rule sched_inv_irrelevant) (use v in \<open>simp_all add: with_state_def\<close>)
  have loops: "event_loop v = event_loop w" "current v = current w" using v(2) by (auto simp: event_loop_def current_def)
  have Rv: "running v th l c" using R v by (simp add: running_def loops)
  have st: "state_of v c = Some STATE_BLOCKING" by (simp add: state_of_def v(1) with_state_def)
  obtain m where m: "sched_suspend os cfg th v = Inr (suspended th l c x m v)"
    "sched_inv (rq(l := xs)) (suspended th l c x m v)"
    using suspend_blocks [OF Iv Rv q _ st] loop loops by auto
  let ?w = "suspended th l c x m v"
  from Rv obtain ls where l: "locals v l = Some ls" by (rule running_local)
  have ev: "event_loop ?w = event_loop w" using l v(2) by (auto simp: suspended_def event_loop_def fun_eq_iff)
  have "event_loop w k \<noteq> Some c" for k
  proof
    assume k: "event_loop w k = Some c"
    with loop have "k \<noteq> l" by auto
    with sched_invD(7) [OF I k] sched_invD(5,6) [OF I cur] show False unfolding queued_def by metis
  qed
  then have "asleep ?w c" by (simp add: asleep_def ev state_of_def ready_def) (simp add: suspended_def)
  moreover have "running ?w th l x" using Rv by (simp add: running_def current_def suspended_def)
  moreover have "errno_of ?w c = Some (errno w th)" using v(6) by (simp add: errno_of_def suspended_def)
  moreover have "dom (locals ?w) = dom (locals w)" using v(2) l by (auto simp: suspended_def)
  moreover have "current ?w = (current w)(l \<mapsto> x)" using v(2) by (auto simp: suspended_def current_def fun_eq_iff)
  moreover have "dom (coros ?w) = dom (coros w)" using live v(1) by (auto simp: suspended_def with_state_def)
  ultimately show ?thesis using q m v ev by (intro exI [of _ x] exI [of _ xs] exI [of _ ?w])
      (auto simp: suspended_def with_state_def)
qed

text \<open>What a coroutine's going to sleep leaves alone.\<close>

definition fell_asleep :: "nat \<Rightarrow> coro \<Rightarrow> coro \<Rightarrow> 'k world \<Rightarrow> 'k world \<Rightarrow> bool" where
  "fell_asleep l c x w w' \<longleftrightarrow> lsched w' = lsched w \<and> dom (locals w') = dom (locals w) \<and> dom (coros w') = dom (coros w) \<and>
     current w' = (current w)(l \<mapsto> x) \<and> event_loop w' = event_loop w \<and> (\<forall>y. asleep w' y \<longleftrightarrow> asleep w y \<or> y = c)"

lemma suspend_fell_asleep:
  assumes "\<forall>y. y \<noteq> c \<longrightarrow> coros w' y = coros w y" "asleep w' c" "lsched w' = lsched w" "dom (locals w') = dom (locals w)"
    "dom (coros w') = dom (coros w)" "current w' = (current w)(l \<mapsto> x)" "event_loop w' = event_loop w"
  shows "fell_asleep l c x w w'"
proof -
  have "asleep w' y = asleep w y" if "y \<noteq> c" for y
    using assms(1,7) that by (simp add: asleep_def state_of_def ready_def)
  then have "\<forall>y. asleep w' y \<longleftrightarrow> asleep w y \<or> y = c" using assms(2) by metis
  with assms(3-) show ?thesis by (simp add: fell_asleep_def)
qed

section \<open>Delivery of events\<close>

lemma poll_event_ok:
  assumes I: "sched_inv rq w" and l: "lsched w th = Some l" "l \<in> dom (locals w)"
    and W: "waits w key = Some wt" "ew_coro wt = Some key" "asleep w key"
  shows "\<exists>w'. sched_poll_event os cfg th key revents w = Inr w' \<and> sched_inv (rq(l := rq l @ [key])) w' \<and>
    coros w' = coros (woken key w) \<and> locals w' = locals w \<and> lsched w' = lsched w \<and> errno w' = errno w \<and>
    gsched w' = gsched w \<and> kernel w' = kernel w \<and>
    waits w' = (waits w)(key \<mapsto> wt\<lparr>ew_coro := None, ew_events := revents\<rparr>)"
proof -
  let ?v = "w\<lparr>waits := (waits w)(key \<mapsto> wt\<lparr>ew_coro := None, ew_events := revents\<rparr>)\<rparr>"
  have Iv: "sched_inv rq ?v" by (rule sched_inv_irrelevant [OF I]) simp_all
  have "asleep ?v key" using W(3) asleep_irrelevant [of ?v w] by simp
  then obtain m where m: "sched_schedule os cfg th key ?v = Inr ((woken key ?v)\<lparr>nodes := m\<rparr>)"
    "sched_inv (rq(l := rq l @ [key])) ((woken key ?v)\<lparr>nodes := m\<rparr>)"
    using schedule_blocked [OF Iv, of th l key os cfg] l by (auto simp: asleep_def)
  have "sched_poll_event os cfg th key revents w = sched_schedule os cfg th key ?v"
    using W(1,2) by (simp add: sched_poll_event_def)
  with m show ?thesis by (intro exI [of _ "(woken key ?v)\<lparr>nodes := m\<rparr>"]) (simp add: woken_def)
qed

lemma poll_event_awake:
  assumes l: "lsched w th = Some l" and W: "waits w key = Some wt" "ew_coro wt = Some key"
    "state_of w key = Some s" "s \<noteq> STATE_BLOCKED"
  shows "sched_poll_event os cfg th key revents w =
    Inr (woken key (w\<lparr>waits := (waits w)(key \<mapsto> wt\<lparr>ew_coro := None, ew_events := revents\<rparr>)\<rparr>))"
  using schedule_awake [of "w\<lparr>waits := (waits w)(key \<mapsto> wt\<lparr>ew_coro := None, ew_events := revents\<rparr>)\<rparr>" th l key s os cfg] assms
  by (simp add: sched_poll_event_def state_of_def)

lemma poll_event_repeated:
  assumes "waits w key = Some wt" "ew_coro wt = None"
  shows "sched_poll_event os cfg th key revents w = Inr w"
proof -
  have same: "wt\<lparr>ew_coro := None\<rparr> = wt" using assms(2) by (cases wt) simp
  have "w\<lparr>waits := (waits w)(key \<mapsto> wt)\<rparr> = w" using assms(1) by (cases w) auto
  then show ?thesis using assms by (simp add: sched_poll_event_def same)
qed

text \<open>Delivery of events wakes coroutines and changes nothing outside the scheduler.\<close>

definition delivered :: "'k world \<Rightarrow> coro list \<Rightarrow> 'k world \<Rightarrow> bool" where
  "delivered w cs w' \<longleftrightarrow> woke w cs w' \<and> gsched w' = gsched w \<and> kernel w' = kernel w"

lemma deliver_event:
  assumes I: "sched_inv rq w" and l: "lsched w th = Some l" "l \<in> dom (locals w)" and W: "wait_ok w key"
  shows "\<exists>w' cs. sched_poll_event os cfg th key revents w = Inr w' \<and> sched_inv (rq(l := rq l @ cs)) w' \<and>
    delivered w cs w' \<and> set cs \<subseteq> {key} \<and> wait_over w' key \<and>
    (asleep w key \<longrightarrow> \<not> wait_over w key \<longrightarrow> cs = [key]) \<and>
    (\<forall>k. k \<noteq> key \<longrightarrow> waits w' k = waits w k) \<and>
    (revents \<noteq> 0 \<longrightarrow> wait_held w key \<longrightarrow> wait_held w' key)"
proof -
  from W obtain wt where wt: "waits w key = Some wt" and
    cases: "ew_coro wt = None \<or> ew_coro wt = Some key \<and> (asleep w key \<or> (\<exists>s. state_of w key = Some s \<and> s \<noteq> STATE_BLOCKED))"
    by (auto simp: wait_ok_def)
  consider (over) "ew_coro wt = None" | (sleeping) "ew_coro wt = Some key" "asleep w key"
    | (awake) s where "ew_coro wt = Some key" "state_of w key = Some s" "s \<noteq> STATE_BLOCKED"
    using cases by (elim disjE conjE exE) simp_all
  then show ?thesis
  proof cases
    case over
    have "delivered w [] w" by (simp add: delivered_def woke_refl)
    with poll_event_repeated [OF wt over, of os cfg th revents] I wt over show ?thesis
      by (intro exI [of _ w] exI [of _ "[]"]) (simp add: wait_over_def)
  next
    case sleeping
    from poll_event_ok [OF I l wt sleeping, of os cfg revents] obtain w' where
      w': "sched_poll_event os cfg th key revents w = Inr w'" "sched_inv (rq(l := rq l @ [key])) w'"
      "coros w' = coros (woken key w)" "locals w' = locals w" "lsched w' = lsched w" "errno w' = errno w"
      "gsched w' = gsched w" "kernel w' = kernel w"
      "waits w' = (waits w)(key \<mapsto> wt\<lparr>ew_coro := None, ew_events := revents\<rparr>)"
      by blast
    have "woke w [key] w'"
      by (rule woke_one [OF sleeping(2) w'(3-6)]) (use w'(9) wt wait_over_simps in blast)
    then have "delivered w [key] w'" using w'(7,8) by (simp add: delivered_def)
    moreover have "revents \<noteq> 0 \<longrightarrow> wait_held w' key"
      using w'(9) asleep_after_wake [OF w'(3,4), of key] by (simp add: wait_held_def)
    ultimately show ?thesis using w' by (intro exI [of _ w'] exI [of _ "[key]"]) (simp add: wait_over_def)
  next
    case awake
    let ?v = "w\<lparr>waits := (waits w)(key \<mapsto> wt\<lparr>ew_coro := None, ew_events := revents\<rparr>)\<rparr>"
    have live: "key \<in> dom (coros w)" using awake(2) by (auto simp: state_of_def split: option.splits)
    have Iv: "sched_inv rq ?v" by (rule sched_inv_irrelevant [OF I]) simp_all
    have I': "sched_inv rq (woken key ?v)" by (rule woken_inv [OF Iv]) (use live in simp)
    have co: "coros (woken key ?v) = coros (woken key w)" by (simp add: woken_def)
    have na: "\<not> asleep w key" using awake(2,3) by (auto simp: asleep_def)
    have "wait_ok (woken key ?v) k" if "wait_ok w k" for k
      by (rule wait_ok_woken [OF that co _ _ live]) auto
    moreover have "errno_of (woken key ?v) = errno_of w" using errno_of_woken [of key ?v] live by (simp add: errno_of_def fun_eq_iff)
    moreover have "wait_fds (woken key ?v) = wait_fds w" using wt by (auto simp: wait_fds_def fun_eq_iff)
    moreover have "dom (coros (woken key ?v)) = dom (coros w)" using live by (auto simp: woken_def)
    ultimately have "delivered w [] (woken key ?v)"
      using asleep_after_wake [OF co] na by (auto simp: delivered_def woke_def)
    moreover have "revents \<noteq> 0 \<longrightarrow> wait_held (woken key ?v) key"
      using asleep_after_wake [OF co, of key] by (simp add: wait_held_def)
    ultimately show ?thesis using poll_event_awake [OF l(1) wt awake, of os cfg revents] I'
      by (intro exI [of _ "woken key ?v"] exI [of _ "[]"]) (simp add: wait_over_def na)
  qed
qed

lemma delivered_trans: "delivered w cs w1 \<Longrightarrow> delivered w1 ds w' \<Longrightarrow> delivered w (cs @ ds) w'"
  using woke_trans by (auto simp: delivered_def)

lemma deliver_events_ok:
  "sched_inv rq w \<Longrightarrow> lsched w th = Some l \<Longrightarrow> l \<in> dom (locals w) \<Longrightarrow> \<forall>e\<in>set es. wait_ok w (ev_data e) \<Longrightarrow>
   \<exists>w' cs. deliver_events os cfg th es w = Inr w' \<and> sched_inv (rq(l := rq l @ cs)) w' \<and> delivered w cs w' \<and>
     set cs \<subseteq> ev_data ` set es \<and> (\<forall>e\<in>set es. wait_over w' (ev_data e)) \<and>
     (\<forall>key. key \<notin> ev_data ` set es \<longrightarrow> waits w' key = waits w key) \<and>
     (\<forall>key\<in>ev_data ` set es. asleep w key \<longrightarrow> \<not> wait_over w key \<longrightarrow> key \<in> set cs) \<and>
     ((\<forall>e\<in>set es. ev_events e \<noteq> 0) \<longrightarrow> (\<forall>key. wait_held w key \<longrightarrow> wait_held w' key))"
proof (induction es arbitrary: rq w)
  case Nil
  then show ?case by (intro exI [of _ w] exI [of _ "[]"]) (simp add: delivered_def woke_refl)
next
  case (Cons e es)
  obtain w1 cs where w1: "sched_poll_event os cfg th (ev_data e) (ev_events e) w = Inr w1"
    "sched_inv (rq(l := rq l @ cs)) w1" "delivered w cs w1" "set cs \<subseteq> {ev_data e}"
    "wait_over w1 (ev_data e)" "\<forall>k. k \<noteq> ev_data e \<longrightarrow> waits w1 k = waits w k"
    "ev_events e \<noteq> 0 \<longrightarrow> wait_held w (ev_data e) \<longrightarrow> wait_held w1 (ev_data e)"
    "asleep w (ev_data e) \<longrightarrow> \<not> wait_over w (ev_data e) \<longrightarrow> cs = [ev_data e]"
    using deliver_event [OF Cons.prems(1-3), of "ev_data e" os cfg "ev_events e"] Cons.prems(4) by auto
  have "\<exists>w' ds. deliver_events os cfg th es w1 = Inr w' \<and>
      sched_inv ((rq(l := rq l @ cs))(l := (rq(l := rq l @ cs)) l @ ds)) w' \<and> delivered w1 ds w' \<and>
      set ds \<subseteq> ev_data ` set es \<and> (\<forall>e\<in>set es. wait_over w' (ev_data e)) \<and>
      (\<forall>key. key \<notin> ev_data ` set es \<longrightarrow> waits w' key = waits w1 key) \<and>
      (\<forall>key\<in>ev_data ` set es. asleep w1 key \<longrightarrow> \<not> wait_over w1 key \<longrightarrow> key \<in> set ds) \<and>
      ((\<forall>e\<in>set es. ev_events e \<noteq> 0) \<longrightarrow> (\<forall>key. wait_held w1 key \<longrightarrow> wait_held w' key))"
    by (rule Cons.IH [OF w1(2)]) (use w1(3) Cons.prems in \<open>auto simp: delivered_def woke_def\<close>)
  then obtain w' ds where w': "deliver_events os cfg th es w1 = Inr w'" "sched_inv (rq(l := rq l @ (cs @ ds))) w'"
    "delivered w1 ds w'" "set ds \<subseteq> ev_data ` set es" "\<forall>e\<in>set es. wait_over w' (ev_data e)"
    "\<forall>key. key \<notin> ev_data ` set es \<longrightarrow> waits w' key = waits w1 key"
    "(\<forall>e\<in>set es. ev_events e \<noteq> 0) \<longrightarrow> (\<forall>key. wait_held w1 key \<longrightarrow> wait_held w' key)"
    "\<forall>key\<in>ev_data ` set es. asleep w1 key \<longrightarrow> \<not> wait_over w1 key \<longrightarrow> key \<in> set ds"
    by auto
  have woken: "key \<in> set (cs @ ds)" if "key \<in> ev_data ` set (e # es)" "asleep w key" "\<not> wait_over w key" for key
  proof (cases "key = ev_data e")
    case False
    then have "asleep w1 key" "\<not> wait_over w1 key" using that w1(3,4,6) by (auto simp: delivered_def woke_def wait_over_def)
    with that(1) False w'(8) show ?thesis by auto
  qed (use that w1(8) in simp)
  have "wait_held w1 key" if "ev_events e \<noteq> 0" "wait_held w key" for key
  proof (cases "key = ev_data e")
    case False
    then have "asleep w1 key = asleep w key" using w1(3,4) by (auto simp: delivered_def woke_def)
    with that(2) False w1(6) show ?thesis using wait_held_irrelevant [of w1 key w] by blast
  qed (use that w1(7) in simp)
  with w'(7) have held: "(\<forall>x\<in>set (e # es). ev_events x \<noteq> 0) \<longrightarrow> (\<forall>key. wait_held w key \<longrightarrow> wait_held w' key)" by simp
  have "wait_over w' (ev_data e)"
    using w1(5) w'(5,6) unfolding wait_over_def by (cases "ev_data e \<in> ev_data ` set es") auto
  then show ?case using w1(1,4,6) w' delivered_trans [OF w1(3) w'(3)] held woken
    by (intro exI [of _ w'] exI [of _ "cs @ ds"]) (auto simp: fun_upd_def)
qed

section \<open>Polling\<close>

text \<open>The answer of a call of \<^verbatim>\<open>epoll_wait\<close> by the poller, and the kernel state after it.\<close>

abbreviation poll_answer :: "'k os \<Rightarrow> poller \<Rightarrow> int \<Rightarrow> 'k \<Rightarrow> int + epoll_event list" where
  "poll_answer os p timeout k \<equiv> fst (os_epoll_wait os (epoll_fd p) MAX_EVENTS (long_to_int timeout) k)"

abbreviation poll_next :: "'k os \<Rightarrow> poller \<Rightarrow> int \<Rightarrow> 'k \<Rightarrow> 'k" where
  "poll_next os p timeout k \<equiv> snd (os_epoll_wait os (epoll_fd p) MAX_EVENTS (long_to_int timeout) k)"

text \<open>Whether the polling loop goes round again after an answer.\<close>

definition poll_again :: "int + epoll_event list \<Rightarrow> bool" where
  "poll_again r = (case r of Inl err \<Rightarrow> err = EINTR | Inr events \<Rightarrow> length events \<ge> MAX_EVENTS)"

text \<open>Every key in an answer belongs to a wait that is in progress.\<close>

definition keys_ok :: "'k world \<Rightarrow> int + epoll_event list \<Rightarrow> bool" where
  "keys_ok w r = (case r of Inl _ \<Rightarrow> True | Inr events \<Rightarrow> \<forall>e\<in>set events. wait_ok w (ev_data e))"

text \<open>Every event reported has at least one bit set.\<close>

definition events_ok :: "int + epoll_event list \<Rightarrow> bool" where
  "events_ok r = (case r of Inl _ \<Rightarrow> True | Inr events \<Rightarrow> \<forall>e\<in>set events. ev_events e \<noteq> 0)"

definition reported :: "int + epoll_event list \<Rightarrow> nat set" where
  "reported r = (case r of Inl _ \<Rightarrow> {} | Inr events \<Rightarrow> ev_data ` set events)"

definition poll_code :: "int + epoll_event list \<Rightarrow> int" where
  "poll_code r = (case r of Inl _ \<Rightarrow> -1 | Inr _ \<Rightarrow> 0)"

text \<open>One call of \<^verbatim>\<open>epoll_wait\<close> with what the loop does about its answer.\<close>

lemma poll_step:
  assumes I: "sched_inv rq w" and l: "lsched w th = Some l" "l \<in> dom (locals w)"
    and W: "keys_ok w (poll_answer os p timeout (kernel w))"
  shows "\<exists>w1 cs. platform_poll_poll (Suc n) os cfg th p timeout w =
      (if poll_again (poll_answer os p timeout (kernel w)) then platform_poll_poll n os cfg th p timeout w1
       else Inr (poll_code (poll_answer os p timeout (kernel w)), w1)) \<and>
    sched_inv (rq(l := rq l @ cs)) w1 \<and> gsched w1 = gsched w \<and> kernel w1 = poll_next os p timeout (kernel w) \<and>
    woke w cs (w1\<lparr>errno := errno w\<rparr>) \<and> (\<forall>err. poll_answer os p timeout (kernel w) = Inl err \<longrightarrow> errno w1 th = err) \<and>
    (\<forall>x. x \<noteq> th \<longrightarrow> errno w1 x = errno w x) \<and> (\<forall>c\<in>set cs. wait_ok w c) \<and>
    (\<forall>key. wait_over w key \<or> key \<in> reported (poll_answer os p timeout (kernel w)) \<longrightarrow> wait_over w1 key) \<and>
    (\<forall>key\<in>reported (poll_answer os p timeout (kernel w)). asleep w key \<longrightarrow> \<not> wait_over w key \<longrightarrow> key \<in> set cs) \<and>
    (events_ok (poll_answer os p timeout (kernel w)) \<longrightarrow> (\<forall>key. wait_held w key \<longrightarrow> wait_held w1 key))"
proof (cases "poll_answer os p timeout (kernel w)")
  case (Inl err)
  let ?w = "w\<lparr>kernel := poll_next os p timeout (kernel w), errno := (errno w)(th := err)\<rparr>"
  have I1: "sched_inv (rq(l := rq l @ [])) ?w" using sched_inv_irrelevant [OF I, of ?w] by simp
  have "woke w [] (?w\<lparr>errno := errno w\<rparr>)" by (rule woke_irrelevant [OF woke_refl]) simp_all
  moreover have "wait_held w key \<Longrightarrow> wait_held ?w key" for key
    using wait_held_irrelevant [of ?w key w] asleep_irrelevant [of ?w w] by simp
  ultimately show ?thesis using I1 Inl
    by (intro exI [of _ ?w] exI [of _ "[]"])
      (simp add: poll_again_def poll_code_def reported_def wait_over_def case_prod_beta Let_def)
next
  case (Inr events)
  let ?w = "w\<lparr>kernel := poll_next os p timeout (kernel w)\<rparr>"
  have same: "wait_ok ?w key = wait_ok w key" "asleep ?w c = asleep w c" "wait_held ?w key = wait_held w key" for key c
    using asleep_irrelevant [of ?w w] by (simp_all add: wait_ok_def wait_held_def state_of_def)
  have I1: "sched_inv rq ?w" by (rule sched_inv_irrelevant [OF I]) simp_all
  obtain w1 cs where w1: "deliver_events os cfg th events ?w = Inr w1" "sched_inv (rq(l := rq l @ cs)) w1"
    "delivered ?w cs w1" "set cs \<subseteq> ev_data ` set events"
    "(\<forall>e\<in>set events. ev_events e \<noteq> 0) \<longrightarrow> (\<forall>key. wait_held ?w key \<longrightarrow> wait_held w1 key)"
    "\<forall>e\<in>set events. wait_over w1 (ev_data e)" "\<forall>key. key \<notin> ev_data ` set events \<longrightarrow> waits w1 key = waits ?w key"
    "\<forall>key\<in>ev_data ` set events. asleep ?w key \<longrightarrow> \<not> wait_over ?w key \<longrightarrow> key \<in> set cs"
    using deliver_events_ok [OF I1, of th l events os cfg] l W by (simp add: same keys_ok_def Inr) blast
  have over: "wait_over w1 key" if "wait_over w key \<or> key \<in> reported (Inr events)" for key
    using that w1(6,7) by (cases "key \<in> ev_data ` set events") (auto simp: reported_def wait_over_def)
  have ov: "wait_over ?w key = wait_over w key" for key by (simp add: wait_over_def)
  have e: "errno w1 = errno w" using w1(3) by (simp add: delivered_def woke_def)
  have "woke w [] ?w" by (rule woke_irrelevant [OF woke_refl]) simp_all
  then have "woke w cs w1" using woke_trans [of w "[]" ?w cs w1] w1(3) by (simp add: delivered_def)
  then have "woke w cs (w1\<lparr>errno := errno w\<rparr>)" by (rule woke_irrelevant) (simp_all add: e)
  moreover have "\<forall>c\<in>set cs. wait_ok w c" using w1(4) W by (auto simp: keys_ok_def Inr)
  ultimately show ?thesis using w1(1-3,5,8) Inr same e over ov
    by (intro exI [of _ w1] exI [of _ cs])
      (simp add: poll_again_def poll_code_def events_ok_def reported_def case_prod_beta Let_def delivered_def linorder_not_less)
qed

end
