(* ===== verification/Waiting.thy ===== *)
theory Waiting
  imports Event_Loop
begin

text \<open>
  What waiting for times and events guarantees: the timer pass, sleeping, event delivery,
  polling and the turns of the event loop.
\<close>

section \<open>A heap of timers for the running example\<close>

definition demo_heap :: "timer_wait list \<Rightarrow> timer_wait heap" where
  "demo_heap ts = sorted_heap timer_compare ts (15 - length ts)"

lemma demo_heap_sorted:
  assumes "set ts \<subseteq> timer_window 0" "length ts < 2"
  shows "timers_ok 0 (demo_heap ts)" "heap_small (demo_heap ts)" "heap_bag (demo_heap ts) = mset ts"
proof -
  have ts: "ts = [] \<or> (\<exists>t. ts = [t])" using assms(2) by (cases ts) auto
  then have "sorted_wrt (\<lambda>x y. timer_compare x y \<le> 0) ts" "16 \<le> Suc (length ts + (15 - length ts))"
    "Suc (length ts + (15 - length ts)) < 2 ^ 60" by auto
  note inv = sorted_heap_inv [OF timers.comparator_axioms this(1) assms(1) this(2,3)]
  from inv ts show "timers_ok 0 (demo_heap ts)" "heap_small (demo_heap ts)" "heap_bag (demo_heap ts) = mset ts"
    by (auto simp: timers_ok_def heap_small_def heap_bag_def demo_heap_def sorted_heap_def bag_def arr_def INITIAL_SIZE_def)
qed

lemma demo_heap_ok:
  "timers_ok 0 (demo_heap [])" "heap_sized (demo_heap [])" "heap_bag (demo_heap []) = {#}"
  "timers_ok 0 (demo_heap [timer_at 100 0 4])" "heap_bag (demo_heap [timer_at 100 0 4]) = {#timer_at 100 0 4#}"
  using demo_heap_sorted [of "[]"] demo_heap_sorted [of "[timer_at 100 0 4]"]
  by (simp_all add: heap_small_def timer_window_def timer_at_def normal_time_def)

definition demo_timers :: "timer_wait list \<Rightarrow> unit world" where
  "demo_timers ts = (demo_world 1)\<lparr>gsched := Some ((demo_global 2 2)\<lparr>timer_heap := demo_heap ts\<rparr>)\<rparr>"

lemma demo_timers_inv:
  "sched_inv demo_queues (demo_timers ts)" "running (demo_timers ts) 0 10 1" "event_loop (demo_timers ts) 10 = Some 2"
  "gsched (demo_timers ts) = Some ((demo_global 2 2)\<lparr>timer_heap := demo_heap ts\<rparr>)"
  "lsched (demo_timers ts) 0 = Some 10" "10 \<in> dom (locals (demo_timers ts))" "asleep (demo_timers ts) 4"
  using demo_global_inv [of "(demo_global 2 2)\<lparr>timer_heap := demo_heap ts\<rparr>"] demo_running(3) [of 1]
  by (auto simp: demo_timers_def event_loop_def asleep_def state_of_def ready_def demo_world_def demo_coro_def
      demo_local_def split: if_splits)

lemma simple_clock_ok: "sane_time now \<Longrightarrow> clock_ok (simple_os n now)"
  by (simp add: clock_ok_def clock_def tick_def simple_os_def)

section \<open>Times\<close>

lemma handle_timers_ok:
  assumes "clock_ok os" "sched_inv rq w" "lsched w th = Some l" "l \<in> dom (locals w)"
    and "gsched w = Some g" "\<not> gs_lock g" "timers_ok base (timer_heap g)"
    and "\<forall>t\<in>#heap_bag (timer_heap g). asleep w (tw_coro t)" "one_timer_each (heap_bag (timer_heap g))"
  shows "\<exists>w' ts h'. sched_handle_timers os cfg th w = Inr w' \<and> sched_inv (rq(l := rq l @ map tw_coro ts)) w' \<and>
    gsched w' = Some (g\<lparr>timer_heap := h'\<rparr>) \<and> timers_ok base h' \<and> heap_bag (timer_heap g) = mset ts + heap_bag h' \<and>
    sorted_wrt (\<lambda>s t. nanos (tw_time s) \<le> nanos (tw_time t)) ts \<and>
    (\<forall>t\<in>#heap_bag h'. nanos (clock os (kernel w)) < nanos (tw_time t)) \<and>
    (\<forall>t\<in>set ts. nanos (tw_time t) < nanos (clock os (kernel w')) + 1000000) \<and>
    woke w (map tw_coro ts) w' \<and> waits w' = waits w \<and> (heap_small (timer_heap g) \<longrightarrow> heap_small h')"
proof -
  have "sched_handle_timers os cfg th w = handle_timers_loop (Suc (hp_items (timer_heap g))) os cfg th w"
    using assms(5) by (simp only: sched_handle_timers_def deref_def option.case andthen_Inr)
  with handle_timers_loop_ok [OF assms(1-7) lessI assms(8,9), of cfg] show ?thesis unfolding timer_pass_def by metis
qed

lemma one_timer_add:
  assumes "one_timer_each H" "\<forall>t\<in>#H. tw_coro t \<noteq> tw_coro s"
  shows "one_timer_each (add_mset s H)"
proof -
  have "tw_coro s \<notin># image_mset tw_coro H" using assms(2) by auto
  then have "count (image_mset tw_coro H) (tw_coro s) = 0" by (simp only: not_in_iff)
  with assms(1) show ?thesis by (auto simp: one_timer_each_def)
qed

text \<open>
  C11: The scheduler's timer pass ends and wakes, in order of expiry, every coroutine whose time
  has come when the pass starts; each of them is put on the queue of the calling thread
  once, none is woken more than a millisecond early, and the timers left in the heap are
  all in the future.
\<close>

theorem sched_handle_timers_wakes_due:
  assumes "clock_ok os" "sched_inv rq w" "lsched w th = Some l" "l \<in> dom (locals w)"
    and "gsched w = Some g" "\<not> gs_lock g" "timers_ok base (timer_heap g)"
    and "\<forall>t\<in>#heap_bag (timer_heap g). asleep w (tw_coro t)" "one_timer_each (heap_bag (timer_heap g))"
  shows "\<exists>w' ts h'. sched_handle_timers os cfg th w = Inr w' \<and> sched_inv (rq(l := rq l @ map tw_coro ts)) w' \<and>
    gsched w' = Some (g\<lparr>timer_heap := h'\<rparr>) \<and> timers_ok base h' \<and> heap_bag (timer_heap g) = mset ts + heap_bag h' \<and>
    sorted_wrt (\<lambda>s t. nanos (tw_time s) \<le> nanos (tw_time t)) ts \<and>
    (\<forall>t\<in>#heap_bag h'. nanos (clock os (kernel w)) < nanos (tw_time t)) \<and>
    (\<forall>t\<in>set ts. nanos (tw_time t) < nanos (clock os (kernel w')) + 1000000)"
  using handle_timers_ok [OF assms] by blast

theorem sched_handle_timers_wakes_due_witness:
  "\<exists>w' ts h'. sched_handle_timers (simple_os 1 \<lparr>tv_sec = 100, tv_nsec = 5\<rparr>) demo_config 0
       (demo_timers [timer_at 100 0 4]) = Inr w' \<and> sched_inv (demo_queues(10 := [2, 3] @ map tw_coro ts)) w' \<and>
     {#timer_at 100 0 4#} = mset ts + heap_bag h' \<and> (\<forall>t\<in>#heap_bag h'. 100000000005 < nanos (tw_time t))"
proof -
  let ?os = "simple_os 1 \<lparr>tv_sec = 100, tv_nsec = 5\<rparr>" and ?w = "demo_timers [timer_at 100 0 4]"
  have os: "clock_ok ?os" by (rule simple_clock_ok) (simp add: sane_time_def normal_time_def)
  have now: "nanos (clock ?os k) = 100000000005" for k by (simp add: clock_def simple_os_def nanos_def)
  have one: "one_timer_each {#timer_at 100 0 4#}" by (simp add: one_timer_each_def)
  have sl: "asleep ?w (tw_coro (timer_at 100 0 4))" using demo_timers_inv(7) by (simp add: timer_at_def)
  let ?g = "(demo_global 2 2)\<lparr>timer_heap := demo_heap [timer_at 100 0 4]\<rparr>"
  note w = demo_timers_inv [of "[timer_at 100 0 4]"]
  have g: "\<not> gs_lock ?g" "timers_ok 0 (timer_heap ?g)" "\<forall>t\<in>#heap_bag (timer_heap ?g). asleep ?w (tw_coro t)"
    "one_timer_each (heap_bag (timer_heap ?g))"
    using demo_heap_ok(4,5) one sl by (simp_all add: demo_global_def)
  obtain w' ts h' where "sched_handle_timers ?os demo_config 0 ?w = Inr w'"
    "sched_inv (demo_queues(10 := demo_queues 10 @ map tw_coro ts)) w'" "heap_bag (timer_heap ?g) = mset ts + heap_bag h'"
    "\<forall>t\<in>#heap_bag h'. nanos (clock ?os (kernel ?w)) < nanos (tw_time t)"
    using sched_handle_timers_wakes_due [OF os w(1,5,6,4) g, of demo_config] by blast
  moreover have "heap_bag (timer_heap ?g) = {#timer_at 100 0 4#}" using demo_heap_ok(5) by simp
  ultimately show ?thesis using demo_running(2)
    by (intro exI [of _ w'] exI [of _ ts] exI [of _ h']) (simp only: now simp_thms)
qed

lemma sched_wait_ok:
  assumes "sched_inv rq w" "running w th l c" "event_loop w l \<noteq> Some c"
    and "gsched w = Some g" "\<not> gs_lock g" "timers_ok base (timer_heap g)" "heap_sized (timer_heap g)"
    and "hp_items (timer_heap g) < 2 ^ 30" "\<lparr>tw_time = time, tw_coro = c\<rparr> \<in> timer_window base"
    and "hp_items (timer_heap g) + 1 \<ge> hp_size (timer_heap g) \<longrightarrow>
      allocator (heap_alloc os w) \<and> heap_alloc os w (hp_size (timer_heap g) * 2 * ptr_bytes)"
  shows "\<exists>x xs w' h'. rq l = x # xs \<and> sched_wait os cfg th time w = Inr w' \<and> sched_inv (rq(l := xs)) w' \<and>
    running w' th l x \<and> asleep w' c \<and> gsched w' = Some (g\<lparr>timer_heap := h'\<rparr>) \<and> timers_ok base h' \<and>
    heap_bag h' = add_mset \<lparr>tw_time = time, tw_coro = c\<rparr> (heap_bag (timer_heap g)) \<and> kernel w' = kernel w \<and>
    fell_asleep l c x w w' \<and> waits w' = waits w \<and> errno_of w' c = Some (errno w th) \<and>
    (heap_small (timer_heap g) \<longrightarrow> hp_items (timer_heap g) + 1 < INITIAL_SIZE \<longrightarrow> heap_small h')"
proof -
  let ?h = "timer_heap g" and ?t = "\<lparr>tw_time = time, tw_coro = c\<rparr>" and ?b = "with_state c STATE_BLOCKING w"
  have inv: "heap_inv (timer_window base) ?h" using assms(6) by (simp add: timers_ok_def)
  have lsw: "lsched w th = Some l" "current w l = Some c" using assms(2) by (simp_all add: running_def)
  have live: "c \<in> dom (coros w)" using sched_invD(4) [OF assms(1) lsw(2)] .
  have al: "heap_alloc os (?b\<lparr>gsched := x\<rparr>) = heap_alloc os w" for x by (simp add: heap_alloc_def with_state_def fun_eq_iff)
  obtain h' where h': "heap_push (heap_alloc os w) ?h ?t = Inr (0, h')" "heap_inv (timer_window base) h'"
    "hp_items h' = hp_items ?h + 1" "hp_compare h' = hp_compare ?h" "heap_bag h' = add_mset ?t (heap_bag ?h)"
    "heap_sized h'"
    using heap_push_ok [OF inv assms(7,9,10)] by blast
  define v where "v = ?b\<lparr>gsched := Some (g\<lparr>timer_heap := h'\<rparr>)\<rparr>"
  have lk: "g\<lparr>gs_lock := False\<rparr> = g" "g\<lparr>timer_heap := h', gs_lock := False\<rparr> = g\<lparr>timer_heap := h'\<rparr>"
    using assms(5) by (cases g, simp)+
  have gb: "gsched ?b = Some g" "lsched ?b = lsched w" using assms(4) by (simp_all add: with_state_def)
  have cur: "sched_get_current l w = Inr (Some c)"
    using lsw(2) by (auto simp: sched_get_current_def local_of_def current_def split: option.splits)
  have run: "sched_wait os cfg th time w = sched_suspend os cfg th v"
    using lsw(1) cur prepare_ok [OF assms(2) live] gb assms(5) h'(1)
    by (simp add: sched_wait_def deref_def glock_def gunlock_def set_timer_heap_def al v_def lk)
  have "timers_ok base h'" using assms(6,8) h'(2-4) by (simp add: timers_ok_def)
  moreover obtain x xs w' where "rq l = x # xs" "sched_suspend os cfg th v = Inr w'" "sched_inv (rq(l := xs)) w'"
    "running w' th l x" "asleep w' c" "gsched w' = gsched v" "kernel w' = kernel v"
    "waits w' = waits v" "errno_of w' c = Some (errno w th)" "fell_asleep l c x w w'"
    using announce_and_suspend [OF assms(1-3), of v os cfg] suspend_fell_asleep [of c _ w l]
    by (auto simp: v_def with_state_def)
  moreover have "heap_small ?h \<longrightarrow> hp_items ?h + 1 < INITIAL_SIZE \<longrightarrow> heap_small h'" 
    using h'(6) heap_push_keeps_size [OF h'(1)] assms(8) by (simp add: heap_small_def size_max_def)
  ultimately show ?thesis using run h'(5) by (auto simp: v_def with_state_def)
qed

definition bounded_os :: "timespec \<Rightarrow> unit os" where
  "bounded_os now = (simple_os 1 now)\<lparr>os_malloc := \<lambda>n k. (n < 2 ^ 63, k)\<rparr>"



lemma event_wait_ok:
  assumes "sched_inv rq w" "running w th l c" "event_loop w l \<noteq> Some c" "gsched w = Some g"
    and "os_epoll_ctl os (epoll_fd (gs_poller g)) EPOLL_CTL_ADD fd
      (Some \<lparr>ev_events = events OR EPOLLET OR EPOLLONESHOT, ev_data = c\<rparr>) (kernel w) = (0, k)"
  shows "\<exists>x xs w'. rq l = x # xs \<and> event_wait_begin os cfg th fd events w = Inr w' \<and> sched_inv (rq(l := xs)) w' \<and>
    running w' th l x \<and> asleep w' c \<and> kernel w' = k \<and>
    waits w' = (waits w)(c \<mapsto> \<lparr>ew_fd = fd, ew_events = 0, ew_coro = Some c\<rparr>) \<and> wait_ok w' c \<and>
    gsched w' = gsched w \<and> errno_of w' c = Some (errno w th) \<and> fell_asleep l c x w w'"
proof -
  have lsw: "lsched w th = Some l" "current w l = Some c" using assms(2) by (simp_all add: running_def)
  have live: "c \<in> dom (coros w)" using sched_invD(4) [OF assms(1) lsw(2)] .
  have cur: "sched_get_current l w = Inr (Some c)"
    using lsw(2) by (auto simp: sched_get_current_def local_of_def current_def split: option.splits)
  define w1 where "w1 = w\<lparr>waits := (waits w)(c \<mapsto> \<lparr>ew_fd = fd, ew_events = 0, ew_coro = Some c\<rparr>)\<rparr>"
  have "running w1 th l c" "c \<in> dom (coros w1)" using assms(2) live by (simp_all add: w1_def running_def current_def)
  from prepare_ok [OF this] have prep: "sched_prepare_to_suspend th w1 = Inr (with_state c STATE_BLOCKING w1)" .
  define v where "v = (with_state c STATE_BLOCKING w1)\<lparr>kernel := k\<rparr>"
  have run: "event_wait_begin os cfg th fd events w = sched_suspend os cfg th v"
    using lsw(1) cur prep assms(4,5)
    by (simp add: event_wait_begin_def deref_def Let_def w1_def [symmetric] platform_poll_register_def)
      (simp add: with_state_def w1_def v_def)
  obtain x xs w' where "rq l = x # xs" "sched_suspend os cfg th v = Inr w'" "sched_inv (rq(l := xs)) w'"
    "running w' th l x" "asleep w' c" "waits w' = waits v" "kernel w' = kernel v"
    "gsched w' = gsched v" "errno_of w' c = Some (errno w th)" "fell_asleep l c x w w'"
    using announce_and_suspend [OF assms(1-3), of v os cfg] suspend_fell_asleep [of c _ w l]
    by (auto simp: v_def w1_def with_state_def)
  then show ?thesis using run
    by (intro exI [of _ x] exI [of _ xs] exI [of _ w']) (simp add: v_def w1_def with_state_def wait_ok_def)
qed

text \<open>
  C13: The first event for a wait wakes its coroutine, which is queued once, and records the
  events it reports; every later event for the same wait leaves the whole state as it is, so a
  coroutine waiting for an event is never woken twice.
\<close>

theorem sched_poll_event_exactly_once:
  assumes "sched_inv rq w" "lsched w th = Some l" "l \<in> dom (locals w)"
    and "waits w key = Some wt" "ew_coro wt = Some key" "asleep w key"
  shows "\<exists>w'. sched_poll_event os cfg th key revents w = Inr w' \<and> sched_inv (rq(l := rq l @ [key])) w' \<and>
    state_of w' key = Some STATE_RUNNABLE \<and>
    waits w' = (waits w)(key \<mapsto> wt\<lparr>ew_coro := None, ew_events := revents\<rparr>) \<and>
    (\<forall>os cfg th revents. sched_poll_event os cfg th key revents w' = Inr w')"
proof -
  obtain w' where w': "sched_poll_event os cfg th key revents w = Inr w'" "sched_inv (rq(l := rq l @ [key])) w'"
    "coros w' = coros (woken key w)" "waits w' = (waits w)(key \<mapsto> wt\<lparr>ew_coro := None, ew_events := revents\<rparr>)"
    using poll_event_ok [OF assms, of os cfg revents] by blast
  have "state_of w' key = Some STATE_RUNNABLE" using w'(3) by (simp add: state_of_def woken_def)
  moreover have "sched_poll_event o' cfg' th' key r w' = Inr w'" for o' :: "'a os" and cfg' th' r
    by (rule poll_event_repeated) (simp add: w'(4), simp)
  ultimately show ?thesis using w' by blast
qed

definition demo_waiting :: "unit world" where
  "demo_waiting = (demo_timers [])\<lparr>waits := Map.empty(4 \<mapsto> \<lparr>ew_fd = 7, ew_events = 0, ew_coro = Some 4\<rparr>)\<rparr>"

lemma demo_waiting_inv:
  "sched_inv demo_queues demo_waiting" "lsched demo_waiting 0 = Some 10" "10 \<in> dom (locals demo_waiting)"
  "waits demo_waiting 4 = Some \<lparr>ew_fd = 7, ew_events = 0, ew_coro = Some 4\<rparr>" "asleep demo_waiting 4"
  "gsched demo_waiting = Some ((demo_global 2 2)\<lparr>timer_heap := demo_heap []\<rparr>)" "locals demo_waiting = locals (demo_timers [])"
  using demo_timers_inv [of "[]"] sched_inv_irrelevant [OF demo_timers_inv(1) [of "[]"], of demo_waiting]
    asleep_irrelevant [of demo_waiting "demo_timers []" 4]
  by (simp_all add: demo_waiting_def)

theorem sched_poll_event_exactly_once_witness:
  "\<exists>w'. sched_poll_event (simple_os 1 \<lparr>tv_sec = 1, tv_nsec = 0\<rparr>) demo_config 0 4 EPOLLIN demo_waiting = Inr w' \<and>
     sched_inv (demo_queues(10 := demo_queues 10 @ [4])) w' \<and> state_of w' 4 = Some STATE_RUNNABLE"
  using sched_poll_event_exactly_once [OF demo_waiting_inv(1-4) _ demo_waiting_inv(5),
      of "simple_os 1 \<lparr>tv_sec = 1, tv_nsec = 0\<rparr>" demo_config EPOLLIN]
  by (simp only: event_wait.simps simp_thms) blast

end
