(* ===== verification/Polling.thy ===== *)
theory Polling
  imports Waiting
begin

text \<open>
  The polling loop of \<^verbatim>\<open>src/platform/poll_epoll.c\<close> and the turns of the event loop of
  \<^verbatim>\<open>src/scheduler.c\<close>: that they end, what they wake, and what they do with the timeout.
\<close>

section \<open>The polling loop\<close>

text \<open>
  What the loop relies on: \<^verbatim>\<open>epoll_wait\<close> reports keys of registered waits only, and the
  interruptions and full batches run out, as the measure \<open>m\<close> of the kernel state says.
\<close>

definition reports_waits :: "'k os \<Rightarrow> poller \<Rightarrow> int \<Rightarrow> 'k world \<Rightarrow> bool" where
  "reports_waits os p timeout w \<longleftrightarrow> (\<forall>k. case poll_answer os p timeout k of Inl _ \<Rightarrow> True
     | Inr events \<Rightarrow> \<forall>e\<in>set events. wait_ok w (ev_data e))"

definition settles :: "'k os \<Rightarrow> poller \<Rightarrow> int \<Rightarrow> ('k \<Rightarrow> nat) \<Rightarrow> bool" where
  "settles os p timeout m \<longleftrightarrow> (\<forall>k. poll_again (poll_answer os p timeout k) \<longrightarrow> m (poll_next os p timeout k) < m k)"

definition poll_failure :: "'k os \<Rightarrow> poller \<Rightarrow> int \<Rightarrow> int \<Rightarrow> bool" where
  "poll_failure os p timeout err \<longleftrightarrow> err \<noteq> EINTR \<and> (\<exists>k. poll_answer os p timeout k = Inl err)"

lemma reports_waits_woke: "reports_waits os p timeout w \<Longrightarrow> woke w cs w' \<Longrightarrow> reports_waits os p timeout w'"
  by (force simp: reports_waits_def woke_def split: sum.splits)

lemma reports_keys: "reports_waits os p timeout w \<Longrightarrow> keys_ok w (poll_answer os p timeout k)"
  by (auto simp: reports_waits_def keys_ok_def split: sum.splits)

lemma errno_irrelevant:
  "asleep (v\<lparr>errno := z\<rparr>) c = asleep v c" "wait_ok (v\<lparr>errno := z\<rparr>) c = wait_ok v c"
  "errno_of (v\<lparr>errno := z\<rparr>) = errno_of v" "wait_fds (v\<lparr>errno := z\<rparr>) = wait_fds v"
  using asleep_irrelevant [of "v\<lparr>errno := z\<rparr>" v c]
  by (simp_all add: wait_ok_def state_of_def errno_of_def wait_fds_def fun_eq_iff)

lemma woke_errno: "woke w cs (w'\<lparr>errno := x\<rparr>) \<Longrightarrow> woke (w\<lparr>errno := y\<rparr>) cs (w'\<lparr>errno := y\<rparr>)"
  by (simp add: woke_def errno_irrelevant)

lemma woke_trans_errno:
  assumes "woke w cs (w1\<lparr>errno := errno w\<rparr>)" "woke w1 ds (w'\<lparr>errno := errno w1\<rparr>)"
  shows "woke w (cs @ ds) (w'\<lparr>errno := errno w\<rparr>)"
  using woke_trans [OF assms(1)] woke_errno [OF assms(2), of "errno w"] by simp

lemma woke_waits: "woke w cs w' \<Longrightarrow> dom (waits w') = dom (waits w)"
proof -
  assume "woke w cs w'"
  then have "map_option ew_fd (waits w' c) = map_option ew_fd (waits w c)" for c
    by (simp add: woke_def wait_fds_def fun_eq_iff)
  then show ?thesis by (metis dom_map_option_comp comp_apply ext)
qed

lemma wait_ok_dom: "wait_ok w c \<Longrightarrow> c \<in> dom (waits w)"
  by (auto simp: wait_ok_def)

lemma poll_ok:
  "sched_inv rq w \<Longrightarrow> lsched w th = Some l \<Longrightarrow> l \<in> dom (locals w) \<Longrightarrow> reports_waits os p timeout w \<Longrightarrow>
   settles os p timeout m \<Longrightarrow> m (kernel w) < n \<Longrightarrow>
   \<exists>r w' cs. platform_poll_poll n os cfg th p timeout w = Inr (r, w') \<and> sched_inv (rq(l := rq l @ cs)) w' \<and>
     gsched w' = gsched w \<and> woke w cs (w'\<lparr>errno := errno w\<rparr>) \<and> set cs \<subseteq> dom (waits w) \<and>
     (r = 0 \<or> r = -1 \<and> poll_failure os p timeout (errno w' th)) \<and> (\<forall>x. x \<noteq> th \<longrightarrow> errno w' x = errno w x) \<and>
     (\<forall>key. wait_over w key \<or> key \<in> reported (poll_answer os p timeout (kernel w)) \<longrightarrow> wait_over w' key) \<and>
     (\<forall>key\<in>reported (poll_answer os p timeout (kernel w)). asleep w key \<longrightarrow> \<not> wait_over w key \<longrightarrow> key \<in> set cs) \<and>
     ((\<forall>k. events_ok (poll_answer os p timeout k)) \<longrightarrow> (\<forall>key. wait_held w key \<longrightarrow> wait_held w' key)) \<and>
     (\<exists>j. kernel w' = (poll_next os p timeout ^^ j) (kernel w))"
proof (induction n arbitrary: rq w)
  case (Suc n)
  let ?r = "poll_answer os p timeout (kernel w)"
  obtain w1 cs where w1: "platform_poll_poll (Suc n) os cfg th p timeout w =
      (if poll_again ?r then platform_poll_poll n os cfg th p timeout w1 else Inr (poll_code ?r, w1))"
    "sched_inv (rq(l := rq l @ cs)) w1" "gsched w1 = gsched w" "kernel w1 = poll_next os p timeout (kernel w)"
    "woke w cs (w1\<lparr>errno := errno w\<rparr>)" "\<forall>err. ?r = Inl err \<longrightarrow> errno w1 th = err" "\<forall>x. x \<noteq> th \<longrightarrow> errno w1 x = errno w x"
    "\<forall>c\<in>set cs. wait_ok w c" "events_ok ?r \<longrightarrow> (\<forall>key. wait_held w key \<longrightarrow> wait_held w1 key)"
    "\<forall>key. wait_over w key \<or> key \<in> reported ?r \<longrightarrow> wait_over w1 key"
    "\<forall>key\<in>reported ?r. asleep w key \<longrightarrow> \<not> wait_over w key \<longrightarrow> key \<in> set cs"
    using poll_step [OF Suc.prems(1-3) reports_keys [OF Suc.prems(4)], of n cfg] by blast
  show ?case
  proof (cases "poll_again ?r")
    case False
    then have "poll_code ?r = 0 \<or> poll_code ?r = -1 \<and> poll_failure os p timeout (errno w1 th)"
      using w1(6) by (cases ?r) (auto simp: poll_code_def poll_again_def poll_failure_def)
    moreover have "set cs \<subseteq> dom (waits w)" using w1(8) wait_ok_dom by blast
    ultimately show ?thesis using w1 False
      by (intro exI [of _ "poll_code ?r"] exI [of _ w1] exI [of _ cs] conjI exI [of _ 1]) (simp_all del: platform_poll_poll.simps fun_upd_apply)
  next
    case True
    have less: "m (kernel w1) < n" using Suc.prems(5,6) True w1(4) by (force simp: settles_def)
    have l1: "lsched w1 th = Some l" "l \<in> dom (locals w1)" using Suc.prems(2,3) w1(5) by (simp_all add: woke_def)
    have rw: "reports_waits os p timeout w1"
      using reports_waits_woke [OF Suc.prems(4) w1(5)] by (auto simp: reports_waits_def errno_irrelevant split: sum.splits)
    obtain r w' ds where w': "platform_poll_poll n os cfg th p timeout w1 = Inr (r, w')"
      "sched_inv ((rq(l := rq l @ cs))(l := (rq(l := rq l @ cs)) l @ ds)) w'"
      "gsched w' = gsched w1" "woke w1 ds (w'\<lparr>errno := errno w1\<rparr>)" "set ds \<subseteq> dom (waits w1)"
      "r = 0 \<or> r = -1 \<and> poll_failure os p timeout (errno w' th)" "\<forall>x. x \<noteq> th \<longrightarrow> errno w' x = errno w1 x"
      "(\<forall>k. events_ok (poll_answer os p timeout k)) \<longrightarrow> (\<forall>key. wait_held w1 key \<longrightarrow> wait_held w' key)"
      "\<forall>key. wait_over w1 key \<longrightarrow> wait_over w' key" "\<exists>j. kernel w' = (poll_next os p timeout ^^ j) (kernel w1)"
      using Suc.IH [OF w1(2) l1 rw Suc.prems(5) less] by blast
    have "set (cs @ ds) \<subseteq> dom (waits w)" 
      using w1(8) w'(5) woke_waits [OF w1(5)] wait_ok_dom [of w] by (simp add: subset_iff)
    moreover have "sched_inv (rq(l := rq l @ (cs @ ds))) w'" using w'(2) by simp
    moreover have "platform_poll_poll (Suc n) os cfg th p timeout w = Inr (r, w')" using w1(1) w'(1) True by simp
    moreover have "\<forall>x. x \<noteq> th \<longrightarrow> errno w' x = errno w x" "gsched w' = gsched w" using w1(3,7) w'(3,7) by simp_all
    moreover have "\<forall>key\<in>reported ?r. asleep w key \<longrightarrow> \<not> wait_over w key \<longrightarrow> key \<in> set (cs @ ds)" using w1(11) by simp
    moreover have "\<forall>key. wait_over w key \<or> key \<in> reported ?r \<longrightarrow> wait_over w' key" using w1(10) w'(9) by blast
    moreover have "(\<forall>k. events_ok (poll_answer os p timeout k)) \<longrightarrow> (\<forall>key. wait_held w key \<longrightarrow> wait_held w' key)"
      using w1(9) w'(8) by blast
    moreover from w'(10) obtain j where "kernel w' = (poll_next os p timeout ^^ Suc j) (kernel w)"
      unfolding w1(4) funpow_Suc_right by auto
    ultimately show ?thesis using w'(6) woke_trans_errno [OF w1(5) w'(4)] by blast
  qed
qed simp


text \<open>A kernel that is interrupted twice and then reports an event for the sleeping coroutine 4.\<close>

definition event_os :: "nat os" where
  "event_os = \<lparr>os_malloc = \<lambda>n k. (True, k), os_clock_gettime = \<lambda>k. ((0, \<lparr>tv_sec = 1, tv_nsec = 0\<rparr>), k),
     os_epoll_create1 = \<lambda>k. ((3, 0), k), os_epoll_ctl = \<lambda>e f fd ev k. (0, k),
     os_epoll_wait = \<lambda>e n t k. (if k < 2 then Inl EINTR else Inr [\<lparr>ev_events = EPOLLIN, ev_data = 4\<rparr>], Suc k),
     os_pthread_attr_init = \<lambda>k. (0, k),
     os_pthread_attr_setstacksize = \<lambda>n k. (0, k), os_pthread_create = \<lambda>l k. (0, k),
     os_sigaction = \<lambda>k. (0, k), os_timer_create = \<lambda>t k. (0, k), os_timer_settime = \<lambda>t k. (0, k),
     os_sched_getaffinity = \<lambda>k. ((0, 2), k)\<rparr>"

definition with_kernel :: "'b \<Rightarrow> 'a world \<Rightarrow> 'b world" where
  "with_kernel k w = \<lparr>coros = coros w, nodes = nodes w, locals = locals w, gsched = gsched w, lsched = lsched w,
     errno = errno w, waits = waits w, brk = brk w, setup_signal_handler = setup_signal_handler w,
     spawned = spawned w, kernel = k\<rparr>"

lemma with_kernel_simps [simp]:
  "coros (with_kernel k w) = coros w" "nodes (with_kernel k w) = nodes w" "locals (with_kernel k w) = locals w"
  "gsched (with_kernel k w) = gsched w" "lsched (with_kernel k w) = lsched w" "errno (with_kernel k w) = errno w"
  "waits (with_kernel k w) = waits w" "brk (with_kernel k w) = brk w" "kernel (with_kernel k w) = k"
  by (simp_all add: with_kernel_def)

lemma with_kernel_inv:
  "sched_inv rq (with_kernel k w) = sched_inv rq w" "asleep (with_kernel k w) c = asleep w c"
  "wait_ok (with_kernel k w) c = wait_ok w c" "wait_over (with_kernel k w) c = wait_over w c"
  "running (with_kernel k w) th l c = running w th l c" "event_loop (with_kernel k w) l = event_loop w l"
proof -
  have *: "state_of (with_kernel k w) = state_of w" "ready (with_kernel k w) = ready w"
    "event_loop (with_kernel k w) = event_loop w" "current (with_kernel k w) = current w"
    by (auto simp: state_of_def ready_def event_loop_def current_def fun_eq_iff)
  then show "sched_inv rq (with_kernel k w) = sched_inv rq w" "asleep (with_kernel k w) c = asleep w c"
    "running (with_kernel k w) th l c = running w th l c" "event_loop (with_kernel k w) l = event_loop w l"
    by (simp_all add: sched_inv_def asleep_def running_def)
  then show "wait_ok (with_kernel k w) c = wait_ok w c" "wait_over (with_kernel k w) c = wait_over w c"
    by (simp_all add: wait_ok_def wait_over_def *)
qed


section \<open>The timeout\<close>

lemma poll_timeout_ok:
  assumes os: "clock_ok os" and I: "sched_inv rq w" and l: "l \<in> dom (locals w)" and g: "gsched w = Some g"
    "timers_ok base (timer_heap g)"
  shows "\<exists>timeout k. sched_poll_timeout os cfg l w = Inr (timeout, w\<lparr>kernel := k\<rparr>) \<and>
    (k = kernel w \<or> k = tick os (kernel w)) \<and>
    (if rq l \<noteq> [] then timeout = 0
     else if heap_bag (timer_heap g) = {#} then timeout = -1
     else 0 \<le> timeout \<and> (\<exists>t\<in>#heap_bag (timer_heap g).
       (\<forall>y\<in>#heap_bag (timer_heap g). nanos (tw_time t) \<le> nanos (tw_time y)) \<and>
       \<bar>timeout * 1000000 - max 0 (nanos (tw_time t) - nanos (clock os (kernel w)))\<bar> < 1000000))"
proof -
  let ?h = "timer_heap g"
  have e: "list_empty (cfg_debug cfg) (nodes w) (Run_list l) = Inr (rq l = [])"
    by (rule queues_empty [OF sched_invD(1) [OF I] l])
  have inv: "heap_inv (timer_window base) ?h" using g(2) by (simp add: timers_ok_def)
  have w: "w\<lparr>kernel := kernel w\<rparr> = w" by simp
  consider (queue) "rq l \<noteq> []" | (none) "rq l = []" "hp_items ?h = 0" | (timer) "rq l = []" "hp_items ?h \<noteq> 0" by blast
  then show ?thesis
  proof cases
    case queue
    then show ?thesis by (intro exI [of _ 0] exI [of _ "kernel w"]) (simp add: sched_poll_timeout_def e)
  next
    case none
    moreover have "heap_bag ?h = {#}" using heap_bag_empty none(2) inv by auto
    moreover have "heap_min ?h = Inr None" using none(2) by (simp add: heap_min_def)
    ultimately show ?thesis using g(1)
      by (intro exI [of _ "-1"] exI [of _ "kernel w"]) (simp add: sched_poll_timeout_def e deref_def)
  next
    case timer
    obtain t h' where t: "heap_min ?h = Inr (Some t)" "heap_bag ?h = add_mset t (heap_bag h')"
      "\<forall>y\<in>#heap_bag ?h. nanos (tw_time t) \<le> nanos (tw_time y)" "sane_time (tw_time t)"
      using timers_pop [OF g(2) timer(2)] by blast
    obtain ms where ms: "expiration os t w = Inr (ms, w\<lparr>kernel := tick os (kernel w)\<rparr>)"
      "nanos (tw_time t) \<le> nanos (clock os (kernel w)) \<longrightarrow> ms \<le> 0"
      "\<bar>ms * 1000000 - (nanos (tw_time t) - nanos (clock os (kernel w)))\<bar> < 1000000"
      using expiration_ok [OF os t(4), of w] by blast
    let ?T = "if ms < 0 then 0 else ms"
    have "sched_poll_timeout os cfg l w = Inr (?T, w\<lparr>kernel := tick os (kernel w)\<rparr>)"
      using timer(1) g(1) t(1) ms(1) by (simp add: sched_poll_timeout_def e deref_def)
    moreover have "\<bar>?T * 1000000 - max 0 (nanos (tw_time t) - nanos (clock os (kernel w)))\<bar> < 1000000"
      using ms(2,3) by (auto simp: max_def abs_less_iff)
    moreover have "t \<in># heap_bag ?h" "heap_bag ?h \<noteq> {#}" using t(2) by simp_all
    ultimately show ?thesis using timer(1) t(3) by (intro exI [of _ ?T] exI [of _ "tick os (kernel w)"]) auto
  qed
qed

text \<open>
  The poll timeout: 0 while coroutines are runnable, -1 (no limit) when there is nothing to
  run and no timer, and otherwise the time to the earliest timer, to within a millisecond, or 0
  if it is past.
\<close>

theorem sched_poll_timeout_earliest:
  assumes "clock_ok os" "sched_inv rq w" "l \<in> dom (locals w)" "gsched w = Some g" "timers_ok base (timer_heap g)"
  shows "\<exists>timeout k. sched_poll_timeout os cfg l w = Inr (timeout, w\<lparr>kernel := k\<rparr>) \<and>
    (k = kernel w \<or> k = tick os (kernel w)) \<and>
    (if rq l \<noteq> [] then timeout = 0
     else if heap_bag (timer_heap g) = {#} then timeout = -1
     else 0 \<le> timeout \<and> (\<exists>t\<in>#heap_bag (timer_heap g).
       (\<forall>y\<in>#heap_bag (timer_heap g). nanos (tw_time t) \<le> nanos (tw_time y)) \<and>
       \<bar>timeout * 1000000 - max 0 (nanos (tw_time t) - nanos (clock os (kernel w)))\<bar> < 1000000))"
  using assms by (rule poll_timeout_ok)

theorem sched_poll_timeout_earliest_witness:
  "\<exists>timeout k. sched_poll_timeout (simple_os 1 \<lparr>tv_sec = 99, tv_nsec = 0\<rparr>) demo_config 20 (demo_timers [timer_at 100 0 4]) =
     Inr (timeout, (demo_timers [timer_at 100 0 4])\<lparr>kernel := k\<rparr>) \<and> \<bar>timeout * 1000000 - 1000000000\<bar> < 1000000"
proof -
  let ?os = "simple_os 1 \<lparr>tv_sec = 99, tv_nsec = 0\<rparr>" and ?ts = "[timer_at 100 0 4]"
  let ?g = "(demo_global 2 2)\<lparr>timer_heap := demo_heap ?ts\<rparr>"
  have os: "clock_ok ?os" by (rule simple_clock_ok) (simp add: sane_time_def normal_time_def)
  have now: "nanos (clock ?os k) = 99000000000" "nanos (tw_time (timer_at 100 0 4)) = 100000000000" for k
    by (simp_all add: clock_def simple_os_def nanos_def timer_at_def)
  have l: "20 \<in> dom (locals (demo_timers ?ts))" "demo_queues 20 = []"
    by (simp_all add: demo_timers_def demo_world_def demo_queues_def)
  have g: "timers_ok 0 (timer_heap ?g)" "heap_bag (timer_heap ?g) = {#timer_at 100 0 4#}" using demo_heap_ok(4,5) by simp_all
  have "\<exists>timeout k. sched_poll_timeout ?os demo_config 20 (demo_timers ?ts) = Inr (timeout, (demo_timers ?ts)\<lparr>kernel := k\<rparr>) \<and>
      0 \<le> timeout \<and> (\<exists>t\<in>#heap_bag (timer_heap ?g). \<bar>timeout * 1000000 - max 0 (nanos (tw_time t) - 99000000000)\<bar> < 1000000)"
    using sched_poll_timeout_earliest [OF os demo_timers_inv(1) l(1) demo_timers_inv(4) g(1), of demo_config]
    unfolding now l(2) g(2) by (simp only: if_False simp_thms add_mset_not_empty) blast
  then show ?thesis unfolding g(2) by (simp only: set_mset_single set_mset_add_mset_insert set_mset_empty ball_simps bex_simps now) (simp, blast)
qed

text \<open>The conversion of a timeout between \<open>2\<^sup>3\<^sup>1\<close> and \<open>2\<^sup>3\<^sup>2\<close> milliseconds to an int.\<close>

lemma long_to_int_wraps: "2 ^ 31 \<le> x \<Longrightarrow> x < 2 ^ 32 \<Longrightarrow> long_to_int x = x - 2 ^ 32"
proof -
  assume x: "2 ^ 31 \<le> x" "x < 2 ^ 32"
  have "(x + 2 ^ 31) mod 2 ^ 32 = (x - 2 ^ 31 + 2 ^ 32) mod 2 ^ 32" by (simp add: add.commute)
  also have "\<dots> = (x - 2 ^ 31) mod 2 ^ 32" by (rule mod_add_self2)
  also have "\<dots> = x - 2 ^ 31" using x by (intro mod_pos_pos_trivial) simp_all
  finally show ?thesis by (simp add: long_to_int_def signed_take_bit_eq_take_bit_shift take_bit_eq_mod)
qed

text \<open>
  With nothing to run and the earliest timer between about 25 and 49 days away, the timeout
  the poller passes to \<^verbatim>\<open>epoll_wait\<close> is negative, which means no timeout: nothing but an event
  would end the call, and the timer is missed.
\<close>

theorem sched_poll_timeout_wraps:
  assumes "clock_ok os" "sched_inv rq w" "l \<in> dom (locals w)" "gsched w = Some g" "timers_ok base (timer_heap g)"
    and "rq l = []" "heap_bag (timer_heap g) \<noteq> {#}"
    and "\<forall>t\<in>#heap_bag (timer_heap g). (2 ^ 31 + 1) * 1000000 \<le> nanos (tw_time t) - nanos (clock os (kernel w)) \<and>
      nanos (tw_time t) - nanos (clock os (kernel w)) \<le> (2 ^ 32 - 1) * 1000000"
  shows "\<exists>timeout w'. sched_poll_timeout os cfg l w = Inr (timeout, w') \<and> 2 ^ 31 \<le> timeout \<and>
    (\<forall>n th p. platform_poll_poll (Suc n) os cfg th p timeout w' =
      platform_poll_poll (Suc n) os cfg th p (timeout - 2 ^ 32) w') \<and> long_to_int timeout < 0"
proof -
  obtain timeout k t where t: "sched_poll_timeout os cfg l w = Inr (timeout, w\<lparr>kernel := k\<rparr>)" "0 \<le> timeout"
    "t \<in># heap_bag (timer_heap g)" "\<bar>timeout * 1000000 - max 0 (nanos (tw_time t) - nanos (clock os (kernel w)))\<bar> < 1000000"
    using poll_timeout_ok [OF assms(1-5), of cfg] assms(6,7) by auto
  define d where "d = nanos (tw_time t) - nanos (clock os (kernel w))"
  have d: "(2 ^ 31 + 1) * 1000000 \<le> d" "d \<le> (2 ^ 32 - 1) * 1000000" using assms(8) t(3) by (simp_all add: d_def)
  have "\<bar>timeout * 1000000 - d\<bar> < 1000000" using t(4) d(1) by (simp add: d_def max_def)
  with d have T: "2 ^ 31 \<le> timeout" "timeout < 2 ^ 32" by (simp_all add: abs_less_iff)
  have neg: "long_to_int timeout = timeout - 2 ^ 32" by (rule long_to_int_wraps [OF T])
  have same: "long_to_int (timeout - 2 ^ 32) = timeout - 2 ^ 32" by (rule long_to_int_small) (use T in simp_all)
  have "platform_poll_poll n os cfg th p timeout v = platform_poll_poll n os cfg th p (timeout - 2 ^ 32) v" for n th p v
  proof (induction n arbitrary: v)
    case (Suc n)
    show ?case by (simp only: platform_poll_poll.simps neg same Suc.IH)
  qed simp
  with t(1) T neg show ?thesis by (intro exI [of _ timeout] exI [of _ "w\<lparr>kernel := k\<rparr>"]) simp
qed

theorem sched_poll_timeout_wraps_witness:
  "\<exists>timeout w'. sched_poll_timeout (simple_os 1 \<lparr>tv_sec = 0, tv_nsec = 0\<rparr>) demo_config 20 (demo_timers [timer_at 3000000 0 4]) =
     Inr (timeout, w') \<and> 2 ^ 31 \<le> timeout \<and> long_to_int timeout < 0"
proof -
  let ?os = "simple_os 1 \<lparr>tv_sec = 0, tv_nsec = 0\<rparr>" and ?ts = "[timer_at 3000000 0 4]"
  let ?g = "(demo_global 2 2)\<lparr>timer_heap := demo_heap ?ts\<rparr>" and ?w = "demo_timers [timer_at 3000000 0 4]"
  have os: "clock_ok ?os" by (rule simple_clock_ok) (simp add: sane_time_def normal_time_def)
  have now: "nanos (clock ?os k) = 0" "nanos (tw_time (timer_at 3000000 0 4)) = 3000000000000000" for k
    by (simp_all add: clock_def simple_os_def nanos_def timer_at_def)
  have l: "20 \<in> dom (locals ?w)" "demo_queues 20 = []"
    by (simp_all add: demo_timers_def demo_world_def demo_queues_def)
  have "set ?ts \<subseteq> timer_window 0" by (simp add: timer_window_def timer_at_def normal_time_def)
  then have g: "timers_ok 0 (timer_heap ?g)" "heap_bag (timer_heap ?g) = {#timer_at 3000000 0 4#}"
    using demo_heap_sorted [of ?ts] by simp_all
  have "heap_bag (timer_heap ?g) \<noteq> {#}" "\<forall>t\<in>#heap_bag (timer_heap ?g). (2 ^ 31 + 1) * 1000000 \<le> nanos (tw_time t) - nanos (clock ?os (kernel ?w)) \<and>
      nanos (tw_time t) - nanos (clock ?os (kernel ?w)) \<le> (2 ^ 32 - 1) * 1000000"
    unfolding g(2) now by (simp_all add: now)
  from sched_poll_timeout_wraps [OF os demo_timers_inv(1) l(1) demo_timers_inv(4) g(1) l(2) this, of demo_config]
  show ?thesis by blast
qed

text \<open>
  After a full batch of 128 events the poller calls \<^verbatim>\<open>epoll_wait\<close> again with the same timeout
  although the coroutines of the batch are runnable by now: with no limit, they wait until
  another event comes.
\<close>

theorem platform_poll_poll_full_batch:
  assumes "sched_inv rq w" "lsched w th = Some l" "l \<in> dom (locals w)"
    and "os_epoll_wait os (epoll_fd p) MAX_EVENTS (long_to_int timeout) (kernel w) = (Inr events, k)"
    and "length events = MAX_EVENTS" "\<forall>e\<in>set events. wait_ok w (ev_data e)"
  shows "\<exists>w1 cs. sched_inv (rq(l := rq l @ cs)) w1 \<and> kernel w1 = k \<and>
    (\<forall>key\<in>ev_data ` set events. asleep w key \<longrightarrow> \<not> wait_over w key \<longrightarrow> key \<in> set cs) \<and>
    (\<forall>n. platform_poll_poll (Suc n) os cfg th p timeout w = platform_poll_poll n os cfg th p timeout w1)"
proof -
  let ?w = "w\<lparr>kernel := k\<rparr>"
  have same: "wait_ok ?w key = wait_ok w key" "asleep ?w key = asleep w key" "wait_over ?w key = wait_over w key" for key
    using asleep_irrelevant [of ?w w] by (simp_all add: wait_ok_def wait_over_def state_of_def)
  have I: "sched_inv rq ?w" by (rule sched_inv_irrelevant [OF assms(1)]) simp_all
  obtain w1 cs where w1: "deliver_events os cfg th events ?w = Inr w1" "sched_inv (rq(l := rq l @ cs)) w1"
    "delivered ?w cs w1" "\<forall>key\<in>ev_data ` set events. asleep ?w key \<longrightarrow> \<not> wait_over ?w key \<longrightarrow> key \<in> set cs"
    using deliver_events_ok [OF I, of th l events os cfg] assms(2,3,6) by (simp add: same) blast
  have "platform_poll_poll (Suc n) os cfg th p timeout w = platform_poll_poll n os cfg th p timeout w1" for n
    using w1(1) assms(4,5) by simp
  moreover have "kernel w1 = k" using w1(3) by (simp add: delivered_def)
  ultimately show ?thesis using w1(2,4) by (auto simp: same simp del: fun_upd_apply)
qed

definition batch_os :: "unit os" where
  "batch_os = (simple_os 1 \<lparr>tv_sec = 1, tv_nsec = 0\<rparr>)\<lparr>os_epoll_wait := \<lambda>e n t k.
     (Inr (replicate n \<lparr>ev_events = EPOLLIN, ev_data = 4\<rparr>), k)\<rparr>"

theorem platform_poll_poll_full_batch_witness:
  "\<exists>w1 cs. sched_inv (demo_queues(10 := demo_queues 10 @ cs)) w1 \<and> 4 \<in> set cs \<and>
     (\<forall>n. platform_poll_poll (Suc n) batch_os demo_config 0 \<lparr>epoll_fd = 3\<rparr> (-1) demo_waiting =
       platform_poll_poll n batch_os demo_config 0 \<lparr>epoll_fd = 3\<rparr> (-1) w1)"
proof -
  let ?es = "replicate MAX_EVENTS \<lparr>ev_events = EPOLLIN, ev_data = 4\<rparr>"
  have a: "os_epoll_wait batch_os (epoll_fd \<lparr>epoll_fd = 3\<rparr>) MAX_EVENTS (long_to_int (-1)) (kernel demo_waiting) = (Inr ?es, ())"
    by (simp add: batch_os_def)
  have e: "ev_data ` set ?es = {4}" "length ?es = MAX_EVENTS" by (simp_all add: MAX_EVENTS_def)
  have "wait_ok demo_waiting 4" "\<not> wait_over demo_waiting 4"
    using demo_waiting_inv(4,5) by (simp_all add: wait_ok_def wait_over_def)
  moreover from this(1) have "\<forall>x\<in>set ?es. wait_ok demo_waiting (ev_data x)" by simp
  ultimately show ?thesis
    using platform_poll_poll_full_batch [OF demo_waiting_inv(1-3) a e(2), of demo_config] demo_waiting_inv(5)
    unfolding e(1) by (simp only: ball_simps simp_thms) blast
qed

end
