(* ===== verification/System.thy ===== *)
theory System
  imports Polling
begin

text \<open>
  The scheduler as a whole: its operations as the actions of running coroutines, and the
  invariant that all of them keep. The operations of \<^verbatim>\<open>src/scheduler.c\<close> run one after another here;
  the interleaving inside a suspension is the subject of theory \<^verbatim>\<open>Scheduling\<close>.
\<close>

section \<open>The invariant\<close>

text \<open>
  Every timer belongs to a sleeping coroutine that waits for nothing else. The heap keeps its
  initial size, which a heap that has once grown may not survive.
\<close>

definition timers_held :: "int \<Rightarrow> 'k world \<Rightarrow> global_sched \<Rightarrow> bool" where
  "timers_held base w g \<longleftrightarrow> \<not> gs_lock g \<and> timers_ok base (timer_heap g) \<and> heap_small (timer_heap g) \<and>
     one_timer_each (heap_bag (timer_heap g)) \<and>
     (\<forall>t\<in>#heap_bag (timer_heap g). asleep w (tw_coro t) \<and> waits w (tw_coro t) = None)"

definition slots_held :: "global_sched \<Rightarrow> bool" where
  "slots_held g \<longleftrightarrow> length (local_schedulers g) = local_size g \<and> local_size g < 2 ^ 32"

text \<open>A coroutine that something will wake: a timer of its own, or an event it waits for.\<close>

definition has_waker :: "'k world \<Rightarrow> global_sched \<Rightarrow> coro \<Rightarrow> bool" where
  "has_waker w g c \<longleftrightarrow> (\<exists>t\<in>#heap_bag (timer_heap g). tw_coro t = c) \<or> waits w c \<noteq> None"

definition active :: "(nat \<Rightarrow> coro list) \<Rightarrow> 'k world \<Rightarrow> coro \<Rightarrow> bool" where
  "active rq w c \<longleftrightarrow> (\<exists>l. current w l = Some c) \<or> queued rq c"

definition system_inv :: "int \<Rightarrow> (nat \<Rightarrow> coro list) \<Rightarrow> 'k world \<Rightarrow> bool" where
  "system_inv base rq w \<longleftrightarrow> sched_inv rq w \<and> (\<forall>key. wait_held w key) \<and> dom (waits w) \<subseteq> dom (coros w) \<and>
     (\<exists>g. gsched w = Some g \<and> timers_held base w g \<and> slots_held g \<and>
        (\<forall>c\<in>dom (coros w). active rq w c \<or> asleep w c \<and> has_waker w g c))"

lemma system_invD:
  assumes "system_inv base rq w"
  shows "sched_inv rq w" "wait_held w key" "dom (waits w) \<subseteq> dom (coros w)"
  using assms by (simp_all add: system_inv_def)

lemma system_invE:
  assumes "system_inv base rq w"
  obtains g where "gsched w = Some g" "timers_held base w g" "slots_held g"
    "\<And>c. c \<in> dom (coros w) \<Longrightarrow> active rq w c \<or> asleep w c \<and> has_waker w g c"
  using assms by (auto simp: system_inv_def)

lemma active_not_asleep:
  assumes "sched_inv rq w" "active rq w c"
  shows "\<not> asleep w c"
  using sched_invD(9) [OF assms(1)] assms(2) unfolding asleep_def active_def by blast

lemma asleep_frame:
  assumes "asleep w y" "coros w' y = coros w y" "\<And>k. event_loop w' k = Some y \<Longrightarrow> \<exists>k. event_loop w k = Some y"
  shows "asleep w' y"
  using assms unfolding asleep_def state_of_def ready_def by auto

text \<open>Steps that change nobody's sleep.\<close>

lemma system_inv_keep:
  assumes S: "system_inv base rq w" and I: "sched_inv rq' w'"
    and same: "waits w' = waits w" "\<And>c. asleep w c \<Longrightarrow> asleep w' c" "dom (waits w) \<subseteq> dom (coros w')"
    and g: "gsched w = Some g" "gsched w' = Some g'" "timer_heap g' = timer_heap g" "gs_lock g' = gs_lock g" "slots_held g'"
    and acc: "\<And>c. c \<in> dom (coros w') \<Longrightarrow> active rq' w' c \<or> asleep w c"
    and new: "\<And>c. c \<in> dom (coros w) \<Longrightarrow> active rq w c \<Longrightarrow> \<not> asleep w' c"
  shows "system_inv base rq' w'"
proof -
  have T: "timers_held base w g" "\<forall>c\<in>dom (coros w). active rq w c \<or> asleep w c \<and> has_waker w g c"
    using S g(1) by (auto simp: system_inv_def)
  have live: "asleep w c \<Longrightarrow> c \<in> dom (coros w)" for c by (rule asleep_live)
  have held: "wait_held w' key" for key
  proof (cases "waits w key")
    case None
    then show ?thesis by (simp add: wait_held_def same(1))
  next
    case (Some wt)
    then have "key \<in> dom (coros w)" using system_invD(3) [OF S] by blast
    then have "asleep w' key = asleep w key" using T(2) new same(2) by blast
    with system_invD(2) [OF S] same(1) show ?thesis by (intro wait_held_irrelevant [of w' key w]) simp_all
  qed
  have "asleep w c \<and> has_waker w g c" if "asleep w c" for c
    using T(2) live [OF that] that active_not_asleep [OF system_invD(1) [OF S]] by blast
  then have "\<forall>c\<in>dom (coros w'). active rq' w' c \<or> asleep w' c \<and> has_waker w' g' c"
    using acc same(2) unfolding has_waker_def same(1) g(3) by blast
  moreover have "timers_held base w' g'" using T(1) same(2) by (auto simp: timers_held_def g same(1))
  ultimately show ?thesis using I held same(1,3) g(2,5) by (simp add: system_inv_def)
qed

text \<open>The active coroutines of a local scheduler trade places.\<close>

lemma active_step:
  assumes "active rq w y" "current w l = Some c" "\<And>k. k \<noteq> l \<Longrightarrow> current w' k = current w k" "current w' l = Some x"
    and "y \<in> insert c (set (rq l)) \<Longrightarrow> y \<in> insert x (set q)"
  shows "active (rq(l := q)) w' y"
proof -
  consider k where "current w k = Some y" | k where "y \<in> set (rq k)"
    using assms(1) unfolding active_def queued_def by blast
  then show ?thesis
  proof cases
    case 1
    then show ?thesis using assms(2,4,5) assms(3) [of k] by (cases "k = l") (auto simp: active_def queued_def)
  next
    case 2
    then show ?thesis using assms(4,5) by (cases "k = l") (auto simp: active_def queued_def)
  qed
qed

section \<open>Waking\<close>

lemma one_timer_part:
  assumes "one_timer_each (mset ts + H)"
  shows "one_timer_each H" "t \<in># H \<Longrightarrow> tw_coro t \<notin> tw_coro ` set ts"
proof -
  have le: "count (image_mset tw_coro (mset ts)) c + count (image_mset tw_coro H) c \<le> 1" for c
    using assms by (simp add: one_timer_each_def)
  show "one_timer_each H" unfolding one_timer_each_def using le by (metis add_leD2)
  show "tw_coro t \<notin> tw_coro ` set ts" if t: "t \<in># H"
  proof
    assume "tw_coro t \<in> tw_coro ` set ts"
    then have "tw_coro t \<in># image_mset tw_coro (mset ts)" "tw_coro t \<in># image_mset tw_coro H" using t by auto
    then have "0 < count (image_mset tw_coro (mset ts)) (tw_coro t)" "0 < count (image_mset tw_coro H) (tw_coro t)"
      by (simp_all only: count_greater_zero_iff)
    with le [of "tw_coro t"] show False by simp
  qed
qed

lemma system_inv_wake:
  assumes S: "system_inv base rq w" and K: "woke w cs w'" and I: "sched_inv (rq(l := rq l @ cs)) w'"
    and g: "gsched w = Some g" "gsched w' = Some (g\<lparr>timer_heap := h'\<rparr>)" "timers_ok base h'" "heap_small h'"
    and ts: "heap_bag (timer_heap g) = mset ts + heap_bag h'" "\<forall>t\<in>#heap_bag h'. tw_coro t \<notin> set cs"
      "tw_coro ` set ts \<subseteq> set cs"
    and held: "\<And>key. wait_held w' key"
  shows "system_inv base (rq(l := rq l @ cs)) w'"
proof -
  have T: "timers_held base w g" "slots_held g" "\<forall>c\<in>dom (coros w). active rq w c \<or> asleep w c \<and> has_waker w g c"
    using S g(1) by (auto simp: system_inv_def)
  have k: "locals w' = locals w" "dom (coros w') = dom (coros w)" "\<And>c. asleep w' c \<longleftrightarrow> asleep w c \<and> c \<notin> set cs"
    using K by (simp_all add: woke_def)
  have waits: "dom (waits w') = dom (waits w)" by (rule woke_waits [OF K])
  have cur: "current w' = current w" by (rule ext) (simp add: current_def k(1))
  have act: "active (rq(l := rq l @ cs)) w' c" if "active rq w c \<or> c \<in> set cs" for c
    using that unfolding active_def queued_def cur by (auto simp: exI [of _ l])
  have "active (rq(l := rq l @ cs)) w' c \<or> asleep w' c \<and> has_waker w' (g\<lparr>timer_heap := h'\<rparr>) c"
    if c: "c \<in> dom (coros w')" for c
  proof (cases "active rq w c \<or> c \<in> set cs")
    case True
    then show ?thesis using act by blast
  next
    case False
    then have "asleep w c" "has_waker w g c" using T(3) c k(2) by auto
    moreover have "has_waker w' (g\<lparr>timer_heap := h'\<rparr>) c"
      using calculation(2) False ts(1,3) waits by (auto simp: has_waker_def)
    ultimately show ?thesis using k(3) False by blast
  qed
  moreover have "waits w' (tw_coro t) = None" if "t \<in># heap_bag h'" for t
    using T(1) that ts(1) waits by (auto simp: timers_held_def)
  moreover have "one_timer_each (heap_bag h')"
    using T(1) one_timer_part(1) [of ts "heap_bag h'"] by (simp add: timers_held_def ts(1))
  ultimately show ?thesis
    using T(1,2) I held system_invD(3) [OF S] k(2,3) waits ts(1,2) g(2-4)
    by (simp add: system_inv_def timers_held_def slots_held_def)
qed

section \<open>Actions\<close>

text \<open>
  What a running coroutine can do: \<^verbatim>\<open>sched_resched\<close>, \<^verbatim>\<open>sched_wait\<close>, the two parts of
  \<^verbatim>\<open>sched_event_wait\<close>, \<^verbatim>\<open>sched_new_coroutine\<close>, returning from its function, and, for an event loop, a turn.
\<close>

datatype action = Yield | Sleep timespec | Await int uint32 | Awaited | Spawn start_fn nat | Leave | Turn

definition perform :: "nat \<Rightarrow> 'k os \<Rightarrow> config \<Rightarrow> nat \<Rightarrow> action \<Rightarrow> 'k op" where
  "perform n os cfg th a w =
     (case a of
        Yield \<Rightarrow> sched_resched os cfg th w
      | Sleep time \<Rightarrow> sched_wait os cfg th time w
      | Await fd events \<Rightarrow> event_wait_begin os cfg th fd events w
      | Awaited \<Rightarrow> andthen (event_wait_end os th w) (\<lambda>(_, w). Inr w)
      | Spawn start arg \<Rightarrow> andthen (sched_new_coroutine os cfg th start arg w) (\<lambda>(_, w). Inr w)
      | Leave \<Rightarrow> sched_coro_die cfg th w
      | Turn \<Rightarrow> andthen (deref (lsched w th)) (\<lambda>l. sched_loop_turn n os cfg th l w))"

text \<open>
  What the operations rely on: the system serves requests and has fewer than \<open>2\<^sup>3\<^sup>2\<close> processors, the clock works, \<^verbatim>\<open>epoll_ctl\<close> accepts the
  descriptors, reported events are not empty, and interruptions and full batches run out.
\<close>

definition kernel_ok :: "'k os \<Rightarrow> ('k \<Rightarrow> nat) \<Rightarrow> nat \<Rightarrow> bool" where
  "kernel_ok os m n \<longleftrightarrow> os_ok os \<and> (\<forall>k. snd (fst (os_sched_getaffinity os k)) < 2 ^ 32) \<and> clock_ok os \<and> (\<forall>e f fd ev k. fst (os_epoll_ctl os e f fd ev k) = 0) \<and>
     (\<forall>k. m k < n) \<and> (\<forall>p timeout. settles os p timeout m \<and> (\<forall>err. \<not> poll_failure os p timeout err) \<and>
       (\<forall>k. events_ok (poll_answer os p timeout k)))"

text \<open>
  When an action may be taken by coroutine \<open>c\<close>, running on local scheduler \<open>l\<close>: a coroutine inside
  \<^verbatim>\<open>sched_event_wait\<close> goes on there, an event loop turns, and the timers stay below the number the
  heap's first block holds. Only coroutines with a stack of their own end by returning. The
  kernel reports registered waits only.
\<close>

definition allowed :: "'k os \<Rightarrow> int \<Rightarrow> 'k world \<Rightarrow> nat \<Rightarrow> coro \<Rightarrow> action \<Rightarrow> bool" where
  "allowed os base w l c a \<longleftrightarrow>
     (if event_loop w l = Some c then
        a = Turn \<and> (\<forall>g timeout. gsched w = Some g \<longrightarrow> reports_waits os (gs_poller g) timeout w)
      else if waits w c \<noteq> None then a = Awaited
      else case a of
          Yield \<Rightarrow> True
        | Sleep time \<Rightarrow> \<lparr>tw_time = time, tw_coro = c\<rparr> \<in> timer_window base \<and>
            (\<forall>g. gsched w = Some g \<longrightarrow> hp_items (timer_heap g) + 1 < INITIAL_SIZE)
        | Await fd events \<Rightarrow> True
        | Spawn start arg \<Rightarrow> True
        | Leave \<Rightarrow> co_stack (the (coros w c)) \<noteq> None
        | _ \<Rightarrow> False)"

section \<open>Each action keeps the invariant\<close>

lemma yield_ok:
  assumes S: "system_inv base rq w" and R: "running w th l c"
  shows "\<exists>w' rq'. sched_resched os cfg th w = Inr w' \<and> system_inv base rq' w'"
proof (cases "rq l")
  case Nil
  with resched_empty [OF system_invD(1) [OF S] R] S show ?thesis by blast
next
  case (Cons x xs)
  have I: "sched_inv rq w" by (rule system_invD(1) [OF S])
  obtain m where m: "sched_resched os cfg th w = Inr (switched th l c x m w)"
    "sched_inv (rq(l := xs @ [c])) (switched th l c x m w)"
    using resched_ok [OF I R Cons] by blast
  let ?w = "switched th l c x m w" and ?rq = "rq(l := xs @ [c])"
  from R obtain ls where l: "locals w l = Some ls" "current_coro ls = Some c" by (rule running_local)
  have cur: "current w l = Some c" using R by (simp add: running_def)
  have live: "c \<in> dom (coros w)" by (rule sched_invD(4) [OF I cur])
  have cur': "current ?w l = Some x" "k \<noteq> l \<Longrightarrow> current ?w k = current w k" for k
    using l by (simp_all add: current_def switched_def)
  have dom: "dom (coros ?w) = dom (coros w)" using live by (auto simp: switched_def)
  have act: "active ?rq ?w y" if "active rq w y" for y
    by (rule active_step [OF that cur]) (use Cons cur' in auto)
  have sl: "asleep ?w y" if "asleep w y" for y
  proof -
    have "y \<noteq> c" using that active_not_asleep [OF I, of c] cur by (auto simp: active_def)
    then have "coros ?w y = coros w y" by (simp add: switched_def)
    moreover have "event_loop ?w = event_loop w" using l by (auto simp: event_loop_def switched_def)
    ultimately show ?thesis by (intro asleep_frame [OF that]) auto
  qed
  obtain g where g: "gsched w = Some g" "slots_held g" "\<And>c. c \<in> dom (coros w) \<Longrightarrow> active rq w c \<or> asleep w c"
    using S by (elim system_invE) blast
  have w: "waits ?w = waits w" "gsched ?w = Some g" "dom (waits w) \<subseteq> dom (coros ?w)"
    using g(1) system_invD(3) [OF S] by (simp_all only: dom) (simp_all add: switched_def)
  have acc: "active ?rq ?w y \<or> asleep w y" if "y \<in> dom (coros ?w)" for y using g(3) [of y] act that dom by blast
  have new: "\<not> asleep ?w y" if "active rq w y" for y using act [OF that] active_not_asleep [OF m(2)] by blast
  have "system_inv base ?rq ?w"
    by (rule system_inv_keep [OF S m(2) w(1) sl w(3) g(1) w(2) refl refl g(2) acc new])
  with m(1) show ?thesis by blast
qed

lemma leave_ok:
  assumes S: "system_inv base rq w" and R: "running w th l c" and loop: "event_loop w l \<noteq> Some c"
    and c: "waits w c = None" "co_stack (the (coros w c)) \<noteq> None"
  shows "\<exists>w' rq'. sched_coro_die cfg th w = Inr w' \<and> system_inv base rq' w'"
proof -
  have I: "sched_inv rq w" by (rule system_invD(1) [OF S])
  obtain x xs where q: "rq l = x # xs" using I R loop by (rule queue_nonempty)
  from R obtain ls where l: "locals w l = Some ls" "current_coro ls = Some c" by (rule running_local)
  have cur: "current w l = Some c" using R by (simp add: running_def)
  obtain cc where cc: "coros w c = Some cc" using sched_invD(4) [OF I cur] by blast
  obtain m where m: "sched_coro_die cfg th w = Inr (buried l c x m w)" "sched_inv (rq(l := xs)) (buried l c x m w)"
    using die_ok [OF I R q loop cc] c(2) cc by auto
  let ?w = "buried l c x m w"
  have cur': "current ?w l = Some x" "k \<noteq> l \<Longrightarrow> current ?w k = current w k" for k
    using l by (simp_all add: current_def buried_def)
  have dom: "dom (coros ?w) = dom (coros w) - {c}" by (auto simp: buried_def)
  have act: "active (rq(l := xs)) ?w y" if "active rq w y" "y \<noteq> c" for y
    by (rule active_step [OF that(1) cur]) (use q cur' that(2) in auto)
  have sl: "asleep ?w y" if "asleep w y" for y
  proof -
    have "y \<noteq> c" using that active_not_asleep [OF I, of c] cur by (auto simp: active_def)
    then have "coros ?w y = coros w y" by (simp add: buried_def)
    moreover have "event_loop ?w = event_loop w" using l by (auto simp: event_loop_def buried_def)
    ultimately show ?thesis by (intro asleep_frame [OF that]) auto
  qed
  obtain g where g: "gsched w = Some g" "slots_held g" "\<And>c. c \<in> dom (coros w) \<Longrightarrow> active rq w c \<or> asleep w c"
    using S by (elim system_invE) blast
  have dead: "\<not> asleep ?w c" using asleep_live [of ?w c] dom by blast
  have w: "waits ?w = waits w" "gsched ?w = Some g" "dom (waits w) \<subseteq> dom (coros ?w)"
    using g(1) system_invD(3) [OF S] c(1) by (simp add: buried_def, simp add: buried_def, unfold dom) blast
  have acc: "active (rq(l := xs)) ?w y \<or> asleep w y" if "y \<in> dom (coros ?w)" for y using g(3) [of y] act that dom by blast
  have new: "\<not> asleep ?w y" if "active rq w y" for y
    using act [OF that] active_not_asleep [OF m(2)] dead by (cases "y = c") blast+
  have "system_inv base (rq(l := xs)) ?w"
    by (rule system_inv_keep [OF S m(2) w(1) sl w(3) g(1) w(2) refl refl g(2) acc new])
  with m(1) show ?thesis by blast
qed

text \<open>A coroutine goes to sleep with a waker arranged.\<close>

lemma system_inv_sleep:
  assumes S: "system_inv base rq w" and R: "running w th l c" and q: "rq l = x # xs"
    and I: "sched_inv (rq(l := xs)) w'" and F: "fell_asleep l c x w w'"
    and g: "gsched w = Some g" "gsched w' = Some g'" "slots_held g'" "timers_held base w' g'"
    and wk: "\<And>y. has_waker w g y \<Longrightarrow> has_waker w' g' y" "has_waker w' g' c"
    and held: "\<And>key. wait_held w' key" "dom (waits w') \<subseteq> insert c (dom (waits w))"
  shows "system_inv base (rq(l := xs)) w'"
proof -
  have T: "\<forall>c\<in>dom (coros w). active rq w c \<or> asleep w c \<and> has_waker w g c"
    using S g(1) by (auto simp: system_inv_def)
  have cur: "current w l = Some c" using R by (simp add: running_def)
  have f: "dom (coros w') = dom (coros w)" "current w' = (current w)(l \<mapsto> x)" "\<And>y. asleep w' y \<longleftrightarrow> asleep w y \<or> y = c"
    using F by (simp_all add: fell_asleep_def)
  have act: "active (rq(l := xs)) w' y" if "active rq w y" "y \<noteq> c" for y
    by (rule active_step [OF that(1) cur]) (use q f(2) that(2) in auto)
  have "\<forall>y\<in>dom (coros w'). active (rq(l := xs)) w' y \<or> asleep w' y \<and> has_waker w' g' y"
    using T act wk f(3) unfolding f(1) by blast
  moreover have "c \<in> dom (coros w)" by (rule sched_invD(4) [OF system_invD(1) [OF S] cur])
  then have "dom (waits w') \<subseteq> dom (coros w')" using held(2) system_invD(3) [OF S] f(1) by blast
  ultimately show ?thesis using I held(1) g(2-4) by (simp add: system_inv_def)
qed

lemma sleep_ok:
  assumes S: "system_inv base rq w" and R: "running w th l c" and loop: "event_loop w l \<noteq> Some c"
    and c: "waits w c = None" "\<lparr>tw_time = time, tw_coro = c\<rparr> \<in> timer_window base"
    and room: "\<And>g. gsched w = Some g \<Longrightarrow> hp_items (timer_heap g) + 1 < INITIAL_SIZE"
  shows "\<exists>w' rq'. sched_wait os cfg th time w = Inr w' \<and> system_inv base rq' w'"
proof -
  have I: "sched_inv rq w" by (rule system_invD(1) [OF S])
  obtain g where g: "gsched w = Some g" "timers_held base w g" "slots_held g" using S by (auto simp: system_inv_def)
  have h: "\<not> gs_lock g" "timers_ok base (timer_heap g)" "heap_sized (timer_heap g)" "hp_size (timer_heap g) = INITIAL_SIZE"
    "heap_small (timer_heap g)" "hp_items (timer_heap g) < 2 ^ 30"
    using g(2) room [OF g(1)] by (simp_all add: timers_held_def heap_small_def INITIAL_SIZE_def)
  have r: "hp_items (timer_heap g) + 1 \<ge> hp_size (timer_heap g) \<longrightarrow>
      allocator (heap_alloc os w) \<and> heap_alloc os w (hp_size (timer_heap g) * 2 * ptr_bytes)"
    using room [OF g(1)] h(4) by simp
  let ?t = "\<lparr>tw_time = time, tw_coro = c\<rparr>"
  obtain x xs w' h' where w': "rq l = x # xs" "sched_wait os cfg th time w = Inr w'" "sched_inv (rq(l := xs)) w'"
    "gsched w' = Some (g\<lparr>timer_heap := h'\<rparr>)" "timers_ok base h'" "heap_bag h' = add_mset ?t (heap_bag (timer_heap g))"
    "fell_asleep l c x w w'" "waits w' = waits w" "heap_small h'"
    using sched_wait_ok [OF I R loop g(1) h(1-3,6) c(2) r, of cfg] h(5) room [OF g(1)] by blast
  have sl: "\<And>y. asleep w' y \<longleftrightarrow> asleep w y \<or> y = c" using w'(7) by (simp add: fell_asleep_def)
  have nc: "\<not> asleep w c" using R by (intro active_not_asleep [OF I]) (auto simp: active_def running_def)
  have one: "one_timer_each (heap_bag h')"
    unfolding w'(6) by (rule one_timer_add) (use g(2) nc in \<open>auto simp: timers_held_def\<close>)
  have T: "timers_held base w' (g\<lparr>timer_heap := h'\<rparr>)"
    using g(2) h(1) w'(5,6,8,9) c(1) one sl by (auto simp: timers_held_def)
  have held: "wait_held w' key" for key
  proof (cases "key = c")
    case False
    then show ?thesis using system_invD(2) [OF S] w'(8) sl by (intro wait_held_irrelevant [of w' key w]) simp_all
  qed (simp add: wait_held_def w'(8) c(1))
  have "system_inv base (rq(l := xs)) w'"
    by (rule system_inv_sleep [OF S R w'(1,3,7) g(1) w'(4) _ T])
      (use g(3) w'(6,8) held in \<open>auto simp: slots_held_def has_waker_def\<close>)
  with w'(2) show ?thesis by blast
qed

lemma await_ok:
  assumes S: "system_inv base rq w" and R: "running w th l c" and loop: "event_loop w l \<noteq> Some c"
    and c: "waits w c = None" and ctl: "\<And>e f fd ev k. fst (os_epoll_ctl os e f fd ev k) = 0"
  shows "\<exists>w' rq'. event_wait_begin os cfg th fd events w = Inr w' \<and> system_inv base rq' w'"
proof -
  have I: "sched_inv rq w" by (rule system_invD(1) [OF S])
  obtain g where g: "gsched w = Some g" "timers_held base w g" "slots_held g" using S by (auto simp: system_inv_def)
  let ?ev = "Some \<lparr>ev_events = events OR EPOLLET OR EPOLLONESHOT, ev_data = c\<rparr>"
  have "os_epoll_ctl os (epoll_fd (gs_poller g)) EPOLL_CTL_ADD fd ?ev (kernel w) =
      (0, snd (os_epoll_ctl os (epoll_fd (gs_poller g)) EPOLL_CTL_ADD fd ?ev (kernel w)))"
    using ctl by (intro prod_eqI) simp_all
  from event_wait_ok [OF I R loop g(1) this, of cfg] obtain x xs w' where w': "rq l = x # xs"
    "event_wait_begin os cfg th fd events w = Inr w'" "sched_inv (rq(l := xs)) w'" "asleep w' c"
    "waits w' = (waits w)(c \<mapsto> \<lparr>ew_fd = fd, ew_events = 0, ew_coro = Some c\<rparr>)" "gsched w' = gsched w" "fell_asleep l c x w w'"
    by blast
  have sl: "\<And>y. asleep w' y \<longleftrightarrow> asleep w y \<or> y = c" using w'(7) by (simp add: fell_asleep_def)
  have nc: "\<not> asleep w c" using R by (intro active_not_asleep [OF I]) (auto simp: active_def running_def)
  have T: "timers_held base w' g" using g(2) w'(5) sl nc by (auto simp: timers_held_def)
  have held: "wait_held w' key" for key
  proof (cases "key = c")
    case False
    then show ?thesis using system_invD(2) [OF S] w'(5) sl by (intro wait_held_irrelevant [of w' key w]) simp_all
  qed (simp add: wait_held_def w'(4,5))
  have "system_inv base (rq(l := xs)) w'"
    by (rule system_inv_sleep [OF S R w'(1,3,7) g(1) _ g(3) T])
      (use g(1) w'(5,6) held in \<open>auto simp: has_waker_def\<close>)
  with w'(2) show ?thesis by blast
qed

lemma awaited_ok:
  assumes S: "system_inv base rq w" and R: "running w th l c"
    and c: "waits w c \<noteq> None" and ctl: "\<And>e f fd ev k. fst (os_epoll_ctl os e f fd ev k) = 0"
  shows "\<exists>events w'. event_wait_end os th w = Inr (events, w') \<and> events \<noteq> 0 \<and> waits w' = (waits w)(c := None) \<and>
    running w' th l c \<and> system_inv base rq w'"
proof -
  have I: "sched_inv rq w" by (rule system_invD(1) [OF S])
  obtain g where g: "gsched w = Some g" "timers_held base w g" "slots_held g"
    "\<forall>c\<in>dom (coros w). active rq w c \<or> asleep w c \<and> has_waker w g c" using S by (auto simp: system_inv_def)
  obtain wt where wt: "waits w c = Some wt" using c by blast
  have cur: "lsched w th = Some l" "current w l = Some c" using R by (simp_all add: running_def)
  have nc: "\<not> asleep w c" using cur by (intro active_not_asleep [OF I]) (auto simp: active_def)
  then have ev: "ew_events wt \<noteq> 0" using system_invD(2) [OF S, of c] wt by (simp add: wait_held_def)
  define k where "k = snd (platform_poll_unregister os (gs_poller g) (ew_fd wt) (kernel w))"
  define w' where "w' = w\<lparr>waits := (waits w)(c := None), kernel := k\<rparr>"
  have cu: "sched_get_current l w = Inr (Some c)"
    using cur(2) by (auto simp: sched_get_current_def local_of_def current_def split: option.splits)
  have "platform_poll_unregister os (gs_poller g) (ew_fd wt) (kernel w) = (0, k)"
    using ctl by (intro prod_eqI) (simp_all add: k_def platform_poll_unregister_def)
  then have run: "event_wait_end os th w = Inr (ew_events wt, w')"
    using cur(1) cu wt g(1) ev by (simp add: event_wait_end_def deref_def w'_def)
  have I': "sched_inv rq w'" by (rule sched_inv_irrelevant [OF I]) (simp_all add: w'_def)
  have sl: "asleep w' y = asleep w y" for y by (rule asleep_irrelevant) (simp_all add: w'_def)
  have held: "wait_held w' key" for key
  proof (cases "key = c")
    case False
    then show ?thesis using system_invD(2) [OF S] sl by (intro wait_held_irrelevant [of w' key w]) (simp_all add: w'_def)
  qed (simp add: wait_held_def w'_def)
  have act: "active rq w' y = active rq w y" for y by (simp add: active_def current_def w'_def)
  have wk: "has_waker w' g y" if "has_waker w g y" "y \<noteq> c" for y using that by (simp add: has_waker_def w'_def)
  have "timers_held base w' g" using g(2) by (auto simp: timers_held_def sl) (auto simp: w'_def)
  moreover have "\<forall>y\<in>dom (coros w'). active rq w' y \<or> asleep w' y \<and> has_waker w' g y"
    using g(4) wk nc unfolding act sl by (auto simp: w'_def)
  moreover have "dom (waits w') \<subseteq> dom (coros w')" using system_invD(3) [OF S] by (simp add: w'_def) blast
  moreover have "gsched w' = Some g" using g(1) by (simp add: w'_def)
  ultimately have "system_inv base rq w'" using I' held g(3) by (simp add: system_inv_def)
  moreover have "running w' th l c" using R by (simp add: running_def current_def w'_def)
  ultimately show ?thesis using run ev by (simp add: w'_def)
qed

lemma system_inv_irrelevant:
  assumes S: "system_inv base rq w" and w': "coros w' = coros w" "locals w' = locals w" "nodes w' = nodes w"
    "brk w' = brk w" "gsched w' = gsched w" "waits w' = waits w"
  shows "system_inv base rq w'"
proof -
  have I: "sched_inv rq w'" by (rule sched_inv_irrelevant [OF system_invD(1) [OF S]]) (simp_all add: w')
  have *: "asleep w' = asleep w" by (rule ext, rule asleep_irrelevant [OF w'(1,2)])
  have **: "active rq w' = active rq w" by (rule ext) (simp add: active_def current_def w'(2))
  have "wait_held w' = wait_held w" by (rule ext) (simp add: wait_held_def w'(6) *)
  with S I show ?thesis by (simp add: system_inv_def timers_held_def has_waker_def w' * **)
qed

lemma polled_ok:
  assumes S: "system_inv base rq w" and l: "lsched w th = Some l" "l \<in> dom (locals w)" and g: "gsched w = Some g"
    and K: "kernel_ok os m n" and W: "reports_waits os (gs_poller g) timeout w"
  shows "\<exists>w' cs. platform_poll_poll n os cfg th (gs_poller g) timeout w = Inr (0, w') \<and>
    system_inv base (rq(l := rq l @ cs)) w' \<and> locals w' = locals w \<and> lsched w' = lsched w \<and> gsched w' = gsched w"
proof -
  let ?p = "gs_poller g"
  have k: "settles os ?p timeout m" "m (kernel w) < n" "\<forall>err. \<not> poll_failure os ?p timeout err"
    "\<forall>k. events_ok (poll_answer os ?p timeout k)"
    using K by (simp_all add: kernel_ok_def)
  obtain w' cs where w': "platform_poll_poll n os cfg th ?p timeout w = Inr (0, w')" "sched_inv (rq(l := rq l @ cs)) w'"
    "gsched w' = gsched w" "woke w cs (w'\<lparr>errno := errno w\<rparr>)" "set cs \<subseteq> dom (waits w)"
    "\<forall>key. wait_held w key \<longrightarrow> wait_held w' key"
    using poll_ok [OF system_invD(1) [OF S] l W k(1,2), of cfg] k(3,4) by blast
  let ?v = "w'\<lparr>errno := errno w\<rparr>"
  obtain g1 where g1: "gsched w = Some g1" "timers_held base w g1" using S by (rule system_invE)
  then have T: "timers_held base w g" using g by simp
  have held: "wait_held ?v key" for key
    using w'(6) system_invD(2) [OF S] by (intro wait_held_irrelevant [of ?v key w']) (simp_all add: errno_irrelevant)
  have gv: "gsched ?v = Some (g\<lparr>timer_heap := timer_heap g\<rparr>)" using w'(3) g by simp
  have Iv: "sched_inv (rq(l := rq l @ cs)) ?v" by (rule sched_inv_irrelevant [OF w'(2)]) simp_all
  have "\<forall>t\<in>#heap_bag (timer_heap g). tw_coro t \<notin> set cs" using T w'(5) by (auto simp: timers_held_def)
  then have "system_inv base (rq(l := rq l @ cs)) ?v"
    using T by (intro system_inv_wake [OF S w'(4) Iv g gv _ _ _ _ _ held, of "[]"]) (simp_all add: timers_held_def)
  then have "system_inv base (rq(l := rq l @ cs)) w'" by (rule system_inv_irrelevant) simp_all
  then show ?thesis using w'(1,3,4) by (auto simp: woke_def)
qed

lemma timers_handled_ok:
  assumes S: "system_inv base rq w" and l: "lsched w th = Some l" "l \<in> dom (locals w)" and K: "clock_ok os"
  shows "\<exists>w' (ts :: timer_wait list). sched_handle_timers os cfg th w = Inr w' \<and> system_inv base (rq(l := rq l @ map tw_coro ts)) w' \<and>
    locals w' = locals w \<and> lsched w' = lsched w"
proof -
  obtain g where g: "gsched w = Some g" "timers_held base w g" using S by (rule system_invE)
  have h: "\<not> gs_lock g" "timers_ok base (timer_heap g)" "\<forall>t\<in>#heap_bag (timer_heap g). asleep w (tw_coro t)"
    "one_timer_each (heap_bag (timer_heap g))" "heap_small (timer_heap g)"
    using g(2) by (auto simp: timers_held_def)
  obtain w' ts h' where w': "sched_handle_timers os cfg th w = Inr w'" "sched_inv (rq(l := rq l @ map tw_coro ts)) w'"
    "gsched w' = Some (g\<lparr>timer_heap := h'\<rparr>)" "timers_ok base h'" "heap_bag (timer_heap g) = mset ts + heap_bag h'"
    "woke w (map tw_coro ts) w'" "waits w' = waits w" "heap_small h'"
    using handle_timers_ok [OF K system_invD(1) [OF S] l g(1) h(1-4), of cfg] h(5) by blast
  have sl: "asleep w' c \<longleftrightarrow> asleep w c \<and> c \<notin> tw_coro ` set ts" for c using w'(6) by (simp add: woke_def)
  have none: "waits w (tw_coro t) = None" if "t \<in> set ts" for t using g(2) that w'(5) by (simp add: timers_held_def)
  have held: "wait_held w' key" for key
  proof (cases "key \<in> tw_coro ` set ts")
    case True
    then show ?thesis using none w'(7) by (auto simp: wait_held_def)
  next
    case False
    then show ?thesis using sl w'(7) system_invD(2) [OF S] by (intro wait_held_irrelevant [of w' key w]) simp_all
  qed
  have left: "\<forall>t\<in>#heap_bag h'. tw_coro t \<notin> set (map tw_coro ts)"
    using one_timer_part(2) [OF h(4) [unfolded w'(5)]] by simp
  have "system_inv base (rq(l := rq l @ map tw_coro ts)) w'"
    by (rule system_inv_wake [OF S w'(6,2) g(1) w'(3,4,8,5) left _ held]) simp
  moreover have "locals w' = locals w" "lsched w' = lsched w" using w'(6) by (simp_all add: woke_def)
  ultimately show ?thesis using w'(1) by (intro exI [of _ w'] exI [of _ ts] conjI)
qed

lemma turn_ok:
  assumes S: "system_inv base rq w" and R: "running w th l c" and K: "kernel_ok os m n"
    and W: "\<And>g timeout. gsched w = Some g \<Longrightarrow> reports_waits os (gs_poller g) timeout w"
  shows "\<exists>w' rq'. sched_loop_turn n os cfg th l w = Inr w' \<and> system_inv base rq' w'"
proof -
  have os: "clock_ok os" using K by (simp add: kernel_ok_def)
  obtain g where g: "gsched w = Some g" "timers_held base w g" using S by (rule system_invE)
  from R obtain ls where l: "locals w l = Some ls" "current_coro ls = Some c" "lsched w th = Some l" by (rule running_local)
  then have dl: "l \<in> dom (locals w)" by blast
  have T: "timers_ok base (timer_heap g)" using g(2) by (simp add: timers_held_def)
  obtain timeout k where t: "sched_poll_timeout os cfg l w = Inr (timeout, w\<lparr>kernel := k\<rparr>)"
    using poll_timeout_ok [OF os system_invD(1) [OF S] dl g(1) T, of cfg] by blast
  let ?w0 = "w\<lparr>kernel := k\<rparr>"
  have S0: "system_inv base rq ?w0" by (rule system_inv_irrelevant [OF S]) simp_all
  have eq: "wait_ok ?w0 = wait_ok w" by (rule ext) (simp add: wait_ok_def state_of_def asleep_irrelevant [of ?w0 w])
  have W0: "reports_waits os (gs_poller g) timeout ?w0" using W [OF g(1), of timeout] unfolding reports_waits_def eq .
  obtain w1 cs where w1: "platform_poll_poll n os cfg th (gs_poller g) timeout ?w0 = Inr (0, w1)"
    "system_inv base (rq(l := rq l @ cs)) w1" "locals w1 = locals w" "lsched w1 = lsched w"
    using polled_ok [OF S0 _ _ _ K W0, of th l cfg] l(3) dl g(1) by auto
  obtain w2 and ts :: "timer_wait list" where w2: "sched_handle_timers os cfg th w1 = Inr w2"
    "system_inv base ((rq(l := rq l @ cs))(l := (rq(l := rq l @ cs)) l @ map tw_coro ts)) w2" "locals w2 = locals w" "lsched w2 = lsched w"
    using timers_handled_ok [OF w1(2) _ _ os, of th l cfg] l(3) dl w1(3,4) by auto
  have run: "sched_loop_turn n os cfg th l w = (if timeout = 0 then sched_resched os cfg th w2 else Inr w2)"
    using t w1(1) w2(1) g(1) by (simp add: sched_loop_turn_def deref_def)
  have "running w2 th l c" using R w2(3,4) by (simp add: running_def current_def)
  from yield_ok [OF w2(2) this, of os cfg] run w2(2) show ?thesis by (cases "timeout = 0") auto
qed

lemma spawn_here_ok:
  assumes S: "system_inv base rq w" and R: "running w th l c" and os: "os_ok os" and g: "gsched w = Some g"
    and slots: "slots_held g" and acct: "\<And>c. c \<in> dom (coros w) \<Longrightarrow> active rq w c \<or> asleep w c" and full: "local_size g \<le> local_count g"
  shows "\<exists>b w' rq'. sched_new_coroutine os cfg th start arg w = Inr (b, w') \<and> system_inv base rq' w'"
proof -
  have I: "sched_inv rq w" by (rule system_invD(1) [OF S])
  note dw = system_invD(3) [OF S]
  from new_coroutine_fast [OF os I R g full, of cfg start arg] obtain w' where
    w': "sched_new_coroutine os cfg th start arg w = Inr (brk w, w')" "sched_inv (rq(l := rq l @ [brk w])) w'"
    "locals w' = locals w" "gsched w' = gsched w" "waits w' = waits w"
    "dom (coros w') = insert (brk w) (dom (coros w))" "\<forall>y\<in>dom (coros w). coros w' y = coros w y"
    by blast
  have loop: "event_loop w' = event_loop w" "current w' = current w"
    by (rule ext, simp add: event_loop_def current_def w'(3))+
  have sl: "asleep w' y" if "asleep w y" for y
    using w'(7) asleep_live [OF that] loop(1) by (intro asleep_frame [OF that]) auto
  have act: "active (rq(l := rq l @ [brk w])) w' y" if "active rq w y \<or> y = brk w" for y
    using that unfolding active_def queued_def loop by (auto simp: exI [of _ l])
  have acc: "active (rq(l := rq l @ [brk w])) w' y \<or> asleep w y" if "y \<in> dom (coros w')" for y
    using acct [of y] act that w'(6) by blast
  have new: "\<not> asleep w' y" if "active rq w y" for y using act that active_not_asleep [OF w'(2)] by blast
  have "dom (waits w) \<subseteq> dom (coros w')" "gsched w' = Some g" using dw w'(4,6) g by auto
  then have "system_inv base (rq(l := rq l @ [brk w])) w'"
    by (intro system_inv_keep [OF S w'(2,5) sl _ g _ refl refl slots acc new])
  with w'(1) show ?thesis by blast
qed

lemma spawn_there_ok:
  assumes S: "system_inv base rq w" and R: "running w th l c" and os: "os_ok os" and g: "gsched w = Some g"
    and slots: "slots_held g" and acct: "\<And>c. c \<in> dom (coros w) \<Longrightarrow> active rq w c \<or> asleep w c" and free: "local_count g < local_size g"
  shows "\<exists>b w' rq'. sched_new_coroutine os cfg th start arg w = Inr (b, w') \<and> system_inv base rq' w'"
proof -
  have I: "sched_inv rq w" by (rule system_invD(1) [OF S])
  note dw = system_invD(3) [OF S]
  have s: "local_size g < 2 ^ 32" "length (local_schedulers g) = local_size g" using slots by (simp_all add: slots_held_def)
  from new_coroutine_slow [OF os I R g free s, of cfg start arg] obtain w' l' d where
    w': "sched_new_coroutine os cfg th start arg w = Inr (brk w, w')" "sched_inv (rq(l' := [brk w])) w'"
    "l' \<notin> dom (locals w)" "current w' l' = Some d" "event_loop w' l' = Some d"
    "\<forall>k\<in>dom (locals w). locals w' k = locals w k" "waits w' = waits w"
    "dom (coros w') = insert d (insert (brk w) (dom (coros w)))" "\<forall>y\<in>dom (coros w). coros w' y = coros w y"
    "d \<notin> dom (coros w)" "dom (locals w') = insert l' (dom (locals w))"
    and g': "gsched w' = Some (g\<lparr>local_count := local_count g + 1,
      local_schedulers := (local_schedulers g)[local_count g := Some l']\<rparr>)"
    by blast
  have loop: "event_loop w' k = event_loop w k" "current w' k = current w k" if "k \<noteq> l'" for k
    using that w'(6,11) by (cases "k \<in> dom (locals w)"; force simp: event_loop_def current_def domIff)+
  have "rq l' = []" using queues_okD(5) [OF sched_invD(1) [OF I]] w'(3) by blast
  moreover have "current w l' = None" using w'(3) by (simp add: current_def domIff)
  ultimately have act: "active (rq(l' := [brk w])) w' y" if "active rq w y" for y
    using that loop(2) unfolding active_def queued_def by (metis empty_iff fun_upd_other list.set(1) option.distinct(1))
  have actn: "active (rq(l' := [brk w])) w' (brk w)" "active (rq(l' := [brk w])) w' d"
    using w'(4) by (auto simp: active_def queued_def exI [of _ l'])
  have sl: "asleep w' y" if "asleep w y" for y
  proof (rule asleep_frame [OF that])
    have y: "y \<in> dom (coros w)" by (rule asleep_live [OF that])
    then show "coros w' y = coros w y" using w'(9) by blast
    show "\<exists>k. event_loop w k = Some y" if "event_loop w' k = Some y" for k
      using that loop(1) [of k] w'(5,10) y by (cases "k = l'") auto
  qed
  have acc: "active (rq(l' := [brk w])) w' y \<or> asleep w y" if "y \<in> dom (coros w')" for y
    using acct [of y] act [of y] actn that unfolding w'(8) by (elim insertE) auto
  have new: "\<not> asleep w' y" if "active rq w y" for y using act [OF that] active_not_asleep [OF w'(2)] by blast
  have "dom (waits w) \<subseteq> dom (coros w')" using dw w'(8) by auto
  then have "system_inv base (rq(l' := [brk w])) w'"
    by (intro system_inv_keep [OF S w'(2,7) sl _ g g' _ _ _ acc new]) (use s in \<open>auto simp: slots_held_def\<close>)
  with w'(1) show ?thesis by blast
qed

lemma spawn_ok:
  assumes S: "system_inv base rq w" and R: "running w th l c" and os: "os_ok os"
  shows "\<exists>b w' rq'. sched_new_coroutine os cfg th start arg w = Inr (b, w') \<and> system_inv base rq' w'"
proof -
  obtain g where g: "gsched w = Some g" "slots_held g" "\<And>c. c \<in> dom (coros w) \<Longrightarrow> active rq w c \<or> asleep w c"
    using S by (elim system_invE) blast
  show ?thesis
    using spawn_here_ok [OF S R os g] spawn_there_ok [OF S R os g] by (cases "local_count g < local_size g") auto
qed

section \<open>Safety\<close>

lemma perform_ok:
  assumes S: "system_inv base rq w" and R: "running w th l c" and K: "kernel_ok os m n" and A: "allowed os base w l c a"
  shows "\<exists>w' rq'. perform n os cfg th a w = Inr w' \<and> system_inv base rq' w'"
proof (cases "event_loop w l = Some c")
  case True
  with A have "a = Turn" "\<And>g timeout. gsched w = Some g \<Longrightarrow> reports_waits os (gs_poller g) timeout w"
    by (simp_all add: allowed_def)
  with turn_ok [OF S R K, of cfg] R show ?thesis by (simp add: perform_def running_def deref_def)
next
  case loop: False
  have os: "os_ok os" "\<And>e f fd ev k. fst (os_epoll_ctl os e f fd ev k) = 0" using K by (simp_all add: kernel_ok_def)
  show ?thesis
  proof (cases "waits w c = None")
    case False
    with A loop have "a = Awaited" by (simp add: allowed_def)
    with awaited_ok [OF S R False os(2)] show ?thesis by (auto simp: perform_def)
  next
    case True
    with A loop have A: "case a of Yield \<Rightarrow> True | Sleep time \<Rightarrow> \<lparr>tw_time = time, tw_coro = c\<rparr> \<in> timer_window base \<and>
            (\<forall>g. gsched w = Some g \<longrightarrow> hp_items (timer_heap g) + 1 < INITIAL_SIZE)
        | Await fd events \<Rightarrow> True | Spawn start arg \<Rightarrow> True | Leave \<Rightarrow> co_stack (the (coros w c)) \<noteq> None | _ \<Rightarrow> False"
      by (simp add: allowed_def)
    show ?thesis
    proof (cases a)
      case Yield
      with yield_ok [OF S R, of os cfg] show ?thesis by (simp add: perform_def)
    next
      case (Sleep time)
      with A sleep_ok [OF S R loop True, of time os cfg] show ?thesis by (simp add: perform_def)
    next
      case (Await fd events)
      with await_ok [OF S R loop True os(2), of cfg fd events] show ?thesis by (simp add: perform_def)
    next
      case (Spawn start arg)
      obtain b w' rq' where "sched_new_coroutine os cfg th start arg w = Inr (b, w')" "system_inv base rq' w'"
        using spawn_ok [OF S R os(1), of cfg start arg] by blast
      with Spawn show ?thesis by (auto simp: perform_def)
    next
      case Leave
      with A leave_ok [OF S R loop True, of cfg] show ?thesis by (simp add: perform_def)
    qed (use A in simp_all)
  qed
qed


text \<open>
  The states a process goes through from its first call of the scheduler on, each action taken by
  the coroutine that runs on some thread. A created thread enters \<^verbatim>\<open>sched_loop\<close> before anything else.
\<close>

inductive reachable :: "nat \<Rightarrow> 'k os \<Rightarrow> config \<Rightarrow> int \<Rightarrow> 'k world \<Rightarrow> bool" for n os cfg base where
  start: "lsched w th = None \<Longrightarrow> coros w = Map.empty \<Longrightarrow> locals w = Map.empty \<Longrightarrow> waits w = Map.empty \<Longrightarrow>
    sched_init os cfg th w = Inr w' \<Longrightarrow> reachable n os cfg base w'"
| enter: "reachable n os cfg base w \<Longrightarrow> lsched w th = None \<Longrightarrow> l \<in> set (spawned w) \<Longrightarrow>
    sched_loop_enter os cfg th l w = Inr w' \<Longrightarrow> reachable n os cfg base w'"
| act: "reachable n os cfg base w \<Longrightarrow> running w th l c \<Longrightarrow> allowed os base w l c a \<Longrightarrow>
    perform n os cfg th a w = Inr w' \<Longrightarrow> reachable n os cfg base w'"

lemma empty_heap_ok:
  assumes "- (2 ^ 51) \<le> base" "base < 2 ^ 51"
  shows "timers_ok base empty_heap" "heap_small empty_heap" "heap_bag empty_heap = {#}"
proof -
  have *: "empty_heap = sorted_heap timer_compare [] 15"
    by (simp add: empty_heap_def sorted_heap_def INITIAL_SIZE_def eval_nat_numeral)
  have "heap_inv (timer_window base) empty_heap" "heap_sized empty_heap"
    unfolding * by (rule sorted_heap_inv [OF timers.comparator_axioms]; simp)+
  with assms show "timers_ok base empty_heap" "heap_small empty_heap"
    by (simp_all add: timers_ok_def heap_small_def) (simp_all add: empty_heap_def)
  show "heap_bag empty_heap = {#}" by (simp add: heap_bag_def empty_heap_def bag_def)
qed

lemma start_ok:
  assumes K: "kernel_ok os m n" and base: "- (2 ^ 51) \<le> base" "base < 2 ^ 51"
    and w: "lsched w th = None" "coros w = Map.empty" "locals w = Map.empty" "waits w = Map.empty"
  shows "\<exists>w' rq l d. sched_init os cfg th w = Inr w' \<and> system_inv base rq w' \<and> running w' th l d \<and>
    event_loop w' l \<noteq> Some d \<and> waits w' = Map.empty"
proof -
  have os: "os_ok os" using K by (simp add: kernel_ok_def)
  obtain w' l d e g where i: "sched_init os cfg th w = Inr w'" "sched_inv ((\<lambda>_. [])(l := [e])) w'"
    "running w' th l d" "gsched w' = Some g" "local_schedulers g = Some l # replicate (local_size g - 1) None"
    "0 < local_size g" "\<not> gs_lock g" "timer_heap g = empty_heap" "waits w' = waits w" "dom (coros w') = {d, e}"
    "local_size g = snd (fst (os_sched_getaffinity os (kernel w)))" "event_loop w' l = Some e" "e \<noteq> d"
    using init_ok [OF os w(1-3), of cfg] by blast
  note h = empty_heap_ok [OF base]
  have "slots_held g" using i(5,6,11) K by (simp add: slots_held_def kernel_ok_def)
  moreover have "timers_held base w' g" using h i(7,8) by (simp add: timers_held_def one_timer_each_def)
  moreover have "active ((\<lambda>_. [])(l := [e])) w' c" if "c \<in> dom (coros w')" for c
    using that i(3) unfolding i(10) by (auto simp: active_def queued_def running_def)
  ultimately have "system_inv base ((\<lambda>_. [])(l := [e])) w'"
    using i(2,4,9) w(4) by (simp add: system_inv_def wait_held_def)
  moreover have "event_loop w' l \<noteq> Some d" "waits w' = Map.empty" using i(9,12,13) w(4) by simp_all
  ultimately show ?thesis using i(1,3) by blast
qed

lemma enter_ok:
  assumes S: "system_inv base rq w" and run: "sched_loop_enter os cfg th l w = Inr w'"
  shows "system_inv base rq w'"
proof -
  from run have "coros w' = coros w" "locals w' = locals w" "nodes w' = nodes w" "brk w' = brk w" "gsched w' = gsched w"
    "waits w' = waits w"
    by (auto simp: sched_loop_enter_def init_preemption_def Let_def elim!: andthenE split: if_splits)
  then show ?thesis by (intro system_inv_irrelevant [OF S])
qed

lemma reachable_inv:
  assumes K: "kernel_ok os m n" and base: "- (2 ^ 51) \<le> base" "base < 2 ^ 51"
  shows "reachable n os cfg base w \<Longrightarrow> \<exists>rq. system_inv base rq w"
proof (induction rule: reachable.induct)
  case (start w th w')
  then show ?case using start_ok [OF K base, of w th cfg] by auto
next
  case (enter w th l w')
  then show ?case using enter_ok by blast
next
  case (act w th l c a w')
  then show ?case using perform_ok [OF _ act.hyps(2) K act.hyps(3), of _ cfg] by auto
qed


section \<open>A small process\<close>

abbreviation small_os :: "unit os" where
  "small_os \<equiv> simple_os 4 \<lparr>tv_sec = 5, tv_nsec = 0\<rparr>"

lemma small_kernel_ok: "kernel_ok small_os (\<lambda>_. 0) 1"
proof -
  have "os_ok small_os" by (rule simple_os_ok) simp
  moreover have "clock_ok small_os" by (rule simple_clock_ok) (simp add: sane_time_def normal_time_def)
  moreover have "poll_answer small_os p timeout k = Inr []" for p timeout k by (simp add: simple_os_def)
  ultimately show ?thesis unfolding kernel_ok_def settles_def poll_failure_def
    by (simp add: poll_again_def events_ok_def MAX_EVENTS_def) (simp add: simple_os_def)
qed

lemma fresh_start:
  "\<exists>w' rq l d. sched_init small_os demo_config 0 fresh_process = Inr w' \<and> system_inv 0 rq w' \<and> running w' 0 l d \<and>
    allowed small_os 0 w' l d Yield \<and> reachable 1 small_os demo_config 0 w'"
proof -
  obtain w' rq l d where w': "sched_init small_os demo_config 0 fresh_process = Inr w'" "system_inv 0 rq w'"
    "running w' 0 l d" "event_loop w' l \<noteq> Some d" "waits w' = Map.empty"
    using start_ok [OF small_kernel_ok, of 0 fresh_process 0 demo_config] by (auto simp: fresh_process_def)
  have "reachable 1 small_os demo_config 0 w'"
    by (rule reachable.start [where w = fresh_process and th = 0]) (simp_all add: w'(1), simp_all add: fresh_process_def)
  moreover have "allowed small_os 0 w' l d Yield" using w'(4,5) by (simp add: allowed_def)
  ultimately show ?thesis using w'(1-3) by blast
qed



end
