(* ===== verification/Async.thy ===== *)
theory Async
  imports System
begin

text \<open>
  \<^verbatim>\<open>src/async.c\<close>: blocking-style input and output for coroutines, made of non-blocking system calls
  and \<^verbatim>\<open>sched_event_wait\<close>. The calls are parameters; what a coroutine sees while it waits, the run
  of all others until it is resumed, is a parameter too.
\<close>

section \<open>System calls and errno\<close>

type_synonym byte = "8 word"

text \<open>
  Each call returns its result, or the error it puts into \<^verbatim>\<open>errno\<close> when it returns -1.
\<close>

record 'k io =
  io_read :: "int \<Rightarrow> nat \<Rightarrow> 'k \<Rightarrow> (int + byte list) \<times> 'k"
  io_write :: "int \<Rightarrow> byte list \<Rightarrow> 'k \<Rightarrow> (int + nat) \<times> 'k"
  io_accept4 :: "int \<Rightarrow> uint32 \<Rightarrow> 'k \<Rightarrow> (int + (int \<times> byte list)) \<times> 'k"
  io_connect :: "int \<Rightarrow> byte list \<Rightarrow> 'k \<Rightarrow> (int + unit) \<times> 'k"
  io_send :: "int \<Rightarrow> byte list \<Rightarrow> int \<Rightarrow> 'k \<Rightarrow> (int + nat) \<times> 'k"
  io_recv :: "int \<Rightarrow> nat \<Rightarrow> int \<Rightarrow> 'k \<Rightarrow> (int + byte list) \<times> 'k"
  io_getsockopt :: "int \<Rightarrow> 'k \<Rightarrow> (int + int) \<times> 'k"

definition EAGAIN :: int where "EAGAIN = 11"
definition EWOULDBLOCK :: int where "EWOULDBLOCK = 11"
definition EINPROGRESS :: int where "EINPROGRESS = 115"
definition SOCK_NONBLOCK :: uint32 where "SOCK_NONBLOCK = push_bit 11 1"
definition SOCK_CLOEXEC :: uint32 where "SOCK_CLOEXEC = push_bit 19 1"

text \<open>
  A coroutine and where it runs: the thread, which may be another one after a wait, and the
  world. \<^verbatim>\<open>sched_errno\<close> is the \<^verbatim>\<open>errno\<close> of the thread it runs on at the time.
\<close>

record 'k thread =
  thr :: nat
  world_of :: "'k world"

definition sched_errno :: "'k thread \<Rightarrow> int" where
  "sched_errno s = sched_get_errno (thr s) (world_of s)"

definition set_sched_errno :: "int \<Rightarrow> 'k thread \<Rightarrow> 'k thread" where
  "set_sched_errno e s = s\<lparr>world_of := (world_of s)\<lparr>errno := (errno (world_of s))(thr s := e)\<rparr>\<rparr>"

definition syscall :: "('k \<Rightarrow> (int + 'a) \<times> 'k) \<Rightarrow> 'k thread \<Rightarrow> 'a option \<times> 'k thread" where
  "syscall call s =
     (let (r, k) = call (kernel (world_of s)); s = s\<lparr>world_of := (world_of s)\<lparr>kernel := k\<rparr>\<rparr> in
      case r of Inl err \<Rightarrow> (None, set_sched_errno err s) | Inr x \<Rightarrow> (Some x, s))"

section \<open>Waiting\<close>

text \<open>
  \<^verbatim>\<open>sched_event_wait\<close> as its caller sees it: the coroutine suspends, \<open>others\<close> is what the rest of the
  program does until the coroutine is resumed and the thread that resumes it, and it goes on.
\<close>

definition sched_event_wait ::
  "'k os \<Rightarrow> config \<Rightarrow> (nat \<Rightarrow> 'k world \<Rightarrow> 'k thread res) \<Rightarrow> int \<Rightarrow> uint32 \<Rightarrow> 'k thread \<Rightarrow> (uint32 \<times> 'k thread) res" where
  "sched_event_wait os cfg others fd events s =
     andthen (event_wait_begin os cfg (thr s) fd events (world_of s)) (\<lambda>w.
     andthen (others (thr s) w) (\<lambda>s.
     andthen (event_wait_end os (thr s) (world_of s)) (\<lambda>(revents, w). Inr (revents, s\<lparr>world_of := w\<rparr>))))"

type_synonym 'k waiter = "int \<Rightarrow> uint32 \<Rightarrow> 'k thread \<Rightarrow> (uint32 \<times> 'k thread) res"

definition socket_errno :: "'k io \<Rightarrow> int \<Rightarrow> 'k thread \<Rightarrow> int \<times> 'k thread" where
  "socket_errno io fd s =
     (case syscall (io_getsockopt io fd) s of
        (Some error, s) \<Rightarrow> (error, s)
      | (None, s) \<Rightarrow> (errno (world_of s) (thr s), s))"

text \<open>The macro; the result tells whether the caller returns -1.\<close>

definition wait_return_socket_error ::
  "'k io \<Rightarrow> 'k waiter \<Rightarrow> int \<Rightarrow> uint32 \<Rightarrow> 'k thread \<Rightarrow> (bool \<times> 'k thread) res" where
  "wait_return_socket_error io wait fd events s =
     andthen (wait fd events s) (\<lambda>(revents, s).
     if revents AND EPOLLERR \<noteq> 0 then
       let (error, s) = socket_errno io fd s in Inr (True, set_sched_errno error s)
     else Inr (False, s))"

section \<open>Operations\<close>

text \<open>
  The loop of \<^verbatim>\<open>async_read\<close>, \<^verbatim>\<open>async_write\<close>, \<^verbatim>\<open>async_accept\<close>, \<^verbatim>\<open>async_send\<close> and \<^verbatim>\<open>async_recv\<close>, which differ in the
  call they make and the event they wait for. It may go on for ever; the first argument bounds
  the number of calls.
\<close>

primrec async_retry ::
  "nat \<Rightarrow> ('k \<Rightarrow> (int + 'a) \<times> 'k) \<Rightarrow> 'k io \<Rightarrow> 'k waiter \<Rightarrow> int \<Rightarrow> uint32 \<Rightarrow> 'k thread \<Rightarrow> ('a option \<times> 'k thread) res" where
  "async_retry 0 call io wait fd events s = Inl Diverged"
| "async_retry (Suc n) call io wait fd events s =
     (case syscall call s of
        (Some x, s) \<Rightarrow> Inr (Some x, s)
      | (None, s) \<Rightarrow>
          if sched_errno s = EAGAIN \<or> sched_errno s = EWOULDBLOCK then
            andthen (wait_return_socket_error io wait fd events s) (\<lambda>(failed, s).
            if failed then Inr (None, s) else async_retry n call io wait fd events s)
          else Inr (None, s))"

definition async_read :: "nat \<Rightarrow> 'k io \<Rightarrow> 'k waiter \<Rightarrow> int \<Rightarrow> nat \<Rightarrow> 'k thread \<Rightarrow> ((int \<times> byte list) \<times> 'k thread) res" where
  "async_read n io wait fd len s =
     andthen (async_retry n (io_read io fd len) io wait fd EPOLLIN s) (\<lambda>(r, s).
     Inr (case r of None \<Rightarrow> (-1, []) | Some bytes \<Rightarrow> (int (length bytes), bytes), s))"

definition async_write :: "nat \<Rightarrow> 'k io \<Rightarrow> 'k waiter \<Rightarrow> int \<Rightarrow> byte list \<Rightarrow> 'k thread \<Rightarrow> (int \<times> 'k thread) res" where
  "async_write n io wait fd buffer s =
     andthen (async_retry n (io_write io fd buffer) io wait fd EPOLLOUT s) (\<lambda>(r, s).
     Inr (case r of None \<Rightarrow> -1 | Some num_written \<Rightarrow> int num_written, s))"

definition async_accept :: "nat \<Rightarrow> 'k io \<Rightarrow> 'k waiter \<Rightarrow> int \<Rightarrow> 'k thread \<Rightarrow> ((int \<times> byte list) \<times> 'k thread) res" where
  "async_accept n io wait socket s =
     andthen (async_retry n (io_accept4 io socket (SOCK_NONBLOCK OR SOCK_CLOEXEC)) io wait socket EPOLLIN s) (\<lambda>(r, s).
     Inr (case r of None \<Rightarrow> (-1, []) | Some (new_sock, address) \<Rightarrow> (new_sock, address), s))"

definition async_connect :: "'k io \<Rightarrow> 'k waiter \<Rightarrow> int \<Rightarrow> byte list \<Rightarrow> 'k thread \<Rightarrow> (int \<times> 'k thread) res" where
  "async_connect io wait socket address s =
     (case syscall (io_connect io socket address) s of
        (Some _, s) \<Rightarrow> Inr (0, s)
      | (None, s) \<Rightarrow>
          if sched_errno s \<noteq> EINPROGRESS then Inr (-1, s)
          else
            andthen (wait socket EPOLLOUT s) (\<lambda>(_, s).
            let (error, s) = socket_errno io socket s in
            if error \<noteq> 0 then Inr (-1, set_sched_errno error s) else Inr (0, s)))"

definition async_send ::
  "nat \<Rightarrow> 'k io \<Rightarrow> 'k waiter \<Rightarrow> int \<Rightarrow> byte list \<Rightarrow> int \<Rightarrow> 'k thread \<Rightarrow> (int \<times> 'k thread) res" where
  "async_send n io wait socket buffer flags s =
     andthen (async_retry n (io_send io socket buffer flags) io wait socket EPOLLOUT s) (\<lambda>(r, s).
     Inr (case r of None \<Rightarrow> -1 | Some num_written \<Rightarrow> int num_written, s))"

definition async_recv ::
  "nat \<Rightarrow> 'k io \<Rightarrow> 'k waiter \<Rightarrow> int \<Rightarrow> nat \<Rightarrow> int \<Rightarrow> 'k thread \<Rightarrow> ((int \<times> byte list) \<times> 'k thread) res" where
  "async_recv n io wait socket len flags s =
     andthen (async_retry n (io_recv io socket len flags) io wait socket EPOLLIN s) (\<lambda>(r, s).
     Inr (case r of None \<Rightarrow> (-1, []) | Some bytes \<Rightarrow> (int (length bytes), bytes), s))"

definition async_sleep_relative :: "'k os \<Rightarrow> config \<Rightarrow> nat \<Rightarrow> int \<Rightarrow> 'k op" where
  "async_sleep_relative os cfg th millisecs w =
     andthen (read_clock os w) (\<lambda>(now, w).
     andthen (sleep_deadline now millisecs) (\<lambda>time.
     sched_wait os cfg th time w))"

definition async_sleep_absolute :: "'k os \<Rightarrow> config \<Rightarrow> nat \<Rightarrow> timespec \<Rightarrow> 'k op" where
  "async_sleep_absolute os cfg th time w = sched_wait os cfg th time w"

section \<open>What a blocking call is\<close>

definition would_block :: "'k thread \<Rightarrow> bool" where
  "would_block s \<longleftrightarrow> sched_errno s = EAGAIN"

text \<open>
  The specification of the retry loops: repeat the call while it would block, waiting for the
  event each time; any other error, and a socket error the wait reports, ends it.
\<close>

inductive blocking ::
  "('k \<Rightarrow> (int + 'a) \<times> 'k) \<Rightarrow> 'k io \<Rightarrow> 'k waiter \<Rightarrow> int \<Rightarrow> uint32 \<Rightarrow> 'k thread \<Rightarrow> 'a option \<Rightarrow> 'k thread \<Rightarrow> bool"
  for call io wait fd events where
  complete: "syscall call s = (Some x, s') \<Longrightarrow> blocking call io wait fd events s (Some x) s'"
| failed: "syscall call s = (None, s') \<Longrightarrow> \<not> would_block s' \<Longrightarrow> blocking call io wait fd events s None s'"
| hangup: "syscall call s = (None, s1) \<Longrightarrow> would_block s1 \<Longrightarrow> wait fd events s1 = Inr (revents, s2) \<Longrightarrow>
    revents AND EPOLLERR \<noteq> 0 \<Longrightarrow> socket_errno io fd s2 = (error, s3) \<Longrightarrow>
    blocking call io wait fd events s None (set_sched_errno error s3)"
| again: "syscall call s = (None, s1) \<Longrightarrow> would_block s1 \<Longrightarrow> wait fd events s1 = Inr (revents, s2) \<Longrightarrow>
    revents AND EPOLLERR = 0 \<Longrightarrow> blocking call io wait fd events s2 r s' \<Longrightarrow>
    blocking call io wait fd events s r s'"

inductive_cases blockingE: "blocking call io wait fd events s r s'"

lemma retry_step:
  "async_retry (Suc n) call io wait fd events s =
     (case syscall call s of
        (Some x, s) \<Rightarrow> Inr (Some x, s)
      | (None, s) \<Rightarrow>
          if would_block s then
            andthen (wait_return_socket_error io wait fd events s) (\<lambda>(failed, s).
            if failed then Inr (None, s) else async_retry n call io wait fd events s)
          else Inr (None, s))"
  by (simp add: would_block_def EAGAIN_def EWOULDBLOCK_def split: prod.splits option.splits)

lemma retry_complete:
  "blocking call io wait fd events s r s' \<Longrightarrow> \<exists>n. async_retry n call io wait fd events s = Inr (r, s')"
proof (induction rule: blocking.induct)
  case (complete s x s')
  then show ?case by (intro exI [of _ 1]) simp
next
  case (failed s s')
  then show ?case by (intro exI [of _ 1]) (simp add: retry_step del: async_retry.simps(2))
next
  case (hangup s s1 revents s2 error s3)
  then show ?case
    by (intro exI [of _ 1]) (simp add: retry_step wait_return_socket_error_def del: async_retry.simps(2))
next
  case (again s s1 revents s2 r s')
  then obtain n where "async_retry n call io wait fd events s2 = Inr (r, s')" by blast
  with again.hyps show ?case
    by (intro exI [of _ "Suc n"]) (simp add: retry_step wait_return_socket_error_def del: async_retry.simps(2))
qed

lemma retry_sound:
  "async_retry n call io wait fd events s = Inr (r, s') \<Longrightarrow> blocking call io wait fd events s r s'"
proof (induction n arbitrary: s)
  case (Suc n)
  obtain x s1 where sc: "syscall call s = (x, s1)" by (meson surj_pair)
  consider y where "x = Some y" | "x = None" "\<not> would_block s1" | "x = None" "would_block s1" by (cases x) auto
  then show ?case
  proof cases
    case 1
    then show ?thesis using Suc.prems sc by (auto intro: blocking.complete)
  next
    case 2
    with Suc.prems sc have "r = None" "s' = s1" by (simp_all add: retry_step del: async_retry.simps(2))
    with sc 2 show ?thesis by (auto intro: blocking.failed)
  next
    case 3
    with Suc.prems sc obtain b s2 where b: "wait_return_socket_error io wait fd events s1 = Inr (b, s2)"
      "(if b then Inr (None, s2) else async_retry n call io wait fd events s2) = Inr (r, s')"
      by (auto simp: retry_step elim!: andthenE simp del: async_retry.simps(2))
    from b(1) obtain revents s3 where w: "wait fd events s1 = Inr (revents, s3)"
      by (auto simp: wait_return_socket_error_def elim!: andthenE)
    note macro = b(1) [unfolded wait_return_socket_error_def w]
    show ?thesis
    proof (cases "revents AND EPOLLERR = 0")
      case True
      with macro b(2) have "async_retry n call io wait fd events s3 = Inr (r, s')" by simp
      from blocking.again [where wait = wait and fd = fd and events = events and io = io, OF _ 3(2) w True Suc.IH [OF this]] sc 3(1) show ?thesis by simp
    next
      case False
      obtain error s4 where e: "socket_errno io fd s3 = (error, s4)" by (meson surj_pair)
      with macro b(2) False have "r = None" "s' = set_sched_errno error s4" by auto
      with blocking.hangup [where wait = wait and fd = fd and events = events and io = io, OF _ 3(2) w False e] sc 3(1)
      show ?thesis by simp
    qed
  qed
qed simp

section \<open>The contract with the scheduler\<close>

text \<open>
  What the operations need of \<^verbatim>\<open>sched_event_wait\<close>: called by a coroutine in order, it returns with
  some event, and the coroutine is in order again. System calls do not disturb that.
\<close>

locale event_waiter =
  fixes wait :: "'k waiter" and ok :: "'k thread \<Rightarrow> bool"
  assumes ok_kernel: "ok s \<Longrightarrow> ok (s\<lparr>world_of := (world_of s)\<lparr>kernel := k\<rparr>\<rparr>)"
    and ok_errno: "ok s \<Longrightarrow> ok (s\<lparr>world_of := (world_of s)\<lparr>errno := e\<rparr>\<rparr>)"
    and wait_returns: "ok s \<Longrightarrow> \<exists>revents s'. wait fd events s = Inr (revents, s') \<and> ok s' \<and> revents \<noteq> 0"
begin

lemma ok_set_errno: "ok s \<Longrightarrow> ok (set_sched_errno e s)"
  using ok_errno by (simp add: set_sched_errno_def)

lemma ok_syscall: "ok s \<Longrightarrow> syscall call s = (r, s') \<Longrightarrow> ok s'"
  using ok_kernel ok_set_errno
  by (auto simp: syscall_def Let_def split: prod.splits sum.splits)

lemma ok_socket_errno: "ok s \<Longrightarrow> socket_errno io fd s = (e, s') \<Longrightarrow> ok s'"
proof -
  assume ok: "ok s" and run: "socket_errno io fd s = (e, s')"
  obtain x s1 where sc: "syscall (io_getsockopt io fd) s = (x, s1)" by (meson surj_pair)
  with run have "s' = s1" by (cases x) (simp_all add: socket_errno_def)
  then show "ok s'" using ok_syscall [OF ok sc] by simp
qed

lemma macro_returns: "ok s \<Longrightarrow> \<exists>b s'. wait_return_socket_error io wait fd events s = Inr (b, s') \<and> ok s'"
proof -
  assume "ok s"
  then obtain revents s1 where 1: "wait fd events s = Inr (revents, s1)" "ok s1" using wait_returns by blast
  obtain e s2 where 2: "socket_errno io fd s1 = (e, s2)" by (meson surj_pair)
  with 1 ok_socket_errno ok_set_errno show ?thesis by (auto simp: wait_return_socket_error_def)
qed

lemma blocking_ok: "blocking call io wait fd events s r s' \<Longrightarrow> ok s \<Longrightarrow> ok s'"
proof (induction rule: blocking.induct)
  case (hangup s s1 revents s2 error s3)
  then have "ok s1" using ok_syscall by blast
  then have "ok s2" using wait_returns [of s1 fd events] hangup.hyps(3) by auto
  then show ?case using ok_socket_errno [OF _ hangup.hyps(5)] ok_set_errno by blast
next
  case (again s s1 revents s2 r s')
  then have "ok s1" using ok_syscall by blast
  then have "ok s2" using wait_returns [of s1 fd events] again.hyps(3) by auto
  then show ?case by (rule again.IH)
qed (auto dest: ok_syscall)

text \<open>
  The loop ends when calls that would block run out, as a measure of the kernel state shows that
  a call and the wait after it decrease.
\<close>

lemma retry_returns:
  assumes progress: "\<And>s s1 revents s2. ok s \<Longrightarrow> syscall call s = (None, s1) \<Longrightarrow> would_block s1 \<Longrightarrow>
      wait fd events s1 = Inr (revents, s2) \<Longrightarrow> m (kernel (world_of s2)) < m (kernel (world_of s))"
  shows "ok s \<Longrightarrow> m (kernel (world_of s)) < n \<Longrightarrow> \<exists>r s'. async_retry n call io wait fd events s = Inr (r, s') \<and> ok s'"
proof (induction n arbitrary: s)
  case (Suc n)
  obtain x s1 where sc: "syscall call s = (x, s1)" by (meson surj_pair)
  have ok1: "ok s1" by (rule ok_syscall [OF Suc.prems(1) sc])
  show ?case
  proof (cases "x = None \<and> would_block s1")
    case False
    with sc ok1 show ?thesis by (cases x) (auto simp: retry_step simp del: async_retry.simps(2))
  next
    case True
    obtain revents s2 where w: "wait fd events s1 = Inr (revents, s2)" "ok s2" using wait_returns [OF ok1] by blast
    obtain e s3 where e: "socket_errno io fd s2 = (e, s3)" by (meson surj_pair)
    have "m (kernel (world_of s2)) < n" using progress [OF Suc.prems(1) _ _ w(1)] sc True Suc.prems(2) by fastforce
    from Suc.IH [OF w(2) this] show ?thesis
      using sc True w e ok_set_errno ok_socket_errno [OF w(2) e]
      by (auto simp: retry_step wait_return_socket_error_def simp del: async_retry.simps(2))
  qed
qed simp

end

section \<open>The scheduler as the waiter\<close>

text \<open>
  A coroutine in order: it runs, is no event loop, waits for nothing, and the rest of the program
  keeps its side: descriptors can be registered and unregistered, and \<open>others\<close> brings a sleeping
  coroutine back, with the event recorded and its \<^verbatim>\<open>errno\<close> restored on the thread it is back on.
\<close>

definition resumes :: "(nat \<Rightarrow> 'k world \<Rightarrow> 'k thread res) \<Rightarrow> coro \<Rightarrow> bool" where
  "resumes others c \<longleftrightarrow> (\<forall>rq w th l x fd. sched_inv rq w \<longrightarrow> running w th l x \<longrightarrow> asleep w c \<longrightarrow> gsched w \<noteq> None \<longrightarrow>
     waits w c = Some \<lparr>ew_fd = fd, ew_events = 0, ew_coro = Some c\<rparr> \<longrightarrow>
     (\<exists>rq' s l' wt. others th w = Inr s \<and> sched_inv rq' (world_of s) \<and> running (world_of s) (thr s) l' c \<and>
        event_loop (world_of s) l' \<noteq> Some c \<and> gsched (world_of s) \<noteq> None \<and> waits (world_of s) c = Some wt \<and>
        ew_fd wt = fd \<and> ew_events wt \<noteq> 0 \<and> Some (errno (world_of s) (thr s)) = errno_of w c))"

definition in_order :: "'k os \<Rightarrow> (nat \<Rightarrow> 'k world \<Rightarrow> 'k thread res) \<Rightarrow> coro \<Rightarrow> 'k thread \<Rightarrow> bool" where
  "in_order os others c s \<longleftrightarrow> (\<forall>e f fd ev k. fst (os_epoll_ctl os e f fd ev k) = 0) \<and> resumes others c \<and>
     (\<exists>rq l. sched_inv rq (world_of s) \<and> running (world_of s) (thr s) l c \<and> event_loop (world_of s) l \<noteq> Some c) \<and>
     gsched (world_of s) \<noteq> None \<and> waits (world_of s) c = None"

lemma in_order_irrelevant:
  assumes "in_order os others c s" "coros w' = coros (world_of s)" "nodes w' = nodes (world_of s)"
    "brk w' = brk (world_of s)" "locals w' = locals (world_of s)" "lsched w' = lsched (world_of s)"
    "gsched w' = gsched (world_of s)" "waits w' = waits (world_of s)"
  shows "in_order os others c (s\<lparr>world_of := w'\<rparr>)"
proof -
  obtain rq l where "sched_inv rq (world_of s)" "running (world_of s) (thr s) l c" "event_loop (world_of s) l \<noteq> Some c"
    using assms(1) by (auto simp: in_order_def)
  moreover from this(1) have "sched_inv rq w'" by (rule sched_inv_irrelevant) (simp_all add: assms)
  ultimately show ?thesis using assms
    by (auto simp: in_order_def running_def current_def event_loop_def)
qed

lemma event_wait_returns:
  assumes "in_order os others c s"
  shows "\<exists>revents s'. sched_event_wait os cfg others fd events s = Inr (revents, s') \<and> in_order os others c s' \<and>
    revents \<noteq> 0 \<and> sched_errno s' = sched_errno s"
proof -
  let ?w = "world_of s" and ?th = "thr s"
  have ctl: "\<And>e f fd ev k. fst (os_epoll_ctl os e f fd ev k) = 0" and res: "resumes others c"
    using assms by (simp_all add: in_order_def)
  obtain rq l g where i: "sched_inv rq ?w" "running ?w ?th l c" "event_loop ?w l \<noteq> Some c" "gsched ?w = Some g"
    "waits ?w c = None"
    using assms by (auto simp: in_order_def)
  let ?ev = "Some \<lparr>ev_events = events OR EPOLLET OR EPOLLONESHOT, ev_data = c\<rparr>"
  have "os_epoll_ctl os (epoll_fd (gs_poller g)) EPOLL_CTL_ADD fd ?ev (kernel ?w) =
      (0, snd (os_epoll_ctl os (epoll_fd (gs_poller g)) EPOLL_CTL_ADD fd ?ev (kernel ?w)))"
    using ctl by (intro prod_eqI) simp_all
  from event_wait_ok [OF i(1-4) this, of cfg] obtain x xs w1 where w1: "rq l = x # xs"
    "event_wait_begin os cfg ?th fd events ?w = Inr w1" "sched_inv (rq(l := xs)) w1" "running w1 ?th l x" "asleep w1 c"
    "waits w1 = (waits ?w)(c \<mapsto> \<lparr>ew_fd = fd, ew_events = 0, ew_coro = Some c\<rparr>)" "gsched w1 = gsched ?w"
    "errno_of w1 c = Some (errno ?w ?th)"
    by blast
  have "gsched w1 \<noteq> None" "waits w1 c = Some \<lparr>ew_fd = fd, ew_events = 0, ew_coro = Some c\<rparr>"
    using w1(6,7) i(4) by simp_all
  then obtain rq' s2 l' wt where s2: "others ?th w1 = Inr s2" "sched_inv rq' (world_of s2)"
    "running (world_of s2) (thr s2) l' c" "event_loop (world_of s2) l' \<noteq> Some c" "gsched (world_of s2) \<noteq> None"
    "waits (world_of s2) c = Some wt" "ew_events wt \<noteq> 0" "Some (errno (world_of s2) (thr s2)) = errno_of w1 c"
    using res w1(3-5) unfolding resumes_def by blast
  let ?v = "world_of s2"
  obtain g2 where g2: "gsched ?v = Some g2" using s2(5) by blast
  define k where "k = snd (platform_poll_unregister os (gs_poller g2) (ew_fd wt) (kernel ?v))"
  define w3 where "w3 = ?v\<lparr>waits := (waits ?v)(c := None), kernel := k\<rparr>"
  have "platform_poll_unregister os (gs_poller g2) (ew_fd wt) (kernel ?v) = (0, k)"
    using ctl by (intro prod_eqI) (simp_all add: k_def platform_poll_unregister_def)
  moreover have "lsched ?v (thr s2) = Some l'" "sched_get_current l' ?v = Inr (Some c)"
    using s2(3) by (auto simp: running_def sched_get_current_def local_of_def current_def split: option.splits)
  ultimately have "event_wait_end os (thr s2) ?v = Inr (ew_events wt, w3)"
    using s2(6,7) g2 by (simp add: event_wait_end_def deref_def w3_def)
  then have run: "sched_event_wait os cfg others fd events s = Inr (ew_events wt, s2\<lparr>world_of := w3\<rparr>)"
    using w1(2) s2(1) by (simp add: sched_event_wait_def)
  have "sched_inv rq' w3" by (rule sched_inv_irrelevant [OF s2(2)]) (simp_all add: w3_def)
  moreover have "running w3 (thr s2) l' c" "event_loop w3 l' \<noteq> Some c" "gsched w3 \<noteq> None" "waits w3 c = None"
    using s2(3,4) g2 by (simp_all add: w3_def running_def current_def event_loop_def)
  ultimately have "in_order os others c (s2\<lparr>world_of := w3\<rparr>)" using ctl res by (auto simp: in_order_def)
  moreover have "sched_errno (s2\<lparr>world_of := w3\<rparr>) = sched_errno s"
    using s2(8) w1(8) by (simp add: sched_errno_def sched_get_errno_def w3_def)
  ultimately show ?thesis using run s2(7) by blast
qed

interpretation scheduler: event_waiter "sched_event_wait os cfg others" "in_order os others c"
proof
  show "in_order os others c s \<Longrightarrow> in_order os others c (s\<lparr>world_of := (world_of s)\<lparr>kernel := k\<rparr>\<rparr>)" for s k
    by (rule in_order_irrelevant) simp_all
  show "in_order os others c s \<Longrightarrow> in_order os others c (s\<lparr>world_of := (world_of s)\<lparr>errno := e\<rparr>\<rparr>)" for s e
    by (rule in_order_irrelevant) simp_all
  show "in_order os others c s \<Longrightarrow> \<exists>revents s'. sched_event_wait os cfg others fd events s = Inr (revents, s') \<and>
      in_order os others c s' \<and> revents \<noteq> 0" for s fd events
    using event_wait_returns by blast
qed

section \<open>An environment that resumes\<close>

text \<open>
  The rest of the program at its simplest: the event comes, and the coroutines of the thread yield
  in turn until the one that waited runs again.
\<close>

primrec yield_until :: "nat \<Rightarrow> 'k os \<Rightarrow> config \<Rightarrow> coro \<Rightarrow> nat \<Rightarrow> 'k op" where
  "yield_until 0 os cfg c th w = Inl Diverged"
| "yield_until (Suc n) os cfg c th w =
     andthen (deref (lsched w th)) (\<lambda>l.
     if current w l = Some c then Inr w
     else andthen (sched_resched os cfg th w) (yield_until n os cfg c th))"

definition event_then_yield :: "'k os \<Rightarrow> config \<Rightarrow> coro \<Rightarrow> uint32 \<Rightarrow> nat \<Rightarrow> 'k world \<Rightarrow> 'k thread res" where
  "event_then_yield os cfg c revents th w =
     andthen (sched_poll_event os cfg th c revents w) (\<lambda>w.
     andthen (yield_until (brk w + 2) os cfg c th w) (\<lambda>w. Inr \<lparr>thr = th, world_of = w\<rparr>))"

lemma yield_until_ok:
  "sched_inv rq w \<Longrightarrow> running w th l x \<Longrightarrow> (x # rq l) ! i = c \<Longrightarrow> i \<le> length (rq l) \<Longrightarrow> i < n \<Longrightarrow>
   \<exists>w' q. yield_until n os cfg c th w = Inr w' \<and> sched_inv (rq(l := q)) w' \<and> running w' th l c \<and>
     own_errno w' th l c = own_errno w th l c \<and> gsched w' = gsched w \<and> waits w' = waits w \<and> event_loop w' = event_loop w"
proof (induction n arbitrary: rq w x i)
  case (Suc n)
  from Suc.prems(2) have l: "lsched w th = Some l" "current w l = Some x" by (simp_all add: running_def)
  show ?case
  proof (cases "x = c")
    case True
    have "rq(l := rq l) = rq" by simp
    with True Suc.prems l show ?thesis by (intro exI [of _ w] exI [of _ "rq l"]) (simp add: deref_def)
  next
    case False
    then obtain j where j: "i = Suc j" using Suc.prems(3) by (cases i) auto
    then obtain y ys where q: "rq l = y # ys" using Suc.prems(4) by (cases "rq l") auto
    obtain m where m: "sched_resched os cfg th w = Inr (switched th l x y m w)"
      "sched_inv (rq(l := ys @ [x])) (switched th l x y m w)"
      using resched_ok [OF Suc.prems(1,2) q] by blast
    let ?w = "switched th l x y m w"
    note view = switched_view [OF Suc.prems(1,2) q, where m = m]
    have "(y # (rq(l := ys @ [x])) l) ! j = c" "j \<le> length ((rq(l := ys @ [x])) l)" "j < n"
      using Suc.prems(3-5) j q by (simp_all add: nth_append nth_Cons split: nat.splits)
    from Suc.IH [OF m(2) view(1) this] obtain w' qq where "yield_until n os cfg c th ?w = Inr w'" "sched_inv ((rq(l := ys @ [x]))(l := qq)) w'"
      "running w' th l c" "own_errno w' th l c = own_errno ?w th l c" "gsched w' = gsched ?w" "waits w' = waits ?w"
      "event_loop w' = event_loop ?w"
      by blast
    moreover have "gsched ?w = gsched w" "waits ?w = waits w" by (simp_all add: switched_def)
    moreover have "(rq(l := ys @ [x]))(l := qq) = rq(l := qq)" by simp
    ultimately show ?thesis using m(1) l False view(2,4)
      by (intro exI [of _ w'] exI [of _ qq]) (simp add: deref_def del: fun_upd_apply)
  qed
qed simp

lemma event_then_yield_ok:
  assumes a: "sched_inv rq w" "running w th l x" "asleep w c"
    "waits w c = Some \<lparr>ew_fd = fd, ew_events = 0, ew_coro = Some c\<rparr>"
  shows "\<exists>w' q. event_then_yield os cfg c revents th w = Inr \<lparr>thr = th, world_of = w'\<rparr> \<and> sched_inv (rq(l := q)) w' \<and>
    running w' th l c \<and> event_loop w' l \<noteq> Some c \<and> gsched w' = gsched w \<and>
    waits w' c = Some \<lparr>ew_fd = fd, ew_events = revents, ew_coro = None\<rparr> \<and> Some (errno w' th) = errno_of w c"
proof -
  from a(2) obtain ls where l: "locals w l = Some ls" "current_coro ls = Some x" "lsched w th = Some l" by (rule running_local)
  obtain w1 where w1: "sched_poll_event os cfg th c revents w = Inr w1" "sched_inv (rq(l := rq l @ [c])) w1"
    "coros w1 = coros (woken c w)" "locals w1 = locals w" "lsched w1 = lsched w" "gsched w1 = gsched w"
    "waits w1 = (waits w)(c \<mapsto> \<lparr>ew_fd = fd, ew_events = revents, ew_coro = None\<rparr>)"
    using poll_event_ok [OF a(1) l(3) _ a(4) _ a(3), of os cfg revents] l(1) by auto
  have r1: "running w1 th l x" using a(2) w1(4,5) by (simp add: running_def current_def)
  let ?q = "rq l @ [c]"
  have "set (rq l) \<subseteq> {..<brk w1}"
    using sched_invD(12) [OF w1(2)] queues_okD(3) [OF sched_invD(1) [OF w1(2)], of _ l] by auto
  then have "length (rq l) \<le> brk w1"
    using card_mono [of "{..<brk w1}" "set (rq l)"] distinct_card [OF queues_distinct [OF sched_invD(1) [OF a(1)]], of l] by simp
  then obtain w' q where w': "yield_until (brk w1 + 2) os cfg c th w1 = Inr w'" "sched_inv ((rq(l := ?q))(l := q)) w'"
    "running w' th l c" "own_errno w' th l c = own_errno w1 th l c" "gsched w' = gsched w1" "waits w' = waits w1"
    "event_loop w' = event_loop w1"
    using yield_until_ok [OF w1(2) r1, of "Suc (length (rq l))" c "brk w1 + 2" os cfg] by (auto simp: nth_append)
  have "x \<noteq> c" using active_not_asleep [OF a(1)] a(2,3) by (auto simp: active_def running_def)
  then have "own_errno w1 th l c = errno_of w c"
    using r1 errno_of_woken [OF asleep_live [OF a(3)]] w1(3)
    by (simp add: own_errno_def running_def errno_of_def fun_eq_iff)
  then have e: "Some (errno w' th) = errno_of w c" using w'(3,4) by (simp add: own_errno_def running_def)
  have nl: "event_loop w' l \<noteq> Some c" using a(3) w1(4) w'(7) by (simp add: asleep_def event_loop_def)
  show ?thesis
    using w1(1,6,7) w'(1,2,3,5,6) e nl
    by (intro exI [of _ w'] exI [of _ q]) (simp add: event_then_yield_def)
qed

lemma event_then_yield_resumes:
  assumes "revents \<noteq> 0"
  shows "resumes (event_then_yield os cfg c revents) c"
  unfolding resumes_def using event_then_yield_ok [where os = os and cfg = cfg and revents = revents and c = c] assms
  by fastforce

section \<open>What the operations guarantee\<close>



lemma demo_in_order:
  "in_order (simple_os 1 now) (event_then_yield (simple_os 1 now) demo_config 1 EPOLLIN) 1 \<lparr>thr = 0, world_of = demo_timers []\<rparr>"
proof -
  have "\<forall>e f fd ev k. fst (os_epoll_ctl (simple_os 1 now) e f fd ev k) = 0" by (simp add: simple_os_def)
  moreover have "EPOLLIN \<noteq> 0" by (simp add: EPOLLIN_def)
  moreover have "event_loop (demo_timers []) 10 \<noteq> Some 1" "waits (demo_timers []) 1 = None" "gsched (demo_timers []) \<noteq> None"
    by (simp_all add: demo_timers_inv(3,4)) (simp add: demo_timers_def demo_world_def)
  ultimately show ?thesis
    using event_then_yield_resumes [of EPOLLIN "simple_os 1 now" demo_config 1] demo_timers_inv(1,2) [of "[]"]
    by (auto simp: in_order_def)
qed



text \<open>
  A kernel whose state is whether the data has come: the first read would block, the data comes
  while the coroutine waits.
\<close>

definition late_os :: "nat os" where
  "late_os = event_os\<lparr>os_epoll_wait := \<lambda>e n t k. (Inr [], k)\<rparr>"

definition late_io :: "nat io" where
  "late_io = \<lparr>io_read = \<lambda>fd len k. (if k = 0 then (Inl EAGAIN, 0) else (Inr (take len [72, 105]), k)),
     io_write = \<lambda>fd buffer k. (Inr (length buffer), k), io_accept4 = \<lambda>fd flags k. (Inr (9, []), k),
     io_connect = \<lambda>fd address k. (Inl EINPROGRESS, k), io_send = \<lambda>fd buffer flags k. (Inr (length buffer), k),
     io_recv = \<lambda>fd len flags k. (Inr [], k), io_getsockopt = \<lambda>fd k. (Inr 0, k)\<rparr>"

definition late_others :: "coro \<Rightarrow> nat \<Rightarrow> nat world \<Rightarrow> nat thread res" where
  "late_others c th w = andthen (event_then_yield late_os demo_config c EPOLLIN th w)
     (\<lambda>s. Inr (s\<lparr>world_of := (world_of s)\<lparr>kernel := 1\<rparr>\<rparr>))"

lemma resumes_kernel:
  fixes others :: "nat \<Rightarrow> 'k world \<Rightarrow> 'k thread res"
  assumes "resumes others c"
  shows "resumes (\<lambda>th w. andthen (others th w) (\<lambda>s. Inr (s\<lparr>world_of := (world_of s)\<lparr>kernel := f w\<rparr>\<rparr>))) c"
  unfolding resumes_def
proof (intro allI impI)
  fix rq and w :: "'k world" and th l x fd
  assume "sched_inv rq w" "running w th l x" "asleep w c" "gsched w \<noteq> None"
    "waits w c = Some \<lparr>ew_fd = fd, ew_events = 0, ew_coro = Some c\<rparr>"
  with assms obtain rq' s l' wt where s: "others th w = Inr s"
    "sched_inv rq' (world_of s)" "running (world_of s) (thr s) l' c" "event_loop (world_of s) l' \<noteq> Some c"
    "gsched (world_of s) \<noteq> None" "waits (world_of s) c = Some wt" "ew_fd wt = fd" "ew_events wt \<noteq> 0"
    "Some (errno (world_of s) (thr s)) = errno_of w c"
    unfolding resumes_def by blast
  let ?s = "s\<lparr>world_of := (world_of s)\<lparr>kernel := f w\<rparr>\<rparr>"
  have "sched_inv rq' (world_of ?s)" using sched_inv_irrelevant [OF s(2), of "world_of ?s"] by simp
  then show "\<exists>rq' s' l' wt. andthen (others th w) (\<lambda>s. Inr (s\<lparr>world_of := (world_of s)\<lparr>kernel := f w\<rparr>\<rparr>)) = Inr s' \<and>
      sched_inv rq' (world_of s') \<and> running (world_of s') (thr s') l' c \<and>
      event_loop (world_of s') l' \<noteq> Some c \<and> gsched (world_of s') \<noteq> None \<and> waits (world_of s') c = Some wt \<and>
      ew_fd wt = fd \<and> ew_events wt \<noteq> 0 \<and> Some (errno (world_of s') (thr s')) = errno_of w c"
    using s by (intro exI [of _ rq'] exI [of _ ?s] exI [of _ l'] exI [of _ wt])
      (simp add: running_def current_def event_loop_def)
qed

lemma late_resumes: "resumes (late_others c) c"
  unfolding late_others_def by (rule resumes_kernel, rule event_then_yield_resumes) (simp add: EPOLLIN_def)

lemma late_wait_kernel:
  assumes "sched_event_wait late_os demo_config (late_others c) fd events s1 = Inr (revents, s2)"
  shows "kernel (world_of s2) = 1"
proof -
  from assms obtain w v r w' where "late_others c (thr s1) w = Inr v"
    "event_wait_end late_os (thr v) (world_of v) = Inr (r, w')" "s2 = v\<lparr>world_of := w'\<rparr>"
    by (auto simp: sched_event_wait_def elim!: andthenE)
  then show ?thesis
    by (auto simp: late_others_def event_wait_end_def platform_poll_unregister_def late_os_def event_os_def elim!: andthenE)
qed

lemma late_in_order: "in_order late_os (late_others 1) 1 \<lparr>thr = 0, world_of = with_kernel 0 (demo_timers [])\<rparr>"
proof -
  have "event_loop (demo_timers []) 10 \<noteq> Some 1" "waits (demo_timers []) 1 = None" "gsched (demo_timers []) \<noteq> None"
    by (simp_all add: demo_timers_inv(3,4)) (simp add: demo_timers_def demo_world_def)
  moreover have "\<forall>e f fd ev k. fst (os_epoll_ctl late_os e f fd ev k) = 0" by (simp add: late_os_def event_os_def)
  ultimately show ?thesis
    using late_resumes demo_timers_inv(1,2) [of "[]"] by (auto simp: in_order_def with_kernel_inv)
qed


lemma syscall_cases:
  obtains x k where "call (kernel (world_of s)) = (Inr x, k)" "syscall call s = (Some x, s\<lparr>world_of := (world_of s)\<lparr>kernel := k\<rparr>\<rparr>)"
  | err s' where "fst (call (kernel (world_of s))) = Inl err" "syscall call s = (None, s')" "sched_errno s' = err"
  by (cases "call (kernel (world_of s))"; cases "fst (call (kernel (world_of s)))")
    (auto simp: syscall_def set_sched_errno_def sched_errno_def sched_get_errno_def)

text \<open>
  Connecting has three outcomes: the connection is there at once; it is refused at once, with the
  error in errno; or the coroutine waits until the socket can be written, and then the socket's
  own error decides. A failure always leaves a non-zero errno on the thread the coroutine is on.
\<close>

theorem async_connect_outcome:
  assumes "in_order os others c s" "\<forall>k. fst (io_connect io socket address k) \<noteq> Inl 0"
  shows "\<exists>r s'. async_connect io (sched_event_wait os cfg others) socket address s = Inr (r, s') \<and>
    in_order os others c s' \<and>
    (r = 0 \<and> (fst (io_connect io socket address (kernel (world_of s))) = Inr () \<or>
        fst (io_connect io socket address (kernel (world_of s))) = Inl EINPROGRESS \<and>
        (\<exists>k. fst (io_getsockopt io socket k) \<in> {Inr 0, Inl 0})) \<or>
     r = -1 \<and> sched_errno s' \<noteq> 0)"
proof (cases rule: syscall_cases [of "io_connect io socket address" s])
  case (1 x k)
  with scheduler.ok_syscall [OF assms(1) 1(2)] show ?thesis by (auto simp: async_connect_def)
next
  case (2 err s1)
  have ok1: "in_order os others c s1" by (rule scheduler.ok_syscall [OF assms(1) 2(2)])
  show ?thesis
  proof (cases "err = EINPROGRESS")
    case False
    with 2 assms(2) ok1 show ?thesis by (auto simp: async_connect_def)
  next
    case True
    obtain revents s2 where w: "sched_event_wait os cfg others socket EPOLLOUT s1 = Inr (revents, s2)" "in_order os others c s2"
      using event_wait_returns [OF ok1, of cfg socket EPOLLOUT] by blast
    obtain error s3 where e: "socket_errno io socket s2 = (error, s3)" by (meson surj_pair)
    have ok3: "in_order os others c s3" by (rule scheduler.ok_socket_errno [OF w(2) e])
    have zero: "\<exists>k. fst (io_getsockopt io socket k) \<in> {Inr 0, Inl 0}" if "error = 0"
      using that e by (cases rule: syscall_cases [of "io_getsockopt io socket" s2])
        (auto simp: socket_errno_def sched_errno_def sched_get_errno_def intro!: exI [of _ "kernel (world_of s2)"])
    have "sched_errno (set_sched_errno error s3) = error" by (simp add: sched_errno_def set_sched_errno_def sched_get_errno_def)
    then show ?thesis using 2 True w e ok3 zero scheduler.ok_set_errno [OF ok3, of error]
      by (cases "error = 0") (auto simp: async_connect_def)
  qed
qed

theorem async_connect_outcome_witness:
  "\<exists>r s'. async_connect late_io (sched_event_wait late_os demo_config (late_others 1)) 7 []
      \<lparr>thr = 0, world_of = with_kernel 0 (demo_timers [])\<rparr> = Inr (r, s') \<and> (r = 0 \<or> r = -1 \<and> sched_errno s' \<noteq> 0)"
proof -
  have "\<forall>k. fst (io_connect late_io 7 [] k) \<noteq> Inl 0" by (simp add: late_io_def EINPROGRESS_def)
  from async_connect_outcome [OF late_in_order this, of demo_config] show ?thesis by blast
qed

text \<open>
  A relative sleep puts the coroutine to sleep with one timer more in the heap, due exactly the
  requested time after the clock reading it starts with.
\<close>

theorem async_sleep_relative_timer:
  assumes "clock_ok os" "\<bar>millisecs\<bar> < 2 ^ 60" "sched_inv rq w" "running w th l c" "event_loop w l \<noteq> Some c"
    and "gsched w = Some g" "\<not> gs_lock g" "timers_ok base (timer_heap g)" "heap_sized (timer_heap g)"
    and "hp_items (timer_heap g) + 1 < hp_size (timer_heap g)" "hp_items (timer_heap g) < 2 ^ 30"
    and "\<forall>d. sleep_deadline (clock os (kernel w)) millisecs = Inr d \<longrightarrow> \<lparr>tw_time = d, tw_coro = c\<rparr> \<in> timer_window base"
  shows "\<exists>d w' h'. async_sleep_relative os cfg th millisecs w = Inr w' \<and> asleep w' c \<and>
    gsched w' = Some (g\<lparr>timer_heap := h'\<rparr>) \<and> timers_ok base h' \<and>
    heap_bag h' = add_mset \<lparr>tw_time = d, tw_coro = c\<rparr> (heap_bag (timer_heap g)) \<and>
    nanos d = nanos (clock os (kernel w)) + millisecs * 1000000"
proof -
  have clk: "fst (fst (os_clock_gettime os (kernel w))) = 0" "sane_time (clock os (kernel w))"
    using assms(1) by (simp_all add: clock_ok_def)
  obtain d where d: "sleep_deadline (clock os (kernel w)) millisecs = Inr d"
    "nanos d = nanos (clock os (kernel w)) + millisecs * 1000000"
    using sleep_deadline_ok [OF clk(2) assms(2)] by blast
  let ?w = "w\<lparr>kernel := tick os (kernel w)\<rparr>"
  have I: "sched_inv rq ?w" by (rule sched_inv_irrelevant [OF assms(3)]) simp_all
  have R: "running ?w th l c" "event_loop ?w l \<noteq> Some c" "gsched ?w = Some g"
    using assms(4-6) by (simp_all add: running_def current_def event_loop_def)
  have run: "async_sleep_relative os cfg th millisecs w = sched_wait os cfg th d ?w"
    using clk(1) d(1) by (simp add: async_sleep_relative_def read_clock_def clock_def tick_def case_prod_beta Let_def)
  have "\<lparr>tw_time = d, tw_coro = c\<rparr> \<in> timer_window base" using assms(12) d(1) by blast
  from sched_wait_ok [OF I R assms(7-9,11) this, of os cfg] assms(10) obtain w' h' where
    "sched_wait os cfg th d ?w = Inr w'" "asleep w' c" "gsched w' = Some (g\<lparr>timer_heap := h'\<rparr>)" "timers_ok base h'"
    "heap_bag h' = add_mset \<lparr>tw_time = d, tw_coro = c\<rparr> (heap_bag (timer_heap g))"
    by auto
  with run d(2) show ?thesis by auto
qed

theorem async_sleep_relative_timer_witness:
  "\<exists>d w' h'. async_sleep_relative (simple_os 1 \<lparr>tv_sec = 5, tv_nsec = 0\<rparr>) demo_config 0 2500 (demo_timers []) = Inr w' \<and>
     asleep w' 1 \<and> heap_bag h' = {#\<lparr>tw_time = d, tw_coro = 1\<rparr>#} \<and> nanos d = 7500000000"
proof -
  let ?os = "simple_os 1 \<lparr>tv_sec = 5, tv_nsec = 0\<rparr>" and ?w = "demo_timers []" and ?g = "(demo_global 2 2)\<lparr>timer_heap := demo_heap []\<rparr>"
  have os: "clock_ok ?os" by (rule simple_clock_ok) (simp add: sane_time_def normal_time_def)
  have now: "clock ?os k = \<lparr>tv_sec = 5, tv_nsec = 0\<rparr>" for k by (simp add: clock_def simple_os_def)
  have g: "event_loop ?w 10 \<noteq> Some 1" "\<not> gs_lock ?g" "timers_ok 0 (timer_heap ?g)" "heap_sized (timer_heap ?g)"
    "hp_items (timer_heap ?g) + 1 < hp_size (timer_heap ?g)" "hp_items (timer_heap ?g) < 2 ^ 30" "heap_bag (timer_heap ?g) = {#}"
    using demo_heap_ok(1-3) by (simp_all add: demo_timers_inv(3)) (simp_all add: demo_global_def demo_heap_def sorted_heap_def)
  have "(2500 :: int) sdiv 1000 = 2" "(2500 :: int) smod 1000 = 500" by (simp_all add: sdiv_pos_div smod_pos_mod)
  then have t: "\<forall>d. sleep_deadline (clock ?os (kernel ?w)) 2500 = Inr d \<longrightarrow> \<lparr>tw_time = d, tw_coro = 1\<rparr> \<in> timer_window 0"
    unfolding now by (simp add: sleep_deadline_def timer_window_def normal_time_def)
  have n: "nanos (clock ?os (kernel ?w)) = 5000000000" unfolding now by (simp add: nanos_def)
  obtain d w' h' where "async_sleep_relative ?os demo_config 0 2500 ?w = Inr w'" "asleep w' 1"
    "heap_bag h' = add_mset \<lparr>tw_time = d, tw_coro = 1\<rparr> (heap_bag (timer_heap ?g))"
    "nanos d = nanos (clock ?os (kernel ?w)) + 2500 * 1000000"
    using async_sleep_relative_timer [OF os _ demo_timers_inv(1,2) g(1) demo_timers_inv(4) g(2-6) t, of demo_config] by auto
  then show ?thesis unfolding g(7) n by (intro exI [of _ d] exI [of _ w'] exI [of _ h']) simp
qed

end
