(* ===== verification/Http.thy ===== *)
theory Http
  imports Async
begin

text \<open>
  What the two benchmark web servers (\<^verbatim>\<open>src/bench/webserver/main.c\<close> and \<^verbatim>\<open>eventserv.c\<close>) share: bytes and
  bounded arrays, \<^verbatim>\<open>vsnprintf\<close> as they use it, the header texts, the date, and the HTTP parser,
  a library outside the repository, as a parameter.
\<close>

section \<open>Bytes and arrays\<close>

definition bytes_of :: "string \<Rightarrow> byte list" where
  "bytes_of = map of_char"

text \<open>\<^verbatim>\<open>memcpy\<close> of \<open>bs\<close> to offset \<open>i\<close> of an array.\<close>

definition put_bytes :: "byte list \<Rightarrow> nat \<Rightarrow> byte list \<Rightarrow> byte list res" where
  "put_bytes a i bs =
     (if i + length bs \<le> length a then Inr (take i a @ bs @ drop (i + length bs) a) else Inl Out_of_bounds)"

text \<open>
  \<^verbatim>\<open>vsnprintf\<close> with the formatted text: what it writes into a buffer of the given size, the
  terminating NUL included, and what it returns.
\<close>

definition vsnprintf :: "nat \<Rightarrow> string \<Rightarrow> nat \<times> byte list" where
  "vsnprintf maxlen txt = (length txt, take (maxlen - 1) (bytes_of txt) @ [0])"

section \<open>Header texts\<close>

fun decimal :: "nat \<Rightarrow> string" where
  "decimal n = (if n < 10 then [char_of (48 + n)] else decimal (n div 10) @ [char_of (48 + n mod 10)])"

declare decimal.simps [simp del]

text \<open>\<^verbatim>\<open>%zd\<close> reads its argument as a signed number.\<close>

definition format_zd :: "nat \<Rightarrow> string" where
  "format_zd n = (if n < 2 ^ 63 then decimal n else ''-'' @ decimal (size_max - n))"

definition crlf :: string where
  "crlf = [CHR 0x0D, CHR 0x0A]"

definition HEADERS_CLOSE_FORMAT :: "string \<Rightarrow> string \<Rightarrow> string \<Rightarrow> nat \<Rightarrow> string" where
  "HEADERS_CLOSE_FORMAT status timestr content_type content_length =
     ''HTTP/1.1 '' @ status @ crlf @ ''Date: '' @ timestr @ crlf @ ''Content-Type: '' @ content_type @ crlf @
     ''Content-Length: '' @ format_zd content_length @ crlf @ ''Connection: close'' @ crlf @ crlf"

definition HEADERS_KEEP_ALIVE_FORMAT :: "string \<Rightarrow> string \<Rightarrow> string \<Rightarrow> nat \<Rightarrow> string" where
  "HEADERS_KEEP_ALIVE_FORMAT status timestr content_type content_length =
     ''HTTP/1.1 '' @ status @ crlf @ ''Date: '' @ timestr @ crlf @ ''Content-Type: '' @ content_type @ crlf @
     ''Content-Length: '' @ format_zd content_length @ crlf @ crlf"

definition header_text :: "bool \<Rightarrow> string \<Rightarrow> string \<Rightarrow> string \<Rightarrow> nat \<Rightarrow> string" where
  "header_text keep_alive = (if keep_alive then HEADERS_KEEP_ALIVE_FORMAT else HEADERS_CLOSE_FORMAT)"

text \<open>The page, with the terminating NUL that \<^verbatim>\<open>sizeof(HTML)\<close> counts.\<close>

definition HTML :: "byte list" where
  "HTML = bytes_of (''<html><head><title>Server</title></head><body><h1>they see me epollin'' @ [CHR 0x27] @
     '', they hatin</h1></body></html>'') @ [0]"

section \<open>Calls out of the servers\<close>

text \<open>The clock and its conversions; \<open>'tm\<close> is the broken-down time.\<close>

record ('k, 'tm) libc =
  lc_time :: "'k \<Rightarrow> int \<times> 'k"
  lc_gmtime_r :: "int \<Rightarrow> 'tm option"
  lc_asctime_r :: "'tm \<Rightarrow> string option"

text \<open>The date line: \<^verbatim>\<open>asctime_r\<close>'s text without its last character.\<close>

definition date_string :: "('k, 'tm) libc \<Rightarrow> 'k \<Rightarrow> (string \<times> 'k) res" where
  "date_string lc k =
     (let (now, k) = lc_time lc k in
      case lc_gmtime_r lc now of
        None \<Rightarrow> Inl Assert_fail
      | Some tm \<Rightarrow>
          (case lc_asctime_r lc tm of
             None \<Rightarrow> Inl Assert_fail
           | Some timestr \<Rightarrow> if timestr = [] then Inl Out_of_bounds else Inr (butlast timestr, k)))"

text \<open>
  The parser library. \<open>'p\<close> is the parser's own state and \<open>'r\<close> the request its \<^verbatim>\<open>data\<close> points to;
  \<^verbatim>\<open>http_parser_execute\<close> is given the two callbacks that are set, parses a buffer, and returns
  how many bytes it took.
\<close>

record ('p, 'r) http_lib =
  hp_init :: 'p
  hp_execute :: "(byte list \<Rightarrow> 'r \<Rightarrow> (int \<times> 'r) res) \<Rightarrow> ('p \<Rightarrow> 'r \<Rightarrow> (int \<times> 'r) res) \<Rightarrow> 'p \<Rightarrow> byte list \<Rightarrow> 'r \<Rightarrow>
     (nat \<times> 'p \<times> 'r) res"
  hp_should_keep_alive :: "'p \<Rightarrow> bool"
  hp_is_get :: "'p \<Rightarrow> bool"
  hp_parse_url :: "byte list \<Rightarrow> int"

definition EPIPE :: int where "EPIPE = 32"
definition ECONNRESET :: int where "ECONNRESET = 104"
definition MSG_NOSIGNAL :: int where "MSG_NOSIGNAL = 0x4000"

section \<open>Stream sockets\<close>

text \<open>
  What a stream socket promises: \<^verbatim>\<open>send\<close> takes a non-empty prefix of a non-empty buffer or fails and
  takes nothing, and only finitely many calls are interrupted or would block, as the measure \<open>m\<close>
  shows. \<open>out\<close> is what the socket has taken so far.
\<close>

definition stream_kernel :: "'k io \<Rightarrow> int \<Rightarrow> ('k \<Rightarrow> byte list) \<Rightarrow> ('k \<Rightarrow> nat) \<Rightarrow> bool" where
  "stream_kernel io sock out m \<longleftrightarrow>
     (\<forall>buf flags k. buf \<noteq> [] \<longrightarrow>
        (case io_send io sock buf flags k of
           (Inr n, k') \<Rightarrow> 0 < n \<and> n \<le> length buf \<and> out k' = out k @ take n buf \<and> m k' \<le> m k
         | (Inl e, k') \<Rightarrow> out k' = out k \<and> m k' \<le> m k \<and> (e = EINTR \<or> e = EAGAIN \<longrightarrow> m k' < m k))) \<and>
     (\<forall>k. out (snd (io_getsockopt io sock k)) = out k \<and> m (snd (io_getsockopt io sock k)) \<le> m k)"

section \<open>Lemmas\<close>

lemma send_law:
  assumes "stream_kernel io sock out m" "buf \<noteq> []"
  shows "fst (io_send io sock buf flags k) = Inr n \<Longrightarrow> 0 < n \<and> n \<le> length buf \<and>
      out (snd (io_send io sock buf flags k)) = out k @ take n buf"
    and "fst (io_send io sock buf flags k) = Inl e \<Longrightarrow> out (snd (io_send io sock buf flags k)) = out k \<and>
      (e = EINTR \<or> e = EAGAIN \<longrightarrow> m (snd (io_send io sock buf flags k)) < m k)"
    and "m (snd (io_send io sock buf flags k)) \<le> m k"
proof -
  have law: "case io_send io sock buf flags k of
      (Inr n, k') \<Rightarrow> 0 < n \<and> n \<le> length buf \<and> out k' = out k @ take n buf \<and> m k' \<le> m k
    | (Inl e, k') \<Rightarrow> out k' = out k \<and> m k' \<le> m k \<and> (e = EINTR \<or> e = EAGAIN \<longrightarrow> m k' < m k)"
    using assms(1) [unfolded stream_kernel_def, THEN conjunct1, THEN spec, THEN spec, THEN spec, THEN mp, OF assms(2)] .
  obtain y k' where k: "io_send io sock buf flags k = (y, k')" by (meson surj_pair)
  show "fst (io_send io sock buf flags k) = Inr n \<Longrightarrow> 0 < n \<and> n \<le> length buf \<and>
      out (snd (io_send io sock buf flags k)) = out k @ take n buf"
    using law by (simp add: k)
  show "fst (io_send io sock buf flags k) = Inl e \<Longrightarrow> out (snd (io_send io sock buf flags k)) = out k \<and>
      (e = EINTR \<or> e = EAGAIN \<longrightarrow> m (snd (io_send io sock buf flags k)) < m k)"
    using law by (simp add: k)
  show "m (snd (io_send io sock buf flags k)) \<le> m k" using law by (cases y) (simp_all add: k)
qed

lemma length_bytes_of [simp]: "length (bytes_of t) = length t"
  by (simp add: bytes_of_def)

lemma put_bytes_ok:
  "i + length bs \<le> length a \<Longrightarrow>
   \<exists>a'. put_bytes a i bs = Inr a' \<and> length a' = length a \<and> take (i + length bs) a' = take i a @ bs"
  by (simp add: put_bytes_def)

lemma put_bytes_beyond: "length a < i + length bs \<Longrightarrow> put_bytes a i bs = Inl Out_of_bounds"
  by (simp add: put_bytes_def)

text \<open>When the text fits, the buffer holds it whole; otherwise all but the NUL of it is text.\<close>

lemma vsnprintf_fits: "length txt < maxlen \<Longrightarrow> take (length txt) (snd (vsnprintf maxlen txt)) = bytes_of txt"
  by (simp add: vsnprintf_def)

lemma vsnprintf_cut: "maxlen \<le> length txt \<Longrightarrow> 0 < maxlen \<Longrightarrow> take (maxlen - 1) (snd (vsnprintf maxlen txt)) = take (maxlen - 1) (bytes_of txt)"
  by (simp add: vsnprintf_def)

lemma decimal_nonempty: "decimal n \<noteq> []"
  by (subst decimal.simps) simp

lemma length_decimal: "n < 10 ^ Suc k \<Longrightarrow> length (decimal n) \<le> Suc k"
proof (induction k arbitrary: n)
  case 0
  then show ?case by (subst decimal.simps) simp
next
  case (Suc k)
  then have "n div 10 < 10 ^ Suc k" by (simp add: less_mult_imp_div_less mult.commute)
  from Suc.IH [OF this] show ?case by (subst decimal.simps) simp
qed

text \<open>The number printed is the number meant.\<close>

definition digits_value :: "string \<Rightarrow> nat" where
  "digits_value = foldl (\<lambda>v c. 10 * v + (of_char c - 48)) 0"

lemma digits_value_decimal: "digits_value (decimal n) = n"
proof (induction n rule: decimal.induct)
  case (1 n)
  show ?case
  proof (cases "n < 10")
    case True
    then show ?thesis by (subst decimal.simps) (simp add: digits_value_def of_char_of take_bit_eq_mod)
  next
    case False
    have "48 + n mod 10 < 256" using mod_less_divisor [of 10 n] by linarith
    then have "(48 + n mod 10) mod 256 = 48 + n mod 10" by (rule mod_less)
    with 1 [OF False] False show ?thesis
      by (subst decimal.simps) (simp add: digits_value_def of_char_of take_bit_eq_mod)
  qed
qed

lemma length_HTML: "length HTML = 102"
  by (simp add: HTML_def)

end
