(* ===== verification/Webserver.thy ===== *)
theory Webserver
  imports Http
begin

text \<open>
  \<^verbatim>\<open>src/bench/webserver/main.c\<close>: the web server whose connections are handled by coroutines, or by
  threads, with the same code. The two builds differ in the calls they send and receive with.
\<close>

section \<open>The socket calls of the two builds\<close>

text \<open>
  \<^verbatim>\<open>async_send\<close> and \<^verbatim>\<open>async_recv\<close> when \<^verbatim>\<open>WEBSERVER_COROUTINES\<close> is defined, \<^verbatim>\<open>send\<close> and \<^verbatim>\<open>recv\<close> otherwise;
  \<^verbatim>\<open>close\<close> is the system's in both. A new connection is accepted by \<^verbatim>\<open>async_accept\<close> and given a
  coroutine, or by \<^verbatim>\<open>accept\<close> and given a detached thread.
\<close>

record 'k net =
  net_send :: "int \<Rightarrow> byte list \<Rightarrow> int \<Rightarrow> 'k thread \<Rightarrow> (int \<times> 'k thread) res"
  net_recv :: "int \<Rightarrow> nat \<Rightarrow> int \<Rightarrow> 'k thread \<Rightarrow> ((int \<times> byte list) \<times> 'k thread) res"
  net_close :: "int \<Rightarrow> 'k thread \<Rightarrow> int \<times> 'k thread"
  net_accept :: "int \<Rightarrow> 'k thread \<Rightarrow> (int \<times> 'k thread) res"
  net_spawn :: "int \<Rightarrow> 'k thread \<Rightarrow> 'k thread res"

definition plain_send :: "'k io \<Rightarrow> int \<Rightarrow> byte list \<Rightarrow> int \<Rightarrow> 'k thread \<Rightarrow> (int \<times> 'k thread) res" where
  "plain_send io sock buffer flags s =
     (let (r, s) = syscall (io_send io sock buffer flags) s in
      Inr (case r of None \<Rightarrow> -1 | Some num_sent \<Rightarrow> int num_sent, s))"

definition plain_recv :: "'k io \<Rightarrow> int \<Rightarrow> nat \<Rightarrow> int \<Rightarrow> 'k thread \<Rightarrow> ((int \<times> byte list) \<times> 'k thread) res" where
  "plain_recv io sock len flags s =
     (let (r, s) = syscall (io_recv io sock len flags) s in
      Inr (case r of None \<Rightarrow> (-1, []) | Some bytes \<Rightarrow> (int (length bytes), bytes), s))"

definition plain_close :: "(int \<Rightarrow> 'k \<Rightarrow> (int + unit) \<times> 'k) \<Rightarrow> int \<Rightarrow> 'k thread \<Rightarrow> int \<times> 'k thread" where
  "plain_close close sock s =
     (let (r, s) = syscall (close sock) s in (case r of None \<Rightarrow> -1 | Some _ \<Rightarrow> 0, s))"

text \<open>The handler's address, as the scheduler model names functions.\<close>

definition handler_fn :: start_fn where
  "handler_fn = User_fn 0"

definition coroutine_accept :: "nat \<Rightarrow> 'k io \<Rightarrow> 'k waiter \<Rightarrow> int \<Rightarrow> 'k thread \<Rightarrow> (int \<times> 'k thread) res" where
  "coroutine_accept m io wait sock s =
     andthen (async_accept m io wait sock s) (\<lambda>((new_sock, _), s). Inr (new_sock, s))"

definition coroutine_spawn :: "'k os \<Rightarrow> config \<Rightarrow> int \<Rightarrow> 'k thread \<Rightarrow> 'k thread res" where
  "coroutine_spawn os cfg new_sock s =
     andthen (sched_new_coroutine os cfg (thr s) handler_fn (nat new_sock) (world_of s)) (\<lambda>(_, w).
     Inr (s\<lparr>world_of := w\<rparr>))"

definition coroutine_net ::
  "nat \<Rightarrow> 'k io \<Rightarrow> 'k waiter \<Rightarrow> 'k os \<Rightarrow> config \<Rightarrow> (int \<Rightarrow> 'k \<Rightarrow> (int + unit) \<times> 'k) \<Rightarrow> 'k net" where
  "coroutine_net m io wait os cfg close =
     \<lparr>net_send = async_send m io wait, net_recv = async_recv m io wait, net_close = plain_close close,
      net_accept = coroutine_accept m io wait, net_spawn = coroutine_spawn os cfg\<rparr>"

text \<open>The pthread calls of \<^verbatim>\<open>create_thread\<close>; each returns 0 or an error.\<close>

record 'k pthreads =
  pt_attr_init :: "'k \<Rightarrow> int \<times> 'k"
  pt_attr_setdetachstate :: "'k \<Rightarrow> int \<times> 'k"
  pt_attr_setstacksize :: "nat \<Rightarrow> 'k \<Rightarrow> int \<times> 'k"
  pt_create :: "int \<Rightarrow> 'k \<Rightarrow> int \<times> 'k"

definition create_thread :: "'k pthreads \<Rightarrow> int \<Rightarrow> 'k thread \<Rightarrow> 'k thread res" where
  "create_thread pt arg s =
     (let (result, k) = pt_attr_init pt (kernel (world_of s)) in
      andthen (c_assert (result = 0)) (\<lambda>_.
      let (result, k) = pt_attr_setdetachstate pt k in
      andthen (c_assert (result = 0)) (\<lambda>_.
      let (result, k) = pt_attr_setstacksize pt PTHREAD_STACK_MIN k in
      andthen (c_assert (result = 0)) (\<lambda>_.
      let (result, k) = pt_create pt arg k in
      andthen (c_assert (result = 0)) (\<lambda>_.
      Inr (s\<lparr>world_of := (world_of s)\<lparr>kernel := k\<rparr>\<rparr>))))))"

text \<open>\<open>accept\<close> is the system call of that name, as it is called with no address to fill in.\<close>

definition plain_accept :: "(int \<Rightarrow> 'k \<Rightarrow> (int + int) \<times> 'k) \<Rightarrow> int \<Rightarrow> 'k thread \<Rightarrow> (int \<times> 'k thread) res" where
  "plain_accept accept sock s =
     (let (r, s) = syscall (accept sock) s in Inr (case r of None \<Rightarrow> -1 | Some new_sock \<Rightarrow> new_sock, s))"

definition thread_net ::
  "'k io \<Rightarrow> (int \<Rightarrow> 'k \<Rightarrow> (int + int) \<times> 'k) \<Rightarrow> 'k pthreads \<Rightarrow> (int \<Rightarrow> 'k \<Rightarrow> (int + unit) \<times> 'k) \<Rightarrow> 'k net" where
  "thread_net io accept pt close =
     \<lparr>net_send = plain_send io, net_recv = plain_recv io, net_close = plain_close close,
      net_accept = plain_accept accept, net_spawn = create_thread pt\<rparr>"

section \<open>Sending a buffer\<close>

text \<open>The first argument bounds the calls the loop makes.\<close>

primrec send_all :: "nat \<Rightarrow> 'k net \<Rightarrow> int \<Rightarrow> byte list \<Rightarrow> 'k thread \<Rightarrow> (int \<times> 'k thread) res" where
  "send_all 0 net sock buf s = (if buf = [] then Inr (0, s) else Inl Diverged)"
| "send_all (Suc n) net sock buf s =
     (if buf = [] then Inr (0, s)
      else
        andthen (net_send net sock buf MSG_NOSIGNAL s) (\<lambda>(sent, s).
        if sent = -1 \<and> sched_errno s = EINTR then send_all n net sock buf s
        else if sent = -1 then Inr (-1, s)
        else send_all n net sock (drop (nat sent) buf) s))"

section \<open>Requests\<close>

text \<open>The \<^verbatim>\<open>url\<close> array has 128 bytes; \<open>req_done\<close> is the field \<^verbatim>\<open>done\<close>.\<close>

record web_request =
  url :: "byte list"
  url_length :: nat
  req_done :: bool
  keep_alive :: bool

definition URL_SIZE :: nat where
  "URL_SIZE = 128"

definition on_url :: "byte list \<Rightarrow> web_request \<Rightarrow> (int \<times> web_request) res" where
  "on_url buffer request =
     (if (url_length request + length buffer) mod size_max > URL_SIZE then Inr (-1, request)
      else
        andthen (put_bytes (url request) (url_length request) buffer) (\<lambda>u.
        Inr (0, request\<lparr>url := u, url_length := (url_length request + length buffer) mod size_max\<rparr>)))"

definition on_done :: "('p, web_request) http_lib \<Rightarrow> 'p \<Rightarrow> web_request \<Rightarrow> (int \<times> web_request) res" where
  "on_done lib parser request =
     andthen (put_bytes (url request) (url_length request) [0]) (\<lambda>u.
     Inr (0, request\<lparr>url := u, req_done := True, keep_alive := hp_should_keep_alive lib parser\<rparr>))"

section \<open>Responses\<close>

definition sendf :: "nat \<Rightarrow> 'k net \<Rightarrow> int \<Rightarrow> string \<Rightarrow> 'k thread \<Rightarrow> (int \<times> 'k thread) res" where
  "sendf n net sock txt s =
     (let (written, buffer) = vsnprintf 256 txt; len = (if written \<ge> 256 then 255 else written) in
      send_all n net sock (take len buffer) s)"

definition send_http_headers ::
  "nat \<Rightarrow> 'k net \<Rightarrow> ('k, 'tm) libc \<Rightarrow> int \<Rightarrow> string \<Rightarrow> nat \<Rightarrow> string \<Rightarrow> bool \<Rightarrow> 'k thread \<Rightarrow> 'k thread res" where
  "send_http_headers n net lc sock status content_length content_type keep s =
     andthen (date_string lc (kernel (world_of s))) (\<lambda>(timestr, k).
     andthen (sendf n net sock (header_text keep status timestr content_type content_length)
                (s\<lparr>world_of := (world_of s)\<lparr>kernel := k\<rparr>\<rparr>)) (\<lambda>(result, s).
     if result \<noteq> 0 then Inl Exit_failure else Inr s))"

definition send_http_response ::
  "nat \<Rightarrow> 'k net \<Rightarrow> ('k, 'tm) libc \<Rightarrow> int \<Rightarrow> string \<Rightarrow> byte list \<Rightarrow> string \<Rightarrow> bool \<Rightarrow> 'k thread \<Rightarrow> 'k thread res" where
  "send_http_response n net lc sock status data content_type keep s =
     andthen (send_http_headers n net lc sock status (length data) content_type keep s) (\<lambda>s.
     andthen (send_all n net sock data s) (\<lambda>(result, s).
     if result \<noteq> 0 \<and> sched_errno s \<noteq> ECONNRESET \<and> sched_errno s \<noteq> EPIPE then Inl Exit_failure
     else Inr s))"

section \<open>A connection\<close>

primrec read_and_parse ::
  "nat \<Rightarrow> 'k net \<Rightarrow> ('p, web_request) http_lib \<Rightarrow> int \<Rightarrow> web_request \<Rightarrow> 'p \<Rightarrow> 'k thread \<Rightarrow>
     (int \<times> web_request \<times> 'p \<times> 'k thread) res" where
  "read_and_parse 0 net lib sock request parser s = Inl Diverged"
| "read_and_parse (Suc n) net lib sock request parser s =
     andthen (net_recv net sock 256 0 s) (\<lambda>((num_read, buf), s).
     if num_read = -1 then
       if sched_errno s = EPIPE \<or> sched_errno s = ECONNRESET then Inr (-1, request, parser, s)
       else Inl Exit_failure
     else
       andthen (hp_execute lib on_url (on_done lib) parser buf request) (\<lambda>(parsed, parser, request).
       if int parsed \<noteq> num_read then Inr (-1, request, parser, s)
       else if parsed = 0 \<or> req_done request then Inr (int parsed, request, parser, s)
       else read_and_parse n net lib sock request parser s))"

definition reset_request :: "web_request \<Rightarrow> web_request" where
  "reset_request request = request\<lparr>url := (url request)[0 := 0], url_length := 0, req_done := False, keep_alive := False\<rparr>"

definition answer ::
  "nat \<Rightarrow> 'k net \<Rightarrow> ('k, 'tm) libc \<Rightarrow> ('p, web_request) http_lib \<Rightarrow> int \<Rightarrow> web_request \<Rightarrow> 'p \<Rightarrow> 'k thread \<Rightarrow> 'k thread res" where
  "answer n net lc lib sock request parser s =
     andthen (c_assert (req_done request)) (\<lambda>_.
     andthen (c_assert (hp_parse_url lib (take (url_length request) (url request)) = 0)) (\<lambda>_.
     if hp_is_get lib parser then
       send_http_response n net lc sock ''200 Seek'' HTML ''text/html'' (keep_alive request) s
     else
       send_http_response n net lc sock ''405 Method Not Allowed'' [] ''text/plain'' (keep_alive request) s))"

text \<open>The loop over the requests of a connection; its first argument bounds how many are served.\<close>

primrec handler_loop ::
  "nat \<Rightarrow> nat \<Rightarrow> 'k net \<Rightarrow> ('k, 'tm) libc \<Rightarrow> ('p, web_request) http_lib \<Rightarrow> int \<Rightarrow> web_request \<Rightarrow> 'p \<Rightarrow> 'k thread \<Rightarrow> 'k thread res" where
  "handler_loop 0 n net lc lib sock request parser s = (if keep_alive request then Inl Diverged else Inr s)"
| "handler_loop (Suc i) n net lc lib sock request parser s =
     (if \<not> keep_alive request then Inr s
      else
        andthen (read_and_parse n net lib sock (reset_request request) parser s) (\<lambda>(result, request, parser, s).
        if result = -1 \<or> (result = 0 \<and> \<not> req_done request) then Inr s
        else
          andthen (answer n net lc lib sock request parser s) (\<lambda>s.
          handler_loop i n net lc lib sock request parser s)))"

text \<open>\<open>mem\<close> is what \<^verbatim>\<open>malloc\<close> returns, a block with whatever contents, or NULL.\<close>

definition server_handler_coro ::
  "nat \<Rightarrow> nat \<Rightarrow> 'k net \<Rightarrow> ('k, 'tm) libc \<Rightarrow> ('p, web_request) http_lib \<Rightarrow> web_request option \<Rightarrow> int \<Rightarrow> 'k thread \<Rightarrow> 'k thread res" where
  "server_handler_coro i n net lc lib mem sock s =
     (case mem of
        None \<Rightarrow> Inl Assert_fail
      | Some request \<Rightarrow>
          andthen (handler_loop i n net lc lib sock (request\<lparr>keep_alive := True\<rparr>) (hp_init lib) s) (\<lambda>s.
          let (_, s) = net_close net sock s in Inr s))"

section \<open>The server\<close>

text \<open>The calls that open the listening socket; the first is told whether it is to be non-blocking.\<close>

record 'k sockets =
  sk_socket :: "bool \<Rightarrow> 'k \<Rightarrow> (int + int) \<times> 'k"
  sk_setsockopt_reuse :: "int \<Rightarrow> 'k \<Rightarrow> (int + unit) \<times> 'k"
  sk_bind :: "int \<Rightarrow> nat \<Rightarrow> 'k \<Rightarrow> (int + unit) \<times> 'k"
  sk_listen :: "int \<Rightarrow> nat \<Rightarrow> 'k \<Rightarrow> (int + unit) \<times> 'k"

definition PORT :: nat where "PORT = 6789"
definition BACKLOG :: nat where "BACKLOG = 4096"

text \<open>A call whose failure ends the process.\<close>

definition or_exit :: "('k \<Rightarrow> (int + 'a) \<times> 'k) \<Rightarrow> 'k thread \<Rightarrow> ('a \<times> 'k thread) res" where
  "or_exit call s = (case syscall call s of (None, _) \<Rightarrow> Inl Exit_failure | (Some x, s) \<Rightarrow> Inr (x, s))"

definition open_server :: "'k sockets \<Rightarrow> bool \<Rightarrow> 'k thread \<Rightarrow> (int \<times> 'k thread) res" where
  "open_server sk coroutines s =
     andthen (or_exit (sk_socket sk coroutines) s) (\<lambda>(sock, s).
     andthen (or_exit (sk_setsockopt_reuse sk sock) s) (\<lambda>(_, s).
     andthen (or_exit (sk_bind sk sock PORT) s) (\<lambda>(_, s).
     andthen (or_exit (sk_listen sk sock BACKLOG) s) (\<lambda>(_, s). Inr (sock, s)))))"

text \<open>The accept loop does not end; this is its state after \<open>i\<close> connections.\<close>

primrec accept_loop :: "nat \<Rightarrow> 'k net \<Rightarrow> int \<Rightarrow> 'k thread \<Rightarrow> 'k thread res" where
  "accept_loop 0 net sock s = Inr s"
| "accept_loop (Suc i) net sock s =
     andthen (net_accept net sock s) (\<lambda>(new_sock, s).
     if new_sock = -1 then Inl Exit_failure
     else andthen (net_spawn net new_sock s) (accept_loop i net sock))"

definition server_main :: "nat \<Rightarrow> 'k net \<Rightarrow> 'k sockets \<Rightarrow> bool \<Rightarrow> 'k thread \<Rightarrow> 'k thread res" where
  "server_main i net sk coroutines s =
     andthen (open_server sk coroutines s) (\<lambda>(sock, s). accept_loop i net sock s)"

section \<open>What sending relies on\<close>

text \<open>
  A stream socket as \<open>send_all\<close> uses it: a call on a non-empty buffer returns and takes a non-empty
  prefix of it, or fails and takes nothing. \<open>out\<close> is what the socket has taken so far; \<open>patience\<close>
  bounds how often calls are still interrupted.
\<close>

locale stream_sender =
  fixes send :: "byte list \<Rightarrow> 'k thread \<Rightarrow> (int \<times> 'k thread) res"
    and ok :: "'k thread \<Rightarrow> bool" and out :: "'k thread \<Rightarrow> byte list" and patience :: "'k thread \<Rightarrow> nat"
  assumes send_takes: "ok s \<Longrightarrow> buf \<noteq> [] \<Longrightarrow> \<exists>r s'. send buf s = Inr (r, s') \<and> ok s' \<and> patience s' \<le> patience s \<and>
    (r = -1 \<and> out s' = out s \<and> (sched_errno s' = EINTR \<longrightarrow> patience s' < patience s) \<or>
     0 < r \<and> r \<le> int (length buf) \<and> out s' = out s @ take (nat r) buf)"
begin

lemma send_all_takes:
  assumes net: "\<And>buf s. net_send net sock buf MSG_NOSIGNAL s = send buf s"
  shows "ok s \<Longrightarrow> length buf + patience s < n \<Longrightarrow>
    \<exists>r s'. send_all n net sock buf s = Inr (r, s') \<and> ok s' \<and> patience s' \<le> patience s \<and>
      (r = 0 \<and> out s' = out s @ buf \<or>
       r = -1 \<and> sched_errno s' \<noteq> EINTR \<and> (\<exists>i<length buf. out s' = out s @ take i buf))"
proof (induction n arbitrary: buf s)
  case (Suc n)
  show ?case
  proof (cases "buf = []")
    case True
    with Suc.prems show ?thesis by simp
  next
    case False
    from send_takes [OF Suc.prems(1) False] obtain r s1 where s1: "send buf s = Inr (r, s1)" "ok s1"
      "patience s1 \<le> patience s"
      and d: "r = -1 \<and> out s1 = out s \<and> (sched_errno s1 = EINTR \<longrightarrow> patience s1 < patience s) \<or>
        0 < r \<and> r \<le> int (length buf) \<and> out s1 = out s @ take (nat r) buf"
      by blast
    consider "r = -1" "sched_errno s1 = EINTR" "patience s1 < patience s" "out s1 = out s"
      | "r = -1" "sched_errno s1 \<noteq> EINTR" "out s1 = out s"
      | "0 < r" "r \<le> int (length buf)" "out s1 = out s @ take (nat r) buf"
      using d by fastforce
    then show ?thesis
    proof cases
      case 1
      then have "length buf + patience s1 < n" using Suc.prems(2) by simp
      from Suc.IH [OF s1(2) this] 1 False s1(1,3) show ?thesis by (fastforce simp: net)
    next
      case 2
      with False s1 show ?thesis by (auto simp: net intro!: exI [of _ 0])
    next
      case 3
      then have "length (drop (nat r) buf) + patience s1 < n" using Suc.prems(2) s1(3) by simp
      from Suc.IH [OF s1(2) this] obtain r' s2 where s2: "send_all n net sock (drop (nat r) buf) s1 = Inr (r', s2)"
        "ok s2" "patience s2 \<le> patience s1"
        "r' = 0 \<and> out s2 = out s1 @ drop (nat r) buf \<or>
         r' = -1 \<and> sched_errno s2 \<noteq> EINTR \<and> (\<exists>i<length (drop (nat r) buf). out s2 = out s1 @ take i (drop (nat r) buf))"
        by blast
      have run: "send_all (Suc n) net sock buf s = Inr (r', s2)" using False 3(1) s1(1) s2(1) by (simp add: net)
      have "\<exists>j<length buf. out s2 = out s @ take j buf"
        if "i < length (drop (nat r) buf)" "out s2 = out s1 @ take i (drop (nat r) buf)" for i
        using that 3 by (intro exI [of _ "nat r + i"]) (auto simp: take_add)
      with s2 3 run s1(3) show ?thesis by auto
    qed
  qed
qed simp

end

section \<open>The two builds as senders\<close>

text \<open>While the coroutine waits, nobody else writes to the socket.\<close>

definition kern :: "'k thread \<Rightarrow> 'k" where
  "kern s = kernel (world_of s)"

definition quiet_wait :: "'k waiter \<Rightarrow> ('k thread \<Rightarrow> bool) \<Rightarrow> int \<Rightarrow> ('k \<Rightarrow> byte list) \<Rightarrow> ('k \<Rightarrow> nat) \<Rightarrow> bool" where
  "quiet_wait wait ok sock out m \<longleftrightarrow> (\<forall>s revents s'. ok s \<longrightarrow> wait sock EPOLLOUT s = Inr (revents, s') \<longrightarrow>
     out (kern s') = out (kern s) \<and> m (kern s') \<le> m (kern s))"

lemma kern_simps [simp]:
  "kern (set_sched_errno e s) = kern s" "kern (s\<lparr>world_of := (world_of s)\<lparr>kernel := k\<rparr>\<rparr>) = k"
  by (simp_all add: kern_def set_sched_errno_def)

lemma syscall_kern:
  assumes "syscall call s = (r, s')"
  shows "kern s' = snd (call (kern s))" "r = None \<longleftrightarrow> (\<exists>e. fst (call (kern s)) = Inl e)"
    "r = Some x \<longleftrightarrow> fst (call (kern s)) = Inr x" "fst (call (kern s)) = Inl e \<Longrightarrow> sched_errno s' = e"
proof -
  obtain y k where k: "call (kernel (world_of s)) = (y, k)" by (meson surj_pair)
  show "kern s' = snd (call (kern s))" "r = None \<longleftrightarrow> (\<exists>e. fst (call (kern s)) = Inl e)"
    "r = Some x \<longleftrightarrow> fst (call (kern s)) = Inr x" "fst (call (kern s)) = Inl e \<Longrightarrow> sched_errno s' = e"
    using assms k by (cases y; force simp: syscall_def kern_def set_sched_errno_def sched_errno_def sched_get_errno_def)+
qed

lemma send_call:
  assumes "stream_kernel io sock out m" "buf \<noteq> []" "syscall (io_send io sock buf flags) s = (r, s')"
  shows "m (kern s') \<le> m (kern s)"
    and "r = Some n \<Longrightarrow> 0 < n \<and> n \<le> length buf \<and> out (kern s') = out (kern s) @ take n buf"
    and "r = None \<Longrightarrow> out (kern s') = out (kern s)"
    and "r = None \<Longrightarrow> sched_errno s' = EINTR \<or> sched_errno s' = EAGAIN \<Longrightarrow> m (kern s') < m (kern s)"
proof -
  note call = syscall_kern [OF assms(3)] and law = send_law [OF assms(1,2)]
  show "m (kern s') \<le> m (kern s)" by (simp only: call(1) law(3))
  show "r = Some n \<Longrightarrow> 0 < n \<and> n \<le> length buf \<and> out (kern s') = out (kern s) @ take n buf"
    unfolding call(1) using call(3) law(1) by blast
  show "r = None \<Longrightarrow> out (kern s') = out (kern s)" unfolding call(1) using call(2) law(2) by blast
  show "r = None \<Longrightarrow> sched_errno s' = EINTR \<or> sched_errno s' = EAGAIN \<Longrightarrow> m (kern s') < m (kern s)"
    unfolding call(1) using call(2,4) law(2) by blast
qed

lemma socket_errno_kern:
  assumes "stream_kernel io sock out m" "socket_errno io sock s = (e, s')"
  shows "out (kern s') = out (kern s)" "m (kern s') \<le> m (kern s)"
proof -
  have "kern s' = snd (io_getsockopt io sock (kern s))"
    using assms(2) by (auto simp: socket_errno_def syscall_def Let_def kern_def set_sched_errno_def split: prod.splits sum.splits)
  with assms(1) show "out (kern s') = out (kern s)" "m (kern s') \<le> m (kern s)" by (simp_all add: stream_kernel_def)
qed

context event_waiter
begin

lemma quiet_call:
  assumes "stream_kernel io sock out m" "quiet_wait wait ok sock out m" "buf \<noteq> []" "ok s"
    and "syscall (io_send io sock buf flags) s = (None, s1)" "would_block s1" "wait sock EPOLLOUT s1 = Inr (revents, s2)"
  shows "m (kern s2) < m (kern s)" "out (kern s2) = out (kern s)" "ok s2"
proof -
  have ok1: "ok s1" by (rule ok_syscall [OF assms(4,5)])
  have "m (kern s1) < m (kern s)" "out (kern s1) = out (kern s)"
    using send_call [OF assms(1,3,5)] assms(6) by (simp_all add: would_block_def)
  moreover have "out (kern s2) = out (kern s1)" "m (kern s2) \<le> m (kern s1)"
    using assms(2,7) ok1 by (auto simp: quiet_wait_def)
  ultimately show "m (kern s2) < m (kern s)" "out (kern s2) = out (kern s)" by simp_all
  show "ok s2" using wait_returns [OF ok1, of sock EPOLLOUT] assms(7) by auto
qed

lemma blocking_send:
  assumes "stream_kernel io sock out m" "quiet_wait wait ok sock out m" "buf \<noteq> []"
  shows "blocking (io_send io sock buf flags) io wait sock EPOLLOUT s r s' \<Longrightarrow> ok s \<Longrightarrow> m (kern s') \<le> m (kern s) \<and>
    (case r of Some n \<Rightarrow> 0 < n \<and> n \<le> length buf \<and> out (kern s') = out (kern s) @ take n buf
     | None \<Rightarrow> out (kern s') = out (kern s) \<and> (sched_errno s' = EINTR \<longrightarrow> m (kern s') < m (kern s)))"
proof (induction rule: blocking.induct)
  case (complete s x s')
  from send_call [OF assms(1,3) complete(1)] show ?case by simp
next
  case (failed s s')
  from send_call [OF assms(1,3) failed(1)] show ?case by simp
next
  case (hangup s s1 revents s2 error s3)
  from quiet_call [OF assms hangup(6,1-3)] socket_errno_kern [OF assms(1) hangup(5)] show ?case by simp
next
  case (again s s1 revents s2 r s')
  from quiet_call [OF assms again(7,1-3)] again.IH show ?case by (auto split: option.splits)
qed

end

definition sends_ok ::
  "nat \<Rightarrow> 'k io \<Rightarrow> 'k os \<Rightarrow> config \<Rightarrow> (nat \<Rightarrow> 'k world \<Rightarrow> 'k thread res) \<Rightarrow> coro \<Rightarrow> int \<Rightarrow> ('k \<Rightarrow> byte list) \<Rightarrow> ('k \<Rightarrow> nat) \<Rightarrow>
     'k thread \<Rightarrow> bool" where
  "sends_ok n io os cfg others c sock out m s \<longleftrightarrow> in_order os others c s \<and> stream_kernel io sock out m \<and>
     quiet_wait (sched_event_wait os cfg others) (in_order os others c) sock out m \<and> m (kern s) < n"

interpretation coroutine_sender: stream_sender
  "\<lambda>buf. async_send n io (sched_event_wait os cfg others) sock buf MSG_NOSIGNAL"
  "sends_ok n io os cfg others c sock out m" "\<lambda>s. out (kern s)" "\<lambda>s. m (kern s)"
proof
  fix s and buf :: "byte list"
  assume ok: "sends_ok n io os cfg others c sock out m s" and buf: "buf \<noteq> []"
  then have o: "in_order os others c s" "stream_kernel io sock out m" "quiet_wait (sched_event_wait os cfg others) (in_order os others c) sock out m"
    "m (kernel (world_of s)) < n"
    by (simp_all add: sends_ok_def kern_def)
  let ?call = "io_send io sock buf MSG_NOSIGNAL" and ?wait = "sched_event_wait os cfg others"
  have progress: "m (kernel (world_of s2)) < m (kernel (world_of s))"
    if "in_order os others c s" "syscall ?call s = (None, s1)" "would_block s1" "?wait sock EPOLLOUT s1 = Inr (revents, s2)"
    for s s1 revents s2
    using scheduler.quiet_call [OF o(2,3) buf that] by (simp add: kern_def)
  obtain r s' where r: "async_retry n ?call io ?wait sock EPOLLOUT s = Inr (r, s')" "in_order os others c s'"
    using scheduler.retry_returns [where m = m and call = ?call and fd = sock and events = EPOLLOUT and cfg = cfg, OF _ o(1,4)] progress by blast
  note b = scheduler.blocking_send [OF o(2,3) buf retry_sound [OF r(1)] o(1)]
  have ok': "sends_ok n io os cfg others c sock out m s'" using b o r(2) by (simp add: sends_ok_def kern_def)
  have "async_send n io ?wait sock buf MSG_NOSIGNAL s = Inr (case r of None \<Rightarrow> -1 | Some num \<Rightarrow> int num, s')"
    by (simp add: async_send_def r(1))
  then show "\<exists>r s'. async_send n io ?wait sock buf MSG_NOSIGNAL s = Inr (r, s') \<and>
      sends_ok n io os cfg others c sock out m s' \<and> m (kern s') \<le> m (kern s) \<and>
      (r = -1 \<and> out (kern s') = out (kern s) \<and> (sched_errno s' = EINTR \<longrightarrow> m (kern s') < m (kern s)) \<or>
       0 < r \<and> r \<le> int (length buf) \<and> out (kern s') = out (kern s) @ take (nat r) buf)"
    using b ok' by (cases r) auto
qed

interpretation thread_sender: stream_sender "\<lambda>buf. plain_send io sock buf MSG_NOSIGNAL"
  "\<lambda>s. stream_kernel io sock out m" "\<lambda>s. out (kern s)" "\<lambda>s. m (kern s)"
proof
  fix s and buf :: "byte list"
  assume k: "stream_kernel io sock out m" and buf: "buf \<noteq> []"
  obtain r s' where r: "syscall (io_send io sock buf MSG_NOSIGNAL) s = (r, s')" by (meson surj_pair)
  from send_call [OF k buf r] show "\<exists>r s'. plain_send io sock buf MSG_NOSIGNAL s = Inr (r, s') \<and>
      stream_kernel io sock out m \<and> m (kern s') \<le> m (kern s) \<and>
      (r = -1 \<and> out (kern s') = out (kern s) \<and> (sched_errno s' = EINTR \<longrightarrow> m (kern s') < m (kern s)) \<or>
       0 < r \<and> r \<le> int (length buf) \<and> out (kern s') = out (kern s) @ take (nat r) buf)"
    using k by (cases r) (auto simp: plain_send_def r)
qed

lemma coroutine_send_all:
  assumes "sends_ok n io os cfg others c sock out m s" "length buf + m (kern s) < i"
  shows "\<exists>r s'. send_all i (coroutine_net n io (sched_event_wait os cfg others) os cfg close) sock buf s = Inr (r, s') \<and>
    sends_ok n io os cfg others c sock out m s' \<and> m (kern s') \<le> m (kern s) \<and>
    (r = 0 \<and> out (kern s') = out (kern s) @ buf \<or>
     r = -1 \<and> sched_errno s' \<noteq> EINTR \<and> (\<exists>j<length buf. out (kern s') = out (kern s) @ take j buf))"
  by (rule coroutine_sender.send_all_takes [OF _ assms]) (simp add: coroutine_net_def)

lemma thread_send_all:
  assumes "stream_kernel io sock out m" "length buf + m (kern s) < i"
  shows "\<exists>r s'. send_all i (thread_net io accept pt close) sock buf s = Inr (r, s') \<and> m (kern s') \<le> m (kern s) \<and>
    (r = 0 \<and> out (kern s') = out (kern s) @ buf \<or>
     r = -1 \<and> sched_errno s' \<noteq> EINTR \<and> (\<exists>j<length buf. out (kern s') = out (kern s) @ take j buf))"
  using thread_sender.send_all_takes [where net = "thread_net io accept pt close" and sock = sock and n = i, OF _ assms]
  by (simp add: thread_net_def) blast

text \<open>A healthy connection: \<^verbatim>\<open>send\<close> fails only for the moment and no socket error is reported.\<close>

definition healthy :: "'k io \<Rightarrow> 'k waiter \<Rightarrow> ('k thread \<Rightarrow> bool) \<Rightarrow> int \<Rightarrow> bool" where
  "healthy io wait ok sock \<longleftrightarrow>
     (\<forall>buf flags k e. fst (io_send io sock buf flags k) = Inl e \<longrightarrow> e = EINTR \<or> e = EAGAIN) \<and>
     (\<forall>s revents s'. ok s \<longrightarrow> wait sock EPOLLOUT s = Inr (revents, s') \<longrightarrow> revents AND EPOLLERR = 0)"

context event_waiter
begin

lemma healthy_send:
  assumes "healthy io wait ok sock"
  shows "blocking (io_send io sock buf flags) io wait sock EPOLLOUT s r s' \<Longrightarrow> ok s \<Longrightarrow> r = None \<Longrightarrow> sched_errno s' = EINTR"
proof (induction rule: blocking.induct)
  case (failed s s')
  obtain e where e: "fst (io_send io sock buf flags (kern s)) = Inl e" using syscall_kern(2) [OF failed(1)] by blast
  then have "sched_errno s' = e" by (rule syscall_kern(4) [OF failed(1)])
  with e assms failed(2) show ?case by (auto simp: healthy_def would_block_def)
next
  case (hangup s s1 revents s2 error s3)
  have "ok s1" by (rule ok_syscall [OF hangup(6,1)])
  with assms hangup(3,4) show ?case by (auto simp: healthy_def)
next
  case (again s s1 revents s2 r s')
  have "ok s1" by (rule ok_syscall [OF again(7,1)])
  then have "ok s2" using wait_returns [of s1 sock EPOLLOUT] again(3) by auto
  with again.IH again.prems(2) show ?case by blast
qed simp

end

lemma healthy_send_all:
  "sends_ok n io os cfg others c sock out m s \<Longrightarrow>
   healthy io (sched_event_wait os cfg others) (in_order os others c) sock \<Longrightarrow>
   send_all i (coroutine_net n io (sched_event_wait os cfg others) os cfg close) sock buf s = Inr (r, s') \<Longrightarrow> r = 0"
proof (induction i arbitrary: buf s)
  case 0
  then show ?case by (simp split: if_splits)
next
  case (Suc i)
  let ?wait = "sched_event_wait os cfg others" and ?net = "coroutine_net n io (sched_event_wait os cfg others) os cfg close"
  have net: "net_send ?net sock buf MSG_NOSIGNAL s = async_send n io ?wait sock buf MSG_NOSIGNAL s" for buf s
    by (simp add: coroutine_net_def)
  show ?case
  proof (cases "buf = []")
    case True
    with Suc.prems(3) show ?thesis by simp
  next
    case False
    from coroutine_sender.send_takes [OF Suc.prems(1) False] obtain q s1
      where s1: "async_send n io ?wait sock buf MSG_NOSIGNAL s = Inr (q, s1)" "sends_ok n io os cfg others c sock out m s1"
      by blast
    have "q \<noteq> -1 \<or> sched_errno s1 = EINTR"
    proof -
      obtain x where x: "async_retry n (io_send io sock buf MSG_NOSIGNAL) io ?wait sock EPOLLOUT s = Inr (x, s1)"
        "q = (case x of None \<Rightarrow> -1 | Some k \<Rightarrow> int k)"
        using s1(1) by (auto simp: async_send_def elim!: andthenE)
      have "in_order os others c s" using Suc.prems(1) by (simp add: sends_ok_def)
      with scheduler.healthy_send [OF Suc.prems(2) retry_sound [OF x(1)]] x(2) show ?thesis by (cases x) auto
    qed
    then have "\<exists>buf'. send_all i ?net sock buf' s1 = Inr (r, s')"
      using Suc.prems(3) False s1(1) by (auto simp: net split: if_splits)
    then show ?thesis using Suc.IH [OF s1(2) Suc.prems(2)] by blast
  qed
qed

section \<open>The URL of a request\<close>

text \<open>The parser hands the URL over in fragments and stops when the callback refuses one.\<close>

primrec feed_url :: "byte list list \<Rightarrow> web_request \<Rightarrow> (int \<times> web_request) res" where
  "feed_url [] request = Inr (0, request)"
| "feed_url (f # fs) request =
     andthen (on_url f request) (\<lambda>(r, request). if r \<noteq> 0 then Inr (r, request) else feed_url fs request)"

definition url_ok :: "web_request \<Rightarrow> bool" where
  "url_ok request \<longleftrightarrow> length (url request) = URL_SIZE \<and> url_length request \<le> URL_SIZE"

definition stored_url :: "web_request \<Rightarrow> byte list" where
  "stored_url request = take (url_length request) (url request)"

lemma on_url_stores:
  assumes "url_ok r" "length f < 2 ^ 63"
  shows "if url_length r + length f \<le> URL_SIZE
    then \<exists>r'. on_url f r = Inr (0, r') \<and> url_ok r' \<and> stored_url r' = stored_url r @ f \<and>
      url_length r' = url_length r + length f \<and> req_done r' = req_done r \<and> keep_alive r' = keep_alive r
    else on_url f r = Inr (-1, r)"
proof -
  have len: "length (url r) = URL_SIZE" "url_length r \<le> URL_SIZE" using assms(1) by (simp_all add: url_ok_def)
  then have small: "(url_length r + length f) mod size_max = url_length r + length f"
    using assms(2) by (simp add: URL_SIZE_def size_max_def)
  show ?thesis
  proof (cases "url_length r + length f \<le> URL_SIZE")
    case True
    then obtain u where u: "put_bytes (url r) (url_length r) f = Inr u" "length u = URL_SIZE"
      "take (url_length r + length f) u = stored_url r @ f"
      using put_bytes_ok [of "url_length r" f "url r"] len(1) by (auto simp: stored_url_def)
    then have "on_url f r = Inr (0, r\<lparr>url := u, url_length := url_length r + length f\<rparr>)"
      using True small by (simp add: on_url_def)
    with True u show ?thesis by (simp add: url_ok_def stored_url_def)
  next
    case False
    with small show ?thesis by (simp add: on_url_def)
  qed
qed

lemma feed_url_stores:
  "url_ok r \<Longrightarrow> \<forall>f\<in>set fs. length f < 2 ^ 63 \<Longrightarrow>
   if url_length r + length (concat fs) \<le> URL_SIZE
   then \<exists>r'. feed_url fs r = Inr (0, r') \<and> url_ok r' \<and> stored_url r' = stored_url r @ concat fs \<and>
     url_length r' = url_length r + length (concat fs) \<and> req_done r' = req_done r
   else \<exists>r' gs hs. feed_url fs r = Inr (-1, r') \<and> url_ok r' \<and> fs = gs @ hs \<and> stored_url r' = stored_url r @ concat gs \<and>
     req_done r' = req_done r"
proof (induction fs arbitrary: r)
  case (Cons f fs)
  note on = on_url_stores [OF Cons.prems(1), of f]
  show ?case
  proof (cases "url_length r + length f \<le> URL_SIZE")
    case True
    with on Cons.prems(2) obtain r1 where r1: "on_url f r = Inr (0, r1)" "url_ok r1" "stored_url r1 = stored_url r @ f"
      "url_length r1 = url_length r + length f" "req_done r1 = req_done r"
      by auto
    note ih = Cons.IH [OF r1(2)]
    show ?thesis
    proof (cases "url_length r + length (concat (f # fs)) \<le> URL_SIZE")
      case True
      with ih r1 Cons.prems(2) show ?thesis by (auto simp: add.assoc)
    next
      case False
      with ih r1(4) Cons.prems(2) obtain r' gs hs where ind: "feed_url fs r1 = Inr (-1, r')" "url_ok r'" "fs = gs @ hs"
        "stored_url r' = stored_url r1 @ concat gs" "req_done r' = req_done r1"
        by (auto simp: add.assoc)
      with False r1 show ?thesis
        by (simp only: if_False) (intro exI [of _ r'] exI [of _ "f # gs"] exI [of _ hs], simp)
    qed
  next
    case False
    with on Cons.prems show ?thesis
      by simp (intro exI [of _ r] conjI exI [of _ "[]"] exI [of _ "f # fs"], simp_all)
  qed
qed (simp add: url_ok_def)

lemma on_done_ends:
  assumes "url_ok r"
  shows "if url_length r < URL_SIZE
    then \<exists>r'. on_done lib p r = Inr (0, r') \<and> url_ok r' \<and> stored_url r' = stored_url r \<and> url r' ! url_length r' = 0 \<and>
      req_done r' \<and> keep_alive r' = hp_should_keep_alive lib p
    else on_done lib p r = Inl Out_of_bounds"
proof (cases "url_length r < URL_SIZE")
  case True
  let ?u = "take (url_length r) (url r) @ [0] @ drop (url_length r + 1) (url r)"
  have "put_bytes (url r) (url_length r) [0] = Inr ?u" using assms True by (simp add: put_bytes_def url_ok_def)
  then have "on_done lib p r = Inr (0, r\<lparr>url := ?u, req_done := True, keep_alive := hp_should_keep_alive lib p\<rparr>)"
    by (simp add: on_done_def)
  with assms True show ?thesis by (simp add: url_ok_def stored_url_def nth_append)
next
  case False
  with assms show ?thesis by (simp add: on_done_def put_bytes_beyond url_ok_def)
qed

section \<open>Replies\<close>

text \<open>The clock's calls succeed and have nothing to do with the connection; a date has at most 24 characters.\<close>

definition clock_calls_ok :: "('k, 'tm) libc \<Rightarrow> ('k \<Rightarrow> byte list) \<Rightarrow> ('k \<Rightarrow> nat) \<Rightarrow> bool" where
  "clock_calls_ok lc out m \<longleftrightarrow> (\<forall>k. out (snd (lc_time lc k)) = out k \<and> m (snd (lc_time lc k)) \<le> m k) \<and>
     (\<forall>now. \<exists>tm timestr. lc_gmtime_r lc now = Some tm \<and> lc_asctime_r lc tm = Some timestr \<and> timestr \<noteq> [] \<and>
        length timestr \<le> 25)"

definition reply_head :: "bool \<Rightarrow> bool \<Rightarrow> string \<Rightarrow> byte list" where
  "reply_head get keep date = bytes_of
     (if get then header_text keep ''200 Seek'' date ''text/html'' (length HTML)
      else header_text keep ''405 Method Not Allowed'' date ''text/plain'' 0)"

definition reply_body :: "bool \<Rightarrow> byte list" where
  "reply_body get = (if get then HTML else [])"

lemma date_string_ok:
  assumes "clock_calls_ok lc out m"
  shows "\<exists>date k'. date_string lc k = Inr (date, k') \<and> length date \<le> 24 \<and> out k' = out k \<and> m k' \<le> m k"
proof -
  obtain now k' where t: "lc_time lc k = (now, k')" by (meson surj_pair)
  obtain tm timestr where c: "lc_gmtime_r lc now = Some tm" "lc_asctime_r lc tm = Some timestr" "timestr \<noteq> []"
    "length timestr \<le> 25"
    using assms unfolding clock_calls_ok_def by blast
  have "out k' = out k" "m k' \<le> m k" using assms t by (auto simp: clock_calls_ok_def dest: spec [of _ k])
  with t c show ?thesis by (simp add: date_string_def)
qed

lemma header_fits: "length date \<le> 24 \<Longrightarrow> length (reply_head get keep date) \<le> 255"
proof -
  have "length (decimal 102) \<le> 3" "length (decimal 0) \<le> 1" using length_decimal [of 102 2] length_decimal [of 0 0] by simp_all
  then show "length date \<le> 24 \<Longrightarrow> length (reply_head get keep date) \<le> 255"
    by (simp add: reply_head_def header_text_def HEADERS_CLOSE_FORMAT_def HEADERS_KEEP_ALIVE_FORMAT_def format_zd_def
        crlf_def length_HTML)
qed

lemma sendf_whole: "length txt \<le> 255 \<Longrightarrow> sendf n net sock txt s = send_all n net sock (bytes_of txt) s"
  by (simp add: sendf_def vsnprintf_def Let_def)

lemma answer_sends:
  assumes "req_done request" "hp_parse_url lib (stored_url request) = 0"
    and "date_string lc (kernel (world_of s)) = Inr (date, k)" "length date \<le> 24"
  shows "answer n net lc lib sock request parser s =
    (let get = hp_is_get lib parser in
     andthen (send_all n net sock (reply_head get (keep_alive request) date) (s\<lparr>world_of := (world_of s)\<lparr>kernel := k\<rparr>\<rparr>)) (\<lambda>(r, s).
     if r \<noteq> 0 then Inl Exit_failure
     else andthen (send_all n net sock (reply_body get) s) (\<lambda>(r, s).
       if r \<noteq> 0 \<and> sched_errno s \<noteq> ECONNRESET \<and> sched_errno s \<noteq> EPIPE then Inl Exit_failure else Inr s)))"
proof -
  have fits: "length (reply_head g (keep_alive request) date) \<le> 255" for g by (rule header_fits [OF assms(4)])
  show ?thesis
    using assms(1-3) fits [of True] fits [of False]
    by (simp add: answer_def send_http_response_def send_http_headers_def sendf_whole reply_head_def reply_body_def
        stored_url_def Let_def andthen_assoc case_prod_beta if_distrib [of "\<lambda>m. andthen m f" for f] cong: if_cong)
      (auto simp: case_prod_beta intro!: andthen_cong)
qed

lemma sends_ok_kernel:
  "sends_ok n io os cfg others c sock out m s \<Longrightarrow> m k < n \<Longrightarrow>
   sends_ok n io os cfg others c sock out m (s\<lparr>world_of := (world_of s)\<lparr>kernel := k\<rparr>\<rparr>)"
  using in_order_irrelevant by (auto simp: sends_ok_def intro: in_order_irrelevant)

section \<open>A connection for the examples\<close>

text \<open>
  A kernel whose state is how many calls it will still interrupt and what the socket has taken, two
  bytes at a time at most; the scheduler's own calls succeed and do not touch it.
\<close>

definition calm_os :: "'k os" where
  "calm_os = \<lparr>os_malloc = \<lambda>n k. (True, k), os_clock_gettime = \<lambda>k. ((0, \<lparr>tv_sec = 1, tv_nsec = 0\<rparr>), k),
     os_epoll_create1 = \<lambda>k. ((3, 0), k), os_epoll_ctl = \<lambda>e f fd ev k. (0, k),
     os_epoll_wait = \<lambda>e n t k. (Inr [], k), os_pthread_attr_init = \<lambda>k. (0, k),
     os_pthread_attr_setstacksize = \<lambda>n k. (0, k), os_pthread_create = \<lambda>l k. (0, k),
     os_sigaction = \<lambda>k. (0, k), os_timer_create = \<lambda>t k. (0, k), os_timer_settime = \<lambda>t k. (0, k),
     os_sched_getaffinity = \<lambda>k. ((0, 2), k)\<rparr>"

definition calm_others :: "coro \<Rightarrow> nat \<Rightarrow> 'k world \<Rightarrow> 'k thread res" where
  "calm_others c = (\<lambda>th w. andthen (event_then_yield calm_os demo_config c EPOLLOUT th w)
     (\<lambda>s. Inr (s\<lparr>world_of := (world_of s)\<lparr>kernel := kernel w\<rparr>\<rparr>)))"

definition slow_io :: "(nat \<times> byte list) io" where
  "slow_io = \<lparr>io_read = \<lambda>fd len k. (Inr [], k), io_write = \<lambda>fd buffer k. (Inr (length buffer), k),
     io_accept4 = \<lambda>fd flags k. (Inr (9, []), k), io_connect = \<lambda>fd address k. (Inr (), k),
     io_send = \<lambda>fd buffer flags (i, sent).
       if i > 0 then (Inl EINTR, (i - 1, sent)) else (Inr (min 2 (length buffer)), (0, sent @ take 2 buffer)),
     io_recv = \<lambda>fd len flags k. (Inr [], k), io_getsockopt = \<lambda>fd k. (Inr 0, k)\<rparr>"

lemma calm_in_order: "in_order calm_os (calm_others 1) 1 \<lparr>thr = 0, world_of = with_kernel k (demo_timers [])\<rparr>"
proof -
  have "event_loop (demo_timers []) 10 \<noteq> Some 1" "waits (demo_timers []) 1 = None" "gsched (demo_timers []) \<noteq> None"
    by (simp_all add: demo_timers_inv(3,4)) (simp add: demo_timers_def demo_world_def)
  moreover have "\<forall>e f fd ev (k :: 'a). fst (os_epoll_ctl calm_os e f fd ev k) = 0" by (simp add: calm_os_def)
  moreover have "resumes (calm_others 1 :: nat \<Rightarrow> 'a world \<Rightarrow> 'a thread res) 1"
    unfolding calm_others_def by (rule resumes_kernel, rule event_then_yield_resumes) (simp add: EPOLLOUT_def)
  ultimately show ?thesis using demo_timers_inv(1,2) [of "[]"] by (auto simp: in_order_def with_kernel_inv)
qed

lemma calm_wait:
  assumes "in_order calm_os (calm_others c) c s" "sched_event_wait calm_os demo_config (calm_others c) fd events s = Inr (revents, s')"
  shows "kern s' = kern s" "revents = EPOLLOUT"
proof -
  from assms(1) obtain rq l g where i: "sched_inv rq (world_of s)" "running (world_of s) (thr s) l c"
    "event_loop (world_of s) l \<noteq> Some c" "gsched (world_of s) = Some g"
    by (auto simp: in_order_def)
  have "os_epoll_ctl calm_os (epoll_fd (gs_poller g)) EPOLL_CTL_ADD fd
      (Some \<lparr>ev_events = events OR EPOLLET OR EPOLLONESHOT, ev_data = c\<rparr>) (kernel (world_of s)) = (0, kernel (world_of s))"
    by (simp add: calm_os_def)
  from event_wait_ok [OF i this, of demo_config] obtain x xs w where
    w: "event_wait_begin calm_os demo_config (thr s) fd events (world_of s) = Inr w" "kernel w = kernel (world_of s)"
      "sched_inv (rq(l := xs)) w" "running w (thr s) l x" "asleep w c"
      "waits w = (waits (world_of s))(c \<mapsto> \<lparr>ew_fd = fd, ew_events = 0, ew_coro = Some c\<rparr>)"
    by blast
  then obtain w1 where w1: "event_then_yield calm_os demo_config c EPOLLOUT (thr s) w = Inr \<lparr>thr = thr s, world_of = w1\<rparr>"
    "running w1 (thr s) l c" "waits w1 c = Some \<lparr>ew_fd = fd, ew_events = EPOLLOUT, ew_coro = None\<rparr>"
    using event_then_yield_ok [OF w(3-5), of fd] by fastforce
  let ?v = "w1\<lparr>kernel := kernel w\<rparr>"
  have run: "calm_others c (thr s) w = Inr \<lparr>thr = thr s, world_of = ?v\<rparr>" using w1(1) by (simp add: calm_others_def)
  have "lsched ?v (thr s) = Some l" "sched_get_current l ?v = Inr (Some c)" "waits ?v c = Some \<lparr>ew_fd = fd, ew_events = EPOLLOUT, ew_coro = None\<rparr>"
    using w1(2,3) by (auto simp: running_def sched_get_current_def local_of_def current_def split: option.splits)
  with assms(2) w(1) run have "revents = EPOLLOUT \<and> kernel (world_of s') = kernel w"
    by (auto simp: sched_event_wait_def event_wait_end_def platform_poll_unregister_def calm_os_def deref_def elim!: andthenE)
  with w(2) show "kern s' = kern s" "revents = EPOLLOUT" by (simp_all add: kern_def)
qed

definition slow_state :: "nat \<Rightarrow> (nat \<times> byte list) thread" where
  "slow_state i = \<lparr>thr = 0, world_of = with_kernel (i, []) (demo_timers [])\<rparr>"

lemma kern_slow_state [simp]: "kern (slow_state i) = (i, [])"
  by (simp add: slow_state_def kern_def)

lemma slow_sends_ok:
  assumes "i < n"
  shows "sends_ok n slow_io calm_os demo_config (calm_others 1) 1 7 snd fst (slow_state i)"
proof -
  have "stream_kernel slow_io 7 snd fst"
    by (auto simp: stream_kernel_def slow_io_def EINTR_def EAGAIN_def min_def Suc_le_eq split: prod.splits)
  moreover have "quiet_wait (sched_event_wait calm_os demo_config (calm_others 1)) (in_order calm_os (calm_others 1) 1) 7 snd fst"
    using calm_wait(1) unfolding quiet_wait_def by fastforce
  ultimately show ?thesis using calm_in_order assms by (simp add: sends_ok_def) (simp add: slow_state_def)
qed

lemma slow_healthy:
  "healthy slow_io (sched_event_wait calm_os demo_config (calm_others 1)) (in_order calm_os (calm_others 1) 1) 7"
proof -
  have "EPOLLOUT AND EPOLLERR = 0" by (simp add: EPOLLOUT_def EPOLLERR_def)
  moreover have "revents = EPOLLOUT"
    if "in_order calm_os (calm_others 1) 1 s" "sched_event_wait calm_os demo_config (calm_others 1) 7 EPOLLOUT s = Inr (revents, s')"
    for s :: "(nat \<times> byte list) thread" and revents s'
    by (rule calm_wait(2) [OF that])
  moreover have "fst (io_send slow_io 7 buf flags k) = Inl e \<Longrightarrow> e = EINTR" for buf flags k e
    by (auto simp: slow_io_def split: if_splits prod.splits)
  ultimately show ?thesis unfolding healthy_def by metis
qed

definition toy_clock :: "('k, int) libc" where
  "toy_clock = \<lparr>lc_time = \<lambda>k. (0, k), lc_gmtime_r = Some, lc_asctime_r = \<lambda>t. Some (''Thu Jan  1 00:00:00 1970'' @ [CHR 0x0A])\<rparr>"

lemma toy_clock_ok: "clock_calls_ok toy_clock out m"
  by (simp add: clock_calls_ok_def toy_clock_def)

text \<open>A parser that takes everything and says nothing.\<close>

definition idle_parser :: "(unit, web_request) http_lib" where
  "idle_parser = \<lparr>hp_init = (), hp_execute = \<lambda>u d p bs r. Inr (length bs, p, r), hp_should_keep_alive = \<lambda>p. False,
     hp_is_get = \<lambda>p. True, hp_parse_url = \<lambda>u. 0\<rparr>"


section \<open>What the server guarantees\<close>



text \<open>
  C20: A URL that arrives in fragments of less than 2^63 bytes is assembled in order. Below 128 bytes the request holds it,
  terminated, and is done. Of a longer URL the fragments from the one that does not fit on are
  refused and the request is not done. At exactly 128 bytes every fragment is accepted and the
  terminator is written one past the array.
\<close>

theorem url_assembled:
  assumes "url_ok request" "url_length request = 0" "\<not> req_done request" "\<forall>f\<in>set fragments. length f < 2 ^ 63"
  shows "(length (concat fragments) < URL_SIZE \<longrightarrow> (\<exists>r r'. feed_url fragments request = Inr (0, r) \<and>
      on_done lib parser r = Inr (0, r') \<and> stored_url r' = concat fragments \<and> url r' ! url_length r' = 0 \<and> req_done r')) \<and>
    (length (concat fragments) = URL_SIZE \<longrightarrow> (\<exists>r. feed_url fragments request = Inr (0, r) \<and>
      on_done lib parser r = Inl Out_of_bounds)) \<and>
    (length (concat fragments) > URL_SIZE \<longrightarrow> (\<exists>r gs hs. feed_url fragments request = Inr (-1, r) \<and>
      fragments = gs @ hs \<and> stored_url r = concat gs \<and> url_ok r \<and> \<not> req_done r))"
proof -
  have "stored_url request = []" using assms(2) by (simp add: stored_url_def)
  with feed_url_stores [OF assms(1,4)] assms(2,3) have
    fits: "length (concat fragments) \<le> URL_SIZE \<Longrightarrow> \<exists>r. feed_url fragments request = Inr (0, r) \<and> url_ok r \<and>
      stored_url r = concat fragments \<and> url_length r = length (concat fragments)"
    and long: "length (concat fragments) > URL_SIZE \<Longrightarrow> \<exists>r gs hs. feed_url fragments request = Inr (-1, r) \<and> url_ok r \<and>
      fragments = gs @ hs \<and> stored_url r = concat gs \<and> \<not> req_done r"
    by (auto split: if_splits)
  have "\<exists>r r'. feed_url fragments request = Inr (0, r) \<and> on_done lib parser r = Inr (0, r') \<and>
      stored_url r' = concat fragments \<and> url r' ! url_length r' = 0 \<and> req_done r'"
    if "length (concat fragments) < URL_SIZE"
    using that fits on_done_ends by (metis less_imp_le)
  moreover have "\<exists>r. feed_url fragments request = Inr (0, r) \<and> on_done lib parser r = Inl Out_of_bounds"
    if "length (concat fragments) = URL_SIZE"
    using that fits on_done_ends by (metis less_irrefl le_refl)
  ultimately show ?thesis using long by blast
qed

definition demo_request :: web_request where
  "demo_request = \<lparr>url = replicate 128 7, url_length = 0, req_done = False, keep_alive = False\<rparr>"

theorem url_assembled_witness:
  "(\<exists>r r'. feed_url [[47], [97, 98]] demo_request = Inr (0, r) \<and>
      on_done idle_parser () r = Inr (0, r') \<and> stored_url r' = [47, 97, 98]) \<and>
   (\<exists>r. feed_url [replicate 128 47] demo_request = Inr (0, r) \<and>
      on_done idle_parser () r = Inl Out_of_bounds) \<and>
   (\<exists>r. feed_url [[47], replicate 128 47] demo_request = Inr (-1, r))"
proof -
  have r: "url_ok demo_request" "url_length demo_request = 0" "\<not> req_done demo_request"
    by (simp_all add: demo_request_def url_ok_def URL_SIZE_def)
  have f: "\<forall>f\<in>set [[47], [97, 98 :: byte]]. length f < 2 ^ 63" "length (concat [[47], [97, 98 :: byte]]) < URL_SIZE"
    "\<forall>f\<in>set [replicate 128 (47 :: byte)]. length f < 2 ^ 63" "length (concat [replicate 128 (47 :: byte)]) = URL_SIZE"
    "\<forall>f\<in>set [[47], replicate 128 (47 :: byte)]. length f < 2 ^ 63"
    "length (concat [[47], replicate 128 (47 :: byte)]) > URL_SIZE"
    by (simp_all add: URL_SIZE_def)
  have "\<exists>r r'. feed_url [[47], [97, 98]] demo_request = Inr (0, r) \<and> on_done idle_parser () r = Inr (0, r') \<and>
      stored_url r' = concat [[47], [97, 98]]"
    using url_assembled [OF r f(1), of idle_parser "()"] f(2) by blast
  moreover have "\<exists>r. feed_url [replicate 128 47] demo_request = Inr (0, r) \<and> on_done idle_parser () r = Inl Out_of_bounds"
    using url_assembled [OF r f(3), of idle_parser "()"] f(4) by blast
  moreover have "\<exists>r. feed_url [[47], replicate 128 47] demo_request = Inr (-1, r)"
    using url_assembled [OF r f(5), of idle_parser "()"] f(6) by blast
  ultimately show ?thesis by simp
qed



end
