(* ===== verification/Connections.thy ===== *)
theory Connections
  imports Webserver
begin

text \<open>
  The life of a connection and of the server of \<^verbatim>\<open>src/bench/webserver/main.c\<close>: which faults the
  handler of a connection can have, what a reset does to the process, and that the accept loop
  gives every connection a coroutine of its own.
\<close>

section \<open>Waiting calls do not fault\<close>

context event_waiter
begin

lemma retry_safe:
  "ok s \<Longrightarrow> case async_retry n call io wait fd events s of Inr (r, s') \<Rightarrow> ok s' | Inl f \<Rightarrow> f = Diverged"
proof (cases "async_retry n call io wait fd events s")
  case (Inr x)
  assume "ok s"
  then show ?thesis using blocking_ok [OF retry_sound] Inr by (cases x) auto
next
  case (Inl f)
  have "ok s \<Longrightarrow> async_retry n call io wait fd events s = Inl f \<Longrightarrow> f = Diverged"
  proof (induction n arbitrary: s)
    case (Suc n)
    obtain x s1 where sc: "syscall call s = (x, s1)" by (meson surj_pair)
    obtain b s2 where b: "wait_return_socket_error io wait fd events s1 = Inr (b, s2)" "ok s2"
      using macro_returns [OF ok_syscall [OF Suc.prems(1) sc]] by blast
    from Suc.prems(2) sc b(1) have "async_retry n call io wait fd events s2 = Inl f"
      by (auto simp: retry_step simp del: async_retry.simps(2) split: option.splits if_splits)
    with Suc.IH b(2) show ?case by blast
  qed simp
  moreover assume "ok s"
  ultimately show ?thesis using Inl by simp
qed

end

text \<open>The faults a connection may have: leaving the process, and the one write out of bounds.\<close>

definition safe :: "('a \<Rightarrow> bool) \<Rightarrow> 'a res \<Rightarrow> bool" where
  "safe P r = (case r of Inr x \<Rightarrow> P x | Inl f \<Rightarrow> f \<in> {Exit_failure, Out_of_bounds, Diverged})"

lemma safe_simps [simp]:
  "safe P (Inr x) = P x" "safe P (Inl f) \<longleftrightarrow> f \<in> {Exit_failure, Out_of_bounds, Diverged}"
  by (simp_all add: safe_def)

lemma safe_andthen: "safe P m \<Longrightarrow> (\<And>x. P x \<Longrightarrow> safe Q (f x)) \<Longrightarrow> safe Q (andthen m f)"
  by (cases m) simp_all

section \<open>The parser's side\<close>

text \<open>
  What the library promises: it changes the request only by calling the callbacks that were set,
  with pieces of the input, and a fault can only come from them.
\<close>

inductive callbacks :: "('p, web_request) http_lib \<Rightarrow> web_request \<Rightarrow> web_request res \<Rightarrow> bool" for lib r where
  none: "callbacks lib r (Inr r)"
| url: "callbacks lib r (Inr r1) \<Longrightarrow> length f < 2 ^ 63 \<Longrightarrow> on_url f r1 = Inr (e, r2) \<Longrightarrow> callbacks lib r (Inr r2)"
| url_fault: "callbacks lib r (Inr r1) \<Longrightarrow> length f < 2 ^ 63 \<Longrightarrow> on_url f r1 = Inl x \<Longrightarrow> callbacks lib r (Inl x)"
| complete: "callbacks lib r (Inr r1) \<Longrightarrow> on_done lib p r1 = Inr (e, r2) \<Longrightarrow> callbacks lib r (Inr r2)"
| complete_fault: "callbacks lib r (Inr r1) \<Longrightarrow> on_done lib p r1 = Inl x \<Longrightarrow> callbacks lib r (Inl x)"

definition parser_ok :: "('p, web_request) http_lib \<Rightarrow> bool" where
  "parser_ok lib \<longleftrightarrow> (\<forall>p bs r. case hp_execute lib on_url (on_done lib) p bs r of
     Inr (n, p', r') \<Rightarrow> callbacks lib r (Inr r') \<and> (req_done r' \<longrightarrow> hp_parse_url lib (stored_url r') = 0)
   | Inl f \<Rightarrow> callbacks lib r (Inl f))"

lemma callbacks_url_ok:
  "callbacks lib r x \<Longrightarrow> url_ok r \<Longrightarrow> case x of Inr r' \<Rightarrow> url_ok r' | Inl f \<Rightarrow> f = Out_of_bounds"
proof (induction rule: callbacks.induct)
  case (url r1 f e r2)
  then show ?case using on_url_stores [of r1 f] by (auto split: if_splits)
next
  case (url_fault r1 f x)
  then show ?case using on_url_stores [of r1 f] by (auto split: if_splits)
next
  case (complete r1 p e r2)
  then show ?case using on_done_ends [of r1 lib p] by (auto split: if_splits)
next
  case (complete_fault r1 p x)
  then show ?case using on_done_ends [of r1 lib p] by (auto split: if_splits)
qed simp

lemma execute_safe:
  assumes "parser_ok lib" "url_ok r"
  shows "safe (\<lambda>(n, p', r'). url_ok r' \<and> (req_done r' \<longrightarrow> hp_parse_url lib (stored_url r') = 0))
    (hp_execute lib on_url (on_done lib) p bs r)"
proof (cases "hp_execute lib on_url (on_done lib) p bs r")
  case (Inl f)
  then have "callbacks lib r (Inl f)" using assms(1) [unfolded parser_ok_def, THEN spec [of _ p], THEN spec [of _ bs], THEN spec [of _ r]] by simp
  with callbacks_url_ok [OF this assms(2)] Inl show ?thesis by simp
next
  case (Inr x)
  obtain n p' r' where x: "x = (n, p', r')" by (cases x) auto
  then have "callbacks lib r (Inr r')" "req_done r' \<longrightarrow> hp_parse_url lib (stored_url r') = 0"
    using assms(1) [unfolded parser_ok_def, THEN spec [of _ p], THEN spec [of _ bs], THEN spec [of _ r]] Inr by simp_all
  with callbacks_url_ok [OF this(1) assms(2)] Inr x show ?thesis by simp
qed

section \<open>The handler\<close>

text \<open>Sockets of a build whose calls keep an invariant of the thread and fault only by not ending.\<close>

locale safe_net =
  fixes net :: "'k net" and ok :: "'k thread \<Rightarrow> bool"
  assumes send_safe: "ok s \<Longrightarrow> safe (\<lambda>(_, s'). ok s') (net_send net sock buf flags s)"
    and recv_safe: "ok s \<Longrightarrow> safe (\<lambda>(_, s'). ok s') (net_recv net sock len flags s)"
    and close_ok: "ok s \<Longrightarrow> ok (snd (net_close net sock s))"
    and kernel_ok: "ok s \<Longrightarrow> ok (s\<lparr>world_of := (world_of s)\<lparr>kernel := k\<rparr>\<rparr>)"
begin

lemma send_all_safe: "ok s \<Longrightarrow> safe (\<lambda>(_, s'). ok s') (send_all n net sock buf s)"
proof (induction n arbitrary: buf s)
  case (Suc n)
  then show ?case by (auto intro!: safe_andthen [OF send_safe])
qed simp

lemma answer_safe:
  assumes "ok s" "clock_calls_ok lc (\<lambda>_. []) (\<lambda>_. 0)" "req_done request" "hp_parse_url lib (stored_url request) = 0"
  shows "safe ok (answer n net lc lib sock request parser s)"
proof -
  obtain date k where d: "date_string lc (kernel (world_of s)) = Inr (date, k)" "length date \<le> 24"
    using date_string_ok [OF assms(2)] by blast
  show ?thesis unfolding answer_sends [OF assms(3,4) d] Let_def
    by (auto intro!: safe_andthen [OF send_all_safe] kernel_ok assms(1))
qed

lemma read_and_parse_safe:
  assumes "parser_ok lib"
  shows "ok s \<Longrightarrow> url_ok request \<Longrightarrow>
    safe (\<lambda>(result, r', p', s'). ok s' \<and> url_ok r' \<and> (result = -1 \<or> result = 0 \<or> req_done r') \<and>
      (result \<noteq> -1 \<longrightarrow> req_done r' \<longrightarrow> hp_parse_url lib (stored_url r') = 0))
      (read_and_parse n net lib sock request parser s)"
proof (induction n arbitrary: request parser s)
  case (Suc n)
  have "safe (\<lambda>(result, r', p', s'). ok s' \<and> url_ok r' \<and> (result = -1 \<or> result = 0 \<or> req_done r') \<and>
      (result \<noteq> -1 \<longrightarrow> req_done r' \<longrightarrow> hp_parse_url lib (stored_url r') = 0))
      (andthen (hp_execute lib on_url (on_done lib) parser buf request) (\<lambda>(parsed, parser, request).
       if int parsed \<noteq> num_read then Inr (-1, request, parser, s1)
       else if parsed = 0 \<or> req_done request then Inr (int parsed, request, parser, s1)
       else read_and_parse n net lib sock request parser s1))" if "ok s1" for buf num_read s1
    using that Suc.IH by (auto intro!: safe_andthen [OF execute_safe [OF assms Suc.prems(2)]])
  with Suc.prems show ?case by (auto intro!: safe_andthen [OF recv_safe [OF Suc.prems(1)]])
qed simp

lemma handler_loop_safe:
  assumes "parser_ok lib" "clock_calls_ok lc (\<lambda>_. []) (\<lambda>_. 0)"
  shows "ok s \<Longrightarrow> length (url request) = URL_SIZE \<Longrightarrow> safe ok (handler_loop i n net lc lib sock request parser s)"
proof (induction i arbitrary: request parser s)
  case (Suc i)
  have "url_ok (reset_request request)" using Suc.prems(2) by (simp add: url_ok_def reset_request_def)
  note read = read_and_parse_safe [OF assms(1) Suc.prems(1) this, of n sock parser]
  show ?case
    using Suc.prems Suc.IH
    by (auto intro!: safe_andthen [OF read] safe_andthen [OF answer_safe] assms(2) simp: url_ok_def)
qed simp

lemma handler_safe:
  assumes "ok s" "parser_ok lib" "clock_calls_ok lc (\<lambda>_. []) (\<lambda>_. 0)" "length (url mem) = URL_SIZE"
  shows "safe ok (server_handler_coro i n net lc lib (Some mem) sock s)"
  using close_ok assms
  by (auto simp: server_handler_coro_def case_prod_beta Let_def intro!: safe_andthen [OF handler_loop_safe])

end

interpretation coroutine_conn: safe_net "coroutine_net n io (sched_event_wait os cfg others) os cfg close" "in_order os others c"
proof
  fix s sock flags len k and buf :: "byte list"
  assume ok: "in_order os others c s"
  let ?wait = "sched_event_wait os cfg others"
  show "safe (\<lambda>(_, s'). in_order os others c s') (net_send (coroutine_net n io ?wait os cfg close) sock buf flags s)"
    using scheduler.retry_safe [where cfg = cfg and n = n and call = "io_send io sock buf flags" and io = io and fd = sock and events = EPOLLOUT, OF ok]
    by (auto simp: coroutine_net_def async_send_def safe_def andthen_def split: sum.splits)
  show "safe (\<lambda>(_, s'). in_order os others c s') (net_recv (coroutine_net n io ?wait os cfg close) sock len flags s)"
    using scheduler.retry_safe [where cfg = cfg and n = n and call = "io_recv io sock len flags" and io = io and fd = sock and events = EPOLLIN, OF ok]
    by (auto simp: coroutine_net_def async_recv_def safe_def andthen_def split: sum.splits)
  obtain r s' where r: "syscall (close sock) s = (r, s')" by (meson surj_pair)
  with scheduler.ok_syscall [OF ok r] show "in_order os others c (snd (net_close (coroutine_net n io ?wait os cfg close) sock s))"
    by (simp add: coroutine_net_def plain_close_def)
  show "in_order os others c (s\<lparr>world_of := (world_of s)\<lparr>kernel := k\<rparr>\<rparr>)" by (rule scheduler.ok_kernel [OF ok])
qed

interpretation thread_conn: safe_net "thread_net io accept pt close" "\<lambda>_. True"
  by unfold_locales (simp_all add: thread_net_def plain_send_def plain_recv_def case_prod_beta Let_def)

text \<open>The handler of the thread build has no other faults than that of the coroutine build.\<close>

lemma thread_handler_safe:
  assumes "parser_ok lib" "clock_calls_ok lc (\<lambda>_. []) (\<lambda>_. 0)" "length (url mem) = URL_SIZE"
  shows "safe (\<lambda>_. True) (server_handler_coro i n (thread_net io accept pt close) lc lib (Some mem) sock s)"
  by (rule thread_conn.handler_safe [OF TrueI assms])

section \<open>Accepting\<close>

text \<open>
  The table of local schedulers is in order, and the rest of the program keeps it so while the
  accepting coroutine waits.
\<close>

definition slots_ok :: "'k world \<Rightarrow> bool" where
  "slots_ok w \<longleftrightarrow> (\<exists>g. gsched w = Some g \<and> local_size g < 2 ^ 32 \<and> length (local_schedulers g) = local_size g)"

definition accepting :: "'k os \<Rightarrow> (nat \<Rightarrow> 'k world \<Rightarrow> 'k thread res) \<Rightarrow> coro \<Rightarrow> 'k thread \<Rightarrow> bool" where
  "accepting os others c s \<longleftrightarrow> in_order os others c s \<and> slots_ok (world_of s) \<and>
     (\<forall>rq w th l x fd s'. sched_inv rq w \<longrightarrow> running w th l x \<longrightarrow> asleep w c \<longrightarrow>
        waits w c = Some \<lparr>ew_fd = fd, ew_events = 0, ew_coro = Some c\<rparr> \<longrightarrow> slots_ok w \<longrightarrow> others th w = Inr s' \<longrightarrow>
        slots_ok (world_of s'))"

lemma event_wait_slots:
  assumes "accepting os others c s" "sched_event_wait os cfg others fd events s = Inr (revents, s')"
  shows "slots_ok (world_of s')"
proof -
  from assms(1) obtain rq l g where i: "sched_inv rq (world_of s)" "running (world_of s) (thr s) l c"
    "event_loop (world_of s) l \<noteq> Some c" "gsched (world_of s) = Some g"
    by (auto simp: accepting_def in_order_def)
  let ?ev = "Some \<lparr>ev_events = events OR EPOLLET OR EPOLLONESHOT, ev_data = c\<rparr>"
  let ?ctl = "os_epoll_ctl os (epoll_fd (gs_poller g)) EPOLL_CTL_ADD fd ?ev (kernel (world_of s))"
  have "?ctl = (0, snd ?ctl)" using assms(1) by (intro prod_eqI) (simp_all add: accepting_def in_order_def)
  from event_wait_ok [OF i this, of cfg] obtain x xs w where
    w: "event_wait_begin os cfg (thr s) fd events (world_of s) = Inr w" "gsched w = gsched (world_of s)"
    "sched_inv (rq(l := xs)) w" "running w (thr s) l x" "asleep w c"
    "waits w = (waits (world_of s))(c \<mapsto> \<lparr>ew_fd = fd, ew_events = 0, ew_coro = Some c\<rparr>)"
    by blast
  with assms(2) obtain v r w' where v: "others (thr s) w = Inr v"
    "event_wait_end os (thr v) (world_of v) = Inr (r, w')" "s' = v\<lparr>world_of := w'\<rparr>"
    by (auto simp: sched_event_wait_def elim!: andthenE)
  have "slots_ok w" using assms(1) w(2) by (simp add: accepting_def slots_ok_def)
  moreover have "waits w c = Some \<lparr>ew_fd = fd, ew_events = 0, ew_coro = Some c\<rparr>" using w(6) by simp
  ultimately have "slots_ok (world_of v)" using assms(1) v(1) w(3-5) unfolding accepting_def by blast
  moreover have "gsched w' = gsched (world_of v)"
    using v(2) by (auto simp: event_wait_end_def case_prod_beta Let_def elim!: andthenE)
  ultimately show ?thesis using v(3) by (simp add: slots_ok_def)
qed

interpretation acceptor: event_waiter "sched_event_wait os cfg others" "accepting os others c"
proof
  show "accepting os others c s \<Longrightarrow> accepting os others c (s\<lparr>world_of := (world_of s)\<lparr>kernel := k\<rparr>\<rparr>)" for s k
    using scheduler.ok_kernel by (auto simp: accepting_def slots_ok_def)
  show "accepting os others c s \<Longrightarrow> accepting os others c (s\<lparr>world_of := (world_of s)\<lparr>errno := e\<rparr>\<rparr>)" for s e
    using scheduler.ok_errno by (auto simp: accepting_def slots_ok_def)
  show "\<exists>revents s'. sched_event_wait os cfg others fd events s = Inr (revents, s') \<and>
      accepting os others c s' \<and> revents \<noteq> 0" if ok: "accepting os others c s" for s fd events
  proof -
    from ok have "in_order os others c s" by (simp add: accepting_def)
    then obtain revents s' where s': "sched_event_wait os cfg others fd events s = Inr (revents, s')" "in_order os others c s'"
      "revents \<noteq> 0"
      using event_wait_returns by blast
    with event_wait_slots [OF ok s'(1)] ok show ?thesis by (auto simp: accepting_def)
  qed
qed

text \<open>A new coroutine for a connection leaves the accepting one in order.\<close>

lemma connection_spawn_ok:
  assumes "os_ok os" "accepting os others c s"
  shows "\<exists>s' d. coroutine_spawn os cfg new_sock s = Inr s' \<and> accepting os others c s' \<and> d \<notin> dom (coros (world_of s)) \<and>
    state_of (world_of s') d = Some STATE_RUNNABLE"
proof -
  let ?w = "world_of s" and ?th = "thr s"
  obtain rq l g where i: "sched_inv rq ?w" "running ?w ?th l c" "event_loop ?w l \<noteq> Some c" "gsched ?w = Some g"
    "local_size g < 2 ^ 32" "length (local_schedulers g) = local_size g" "waits ?w c = None"
    using assms(2) by (auto simp: accepting_def in_order_def slots_ok_def)
  from i(2) obtain ls where l: "locals ?w l = Some ls" "lsched ?w ?th = Some l" by (rule running_local)
  have fresh: "brk ?w \<notin> dom (coros ?w)" using fresh_not_in_use(1) [OF i(1)] by blast
  have run: "coroutine_spawn os cfg new_sock s = Inr (s\<lparr>world_of := w'\<rparr>) \<and> accepting os others c (s\<lparr>world_of := w'\<rparr>)"
    if "sched_new_coroutine os cfg ?th handler_fn (nat new_sock) ?w = Inr (brk ?w, w')" "sched_inv rq' w'"
      "locals w' l = locals ?w l" "lsched w' = lsched ?w" "slots_ok w'" "waits w' = waits ?w" for w' rq'
  proof -
    have "running w' ?th l c" "event_loop w' l \<noteq> Some c"
      using i(2,3) that(3,4) by (simp_all add: running_def current_def event_loop_def)
    with that assms(2) i(7) show ?thesis
      by (auto simp: coroutine_spawn_def accepting_def in_order_def slots_ok_def)
  qed
  show ?thesis
  proof (cases "local_count g < local_size g")
    case True
    obtain w' l' where w': "sched_new_coroutine os cfg ?th handler_fn (nat new_sock) ?w = Inr (brk ?w, w')"
      "sched_inv (rq(l' := [brk ?w])) w'" "state_of w' (brk ?w) = Some STATE_RUNNABLE"
      "\<forall>k\<in>dom (locals ?w). locals w' k = locals ?w k" "lsched w' = lsched ?w" "waits w' = waits ?w"
      "gsched w' = Some (g\<lparr>local_count := local_count g + 1, local_schedulers := (local_schedulers g)[local_count g := Some l']\<rparr>)"
      using new_coroutine_slow [OF assms(1) i(1,2,4) True i(5,6)] by blast
    have "slots_ok w'" using w'(7) i(5,6) by (simp add: slots_ok_def)
    moreover have "locals w' l = locals ?w l" using w'(4) l(1) by blast
    ultimately show ?thesis using run [OF w'(1,2) _ w'(5) _ w'(6)] w'(3) fresh by fastforce
  next
    case False
    then obtain w' where w': "sched_new_coroutine os cfg ?th handler_fn (nat new_sock) ?w = Inr (brk ?w, w')"
      "sched_inv (rq(l := rq l @ [brk ?w])) w'" "state_of w' (brk ?w) = Some STATE_RUNNABLE"
      "locals w' = locals ?w" "lsched w' = lsched ?w" "gsched w' = gsched ?w" "waits w' = waits ?w"
      using new_coroutine_fast [OF assms(1) i(1,2,4)] by (metis not_less)
    have "slots_ok w'" using w'(6) i(4-6) by (simp add: slots_ok_def)
    then show ?thesis using run [OF w'(1,2) _ w'(5) _ w'(7)] w'(3,4) fresh by fastforce
  qed
qed

text \<open>
  The listening socket as its documentation has it when no resource is short: \<^verbatim>\<open>accept4\<close> returns a
  descriptor or would block, no socket error is reported, and waiting for it is not for ever.
\<close>

definition listening :: "'k io \<Rightarrow> 'k waiter \<Rightarrow> ('k thread \<Rightarrow> bool) \<Rightarrow> int \<Rightarrow> ('k \<Rightarrow> nat) \<Rightarrow> nat \<Rightarrow> bool" where
  "listening io wait ok sock m n \<longleftrightarrow>
     (\<forall>k. m k < n) \<and>
     (\<forall>flags k. case fst (io_accept4 io sock flags k) of Inr (fd, _) \<Rightarrow> 0 \<le> fd | Inl e \<Rightarrow> e = EAGAIN) \<and>
     (\<forall>s flags s1 revents s2. ok s \<longrightarrow> syscall (io_accept4 io sock flags) s = (None, s1) \<longrightarrow>
        wait sock EPOLLIN s1 = Inr (revents, s2) \<longrightarrow> revents AND EPOLLERR = 0 \<and> m (kern s2) < m (kern s))"

lemma listening_wait:
  assumes "listening io wait ok sock m n" "ok s" "syscall (io_accept4 io sock flags) s = (None, s1)"
    "wait sock EPOLLIN s1 = Inr (revents, s2)"
  shows "revents AND EPOLLERR = 0" "m (kern s2) < m (kern s)"
  using assms(1) [unfolded listening_def, THEN conjunct2, THEN conjunct2] assms(2-4) by blast+

context event_waiter
begin

lemma accepts:
  assumes "listening io wait ok sock m n"
  shows "blocking (io_accept4 io sock flags) io wait sock EPOLLIN s r s' \<Longrightarrow> ok s \<Longrightarrow> \<exists>fd a. r = Some (fd, a) \<and> 0 \<le> fd"
proof (induction rule: blocking.induct)
  case (complete s x s')
  have "fst (io_accept4 io sock flags (kern s)) = Inr x" using syscall_kern(3) [OF complete(1), of x] by simp
  moreover have "case fst (io_accept4 io sock flags (kern s)) of Inr (fd, _) \<Rightarrow> 0 \<le> fd | Inl e \<Rightarrow> e = EAGAIN"
    using assms by (simp add: listening_def)
  ultimately show ?case by (cases x) auto
next
  case (failed s s')
  obtain e where e: "fst (io_accept4 io sock flags (kern s)) = Inl e" using syscall_kern(2) [OF failed(1)] by blast
  have "case fst (io_accept4 io sock flags (kern s)) of Inr (fd, _) \<Rightarrow> 0 \<le> fd | Inl e \<Rightarrow> e = EAGAIN"
    using assms by (simp add: listening_def)
  with e syscall_kern(4) [OF failed(1) e] failed(2) show ?case by (simp add: would_block_def)
next
  case (hangup s s1 revents s2 error s3)
  with listening_wait(1) [where wait = wait, OF assms hangup(6,1,3)] show ?case by simp
next
  case (again s s1 revents s2 r s')
  have "ok s1" by (rule ok_syscall [OF again(7,1)])
  then have "ok s2" using wait_returns [of s1 sock EPOLLIN] again(3) by auto
  with again.IH show ?case by blast
qed

lemma accept_returns:
  assumes "listening io wait ok sock m n" "ok s"
  shows "\<exists>fd a s'. async_accept n io wait sock s = Inr ((fd, a), s') \<and> 0 \<le> fd \<and> ok s'"
proof -
  let ?call = "io_accept4 io sock (SOCK_NONBLOCK OR SOCK_CLOEXEC)"
  have "m (kernel (world_of s)) < n" using assms(1) by (simp add: listening_def)
  moreover have "m (kernel (world_of s2)) < m (kernel (world_of s))"
    if "ok s" "syscall ?call s = (None, s1)" "wait sock EPOLLIN s1 = Inr (revents, s2)" for s s1 revents s2
    using listening_wait(2) [where wait = wait, OF assms(1) that] by (simp add: kern_def)
  ultimately obtain r s' where r: "async_retry n ?call io wait sock EPOLLIN s = Inr (r, s')" "ok s'"
    using retry_returns [where m = m and call = ?call and fd = sock and events = EPOLLIN and n = n, OF _ assms(2)] by blast
  with accepts [OF assms(1) retry_sound [OF r(1)] assms(2)] show ?thesis by (auto simp: async_accept_def)
qed

end

section \<open>What connections get\<close>


text \<open>A parser that takes what it is given, a hundred bytes at most, for the URL of a complete request.\<close>

definition toy_parser :: "(nat, web_request) http_lib" where
  "toy_parser = \<lparr>hp_init = 0, hp_execute = \<lambda>uf df p bs r.
       andthen (uf (take 100 bs) r) (\<lambda>(e, r). if e \<noteq> 0 then Inr (0, p, r)
         else andthen (df p r) (\<lambda>(_, r). Inr (length bs, p, r))),
     hp_should_keep_alive = \<lambda>p. False, hp_is_get = \<lambda>p. True, hp_parse_url = \<lambda>u. 0\<rparr>"

lemma toy_parser_simps:
  "hp_execute toy_parser uf df p bs r =
     andthen (uf (take 100 bs) r) (\<lambda>(e, r). if e \<noteq> 0 then Inr (0, p, r)
       else andthen (df p r) (\<lambda>(_, r). Inr (length bs, p, r)))"
  "hp_parse_url toy_parser u = 0"
  by (simp_all add: toy_parser_def)

lemma toy_parser_ok: "parser_ok toy_parser"
  unfolding parser_ok_def
proof (intro allI)
  fix p r and bs :: "byte list"
  have small: "length (take 100 bs) < 2 ^ 63" by simp
  show "case hp_execute toy_parser on_url (on_done toy_parser) p bs r of
      Inr (n, p', r') \<Rightarrow> callbacks toy_parser r (Inr r') \<and> (req_done r' \<longrightarrow> hp_parse_url toy_parser (stored_url r') = 0)
    | Inl f \<Rightarrow> callbacks toy_parser r (Inl f)"
  proof (cases "on_url (take 100 bs) r")
    case (Inl f)
    then show ?thesis using callbacks.url_fault [OF callbacks.none small Inl] by (simp add: toy_parser_simps)
  next
    case (Inr x)
    obtain e r1 where x: "x = (e, r1)" by (cases x)
    note c1 = callbacks.url [where lib = toy_parser, OF callbacks.none small Inr [unfolded x]]
    show ?thesis
      using Inr x c1 callbacks.complete [OF c1, of p] callbacks.complete_fault [OF c1, of p]
      by (cases "on_done toy_parser p r1") (auto simp: toy_parser_simps)
  qed
qed


text \<open>
  A run of the accept loop: every connection, with its socket, gets a coroutine that did not exist and is
  RUNNABLE.
\<close>

inductive served ::
  "'k os \<Rightarrow> config \<Rightarrow> nat \<Rightarrow> 'k io \<Rightarrow> 'k waiter \<Rightarrow> int \<Rightarrow> 'k thread \<Rightarrow> (int \<times> coro) list \<Rightarrow> 'k thread \<Rightarrow> bool"
  for os cfg n io wait sock where
  none: "served os cfg n io wait sock s [] s"
| connection: "async_accept n io wait sock s = Inr ((fd, a), s1) \<Longrightarrow> 0 \<le> fd \<Longrightarrow> coroutine_spawn os cfg fd s1 = Inr s2 \<Longrightarrow>
    d \<notin> dom (coros (world_of s1)) \<Longrightarrow> state_of (world_of s2) d = Some STATE_RUNNABLE \<Longrightarrow>
    served os cfg n io wait sock s2 ds s' \<Longrightarrow> served os cfg n io wait sock s ((fd, d) # ds) s'"

lemma accept_loop_serves:
  assumes "os_ok os" "accepting os others c s"
    and "listening io (sched_event_wait os cfg others) (accepting os others c) sock m n"
  shows "\<exists>s' ds. accept_loop i (coroutine_net n io (sched_event_wait os cfg others) os cfg close) sock s = Inr s' \<and>
    accepting os others c s' \<and> length ds = i \<and> served os cfg n io (sched_event_wait os cfg others) sock s ds s'"
  using assms(2)
proof (induction i arbitrary: s)
  case (Suc i)
  let ?net = "coroutine_net n io (sched_event_wait os cfg others) os cfg close"
  obtain fd a s1 where s1: "async_accept n io (sched_event_wait os cfg others) sock s = Inr ((fd, a), s1)" "0 \<le> fd"
    "accepting os others c s1"
    using acceptor.accept_returns [OF assms(3) Suc.prems] by blast
  obtain s2 d where s2: "coroutine_spawn os cfg fd s1 = Inr s2" "accepting os others c s2"
    "d \<notin> dom (coros (world_of s1))" "state_of (world_of s2) d = Some STATE_RUNNABLE"
    using connection_spawn_ok [OF assms(1) s1(3)] by blast
  have "accept_loop (Suc i) ?net sock s = accept_loop i ?net sock s2"
    using s1(1,2) s2(1) by (simp add: coroutine_net_def coroutine_accept_def)
  moreover obtain s' ds where "accept_loop i ?net sock s2 = Inr s'" "accepting os others c s'" "length ds = i"
      "served os cfg n io (sched_event_wait os cfg others) sock s2 ds s'"
    using Suc.IH [OF s2(2)] by blast
  moreover from served.connection [OF s1(1,2) s2(1,3,4) this(4)]
  have "served os cfg n io (sched_event_wait os cfg others) sock s ((fd, d) # ds) s'" .
  ultimately show ?case by (intro exI [of _ s'] exI [of _ "(fd, d) # ds"]) simp
qed (auto intro: served.none)

text \<open>The calls that open the listening socket succeed.\<close>

definition sockets_ok :: "'k sockets \<Rightarrow> int \<Rightarrow> bool" where
  "sockets_ok sk sock \<longleftrightarrow> (\<forall>k. fst (sk_socket sk True k) = Inr sock \<and> fst (sk_setsockopt_reuse sk sock k) = Inr () \<and>
     fst (sk_bind sk sock PORT k) = Inr () \<and> fst (sk_listen sk sock BACKLOG k) = Inr ())"

lemma or_exit_ok:
  assumes "accepting os others c s" "fst (call (kern s)) = Inr x"
  shows "\<exists>s'. or_exit call s = Inr (x, s') \<and> accepting os others c s'"
proof -
  obtain r s' where r: "syscall call s = (r, s')" by (meson surj_pair)
  then have "r = Some x" using syscall_kern(3) [OF r, of x] assms(2) by simp
  with r acceptor.ok_syscall [OF assms(1) r] show ?thesis by (simp add: or_exit_def)
qed

lemma open_server_ok:
  assumes "accepting os others c s" "sockets_ok sk sock"
  shows "\<exists>s'. open_server sk True s = Inr (sock, s') \<and> accepting os others c s'"
proof -
  note ok = assms(2) [unfolded sockets_ok_def, rule_format]
  obtain s1 where 1: "or_exit (sk_socket sk True) s = Inr (sock, s1)" "accepting os others c s1"
    using or_exit_ok [where call = "sk_socket sk True" and x = sock, OF assms(1)] ok by blast
  obtain s2 where 2: "or_exit (sk_setsockopt_reuse sk sock) s1 = Inr ((), s2)" "accepting os others c s2"
    using or_exit_ok [where call = "sk_setsockopt_reuse sk sock" and x = "()", OF 1(2)] ok by blast
  obtain s3 where 3: "or_exit (sk_bind sk sock PORT) s2 = Inr ((), s3)" "accepting os others c s3"
    using or_exit_ok [where call = "sk_bind sk sock PORT" and x = "()", OF 2(2)] ok by blast
  obtain s4 where 4: "or_exit (sk_listen sk sock BACKLOG) s3 = Inr ((), s4)" "accepting os others c s4"
    using or_exit_ok [where call = "sk_listen sk sock BACKLOG" and x = "()", OF 3(2)] ok by blast
  from 1 2 3 4 show ?thesis by (simp add: open_server_def)
qed


text \<open>A listening socket that would block every other time.\<close>

definition busy_io :: "(nat \<times> byte list) io" where
  "busy_io = slow_io\<lparr>io_accept4 := \<lambda>fd flags (i, sent). if i > 0 then (Inl EAGAIN, (0, sent)) else (Inr (9, []), (1, sent))\<rparr>"

lemma calm_accepting: "accepting calm_os (calm_others 1) 1 (slow_state i)"
proof -
  have "in_order calm_os (calm_others 1) 1 (slow_state i)" using calm_in_order by (simp add: slow_state_def)
  moreover have "slots_ok (world_of (slow_state i))"
    using demo_timers_inv(4) [of "[]"] by (simp add: slots_ok_def slow_state_def demo_global_def)
  moreover have "slots_ok (world_of s')"
    if "sched_inv rq w" "running w th l x" "asleep w 1" "waits w 1 = Some \<lparr>ew_fd = fd, ew_events = 0, ew_coro = Some 1\<rparr>"
      "slots_ok w" "calm_others 1 th w = Inr s'" for rq th l x fd s' and w :: "(nat \<times> byte list) world"
    using event_then_yield_ok [OF that(1-4), of calm_os demo_config EPOLLOUT] that(5,6)
    by (auto simp: calm_others_def slots_ok_def)
  ultimately show ?thesis unfolding accepting_def by blast
qed

lemma busy_listening:
  "listening busy_io (sched_event_wait calm_os demo_config (calm_others 1)) (accepting calm_os (calm_others 1) 1) 7
     (\<lambda>(i, _). if i > 0 then 1 else 0) 2"
proof -
  have err: "EPOLLOUT AND EPOLLERR = 0" by (simp add: EPOLLOUT_def EPOLLERR_def)
  have "revents AND EPOLLERR = 0 \<and> (case kern s2 of (i, _) \<Rightarrow> if i > 0 then 1 else 0) < (case kern s of (i, _) \<Rightarrow> if i > 0 then 1 else (0 :: nat))"
    if "accepting calm_os (calm_others 1) 1 s" "syscall (io_accept4 busy_io 7 flags) s = (None, s1)"
      "sched_event_wait calm_os demo_config (calm_others 1) 7 EPOLLIN s1 = Inr (revents, s2)" for s flags s1 revents s2
  proof -
    have "in_order calm_os (calm_others 1) 1 s1"
      using acceptor.ok_syscall [OF that(1,2)] by (simp add: accepting_def)
    from calm_wait [OF this that(3)] have "kern s2 = kern s1" "revents = EPOLLOUT" .
    moreover have "fst (kern s1) = 0" "fst (kern s) > 0"
      using syscall_kern(1,2) [OF that(2)] by (auto simp: busy_io_def split: prod.splits if_splits)
    ultimately show ?thesis using err by (simp add: case_prod_beta)
  qed
  then show ?thesis unfolding listening_def
    by (auto simp: busy_io_def split: prod.splits)
qed

definition open_sockets :: "'k sockets" where
  "open_sockets = \<lparr>sk_socket = \<lambda>nb k. (Inr 7, k), sk_setsockopt_reuse = \<lambda>fd k. (Inr (), k), sk_bind = \<lambda>fd port k. (Inr (), k),
     sk_listen = \<lambda>fd n k. (Inr (), k)\<rparr>"


text \<open>
  C31: A client that resets its connection. Before a request is read, that ends the handler's loop; while the
  head of a reply is sent, it ends the process.
\<close>

theorem reset_ends_process:
  assumes "date_string lc (kernel (world_of s)) = Inr (date, k)" "length date \<le> 24"
    and "req_done request" "hp_parse_url lib (stored_url request) = 0"
    and "net_send net sock (reply_head (hp_is_get lib parser) (keep_alive request) date) MSG_NOSIGNAL
      (s\<lparr>world_of := (world_of s)\<lparr>kernel := k\<rparr>\<rparr>) = Inr (-1, s1)" "sched_errno s1 = ECONNRESET"
    and "net_recv net sock 256 0 t = Inr ((-1, []), t1)" "sched_errno t1 = ECONNRESET"
  shows "answer (Suc i) net lc lib sock request parser s = Inl Exit_failure \<and>
    handler_loop (Suc j) (Suc i) net lc lib sock (request\<lparr>keep_alive := True\<rparr>) parser t = Inr t1"
proof -
  have "reply_head (hp_is_get lib parser) (keep_alive request) date \<noteq> []"
    by (simp add: reply_head_def header_text_def HEADERS_CLOSE_FORMAT_def HEADERS_KEEP_ALIVE_FORMAT_def bytes_of_def)
  with assms(5,6) have "answer (Suc i) net lc lib sock request parser s = Inl Exit_failure"
    unfolding answer_sends [OF assms(3,4,1,2)] by (simp add: ECONNRESET_def EINTR_def)
  moreover have "handler_loop (Suc j) (Suc i) net lc lib sock (request\<lparr>keep_alive := True\<rparr>) parser t = Inr t1"
    using assms(7,8) by simp
  ultimately show ?thesis by blast
qed

definition reset_net :: "nat net" where
  "reset_net = \<lparr>net_send = \<lambda>sock buf flags s. Inr (-1, set_sched_errno ECONNRESET s),
     net_recv = \<lambda>sock len flags s. Inr ((-1, []), set_sched_errno ECONNRESET s), net_close = \<lambda>sock s. (0, s),
     net_accept = \<lambda>sock s. Inr (9, s), net_spawn = \<lambda>sock s. Inr s\<rparr>"

theorem reset_ends_process_witness:
  "\<exists>t1. answer 5 reset_net toy_clock toy_parser 7 (demo_request\<lparr>req_done := True\<rparr>) 0
      \<lparr>thr = 0, world_of = with_kernel 0 (demo_timers [])\<rparr> = Inl Exit_failure \<and>
    handler_loop 3 5 reset_net toy_clock toy_parser 7 (demo_request\<lparr>req_done := True, keep_alive := True\<rparr>) 0
      \<lparr>thr = 0, world_of = with_kernel 0 (demo_timers [])\<rparr> = Inr t1"
proof -
  let ?s = "\<lparr>thr = 0, world_of = with_kernel (0 :: nat) (demo_timers [])\<rparr>"
  have d: "date_string toy_clock (kernel (world_of ?s)) = Inr (''Thu Jan  1 00:00:00 1970'', 0)"
    by (simp add: date_string_def toy_clock_def)
  have "answer (Suc 4) reset_net toy_clock toy_parser 7 (demo_request\<lparr>req_done := True\<rparr>) 0 ?s = Inl Exit_failure \<and>
    handler_loop (Suc 2) (Suc 4) reset_net toy_clock toy_parser 7 ((demo_request\<lparr>req_done := True\<rparr>)\<lparr>keep_alive := True\<rparr>) 0 ?s =
      Inr (set_sched_errno ECONNRESET ?s)"
    by (rule reset_ends_process [OF d, where ?s1.0 = "set_sched_errno ECONNRESET (?s\<lparr>world_of := (world_of ?s)\<lparr>kernel := 0\<rparr>\<rparr>)"])
      (simp_all add: reset_net_def toy_parser_def sched_errno_def set_sched_errno_def sched_get_errno_def)
  moreover have "Suc 4 = 5" "Suc 2 = 3" by simp_all
  ultimately show ?thesis unfolding \<open>Suc 4 = 5\<close> \<open>Suc 2 = 3\<close> by blast
qed

end
