(* ===== verification/Eventlib.thy ===== *)
theory Eventlib
  imports Http
begin

text \<open>
  \<^verbatim>\<open>src/bench/webserver/eventlib.c\<close>: the callback-driven I/O library of the event-driven web server. A
  callback is a name, and what calling it does is a parameter \<open>run\<close> of the operations; the server
  supplies it. Names that \<^verbatim>\<open>src/async.c\<close> has too carry the suffix \<open>_cb\<close> here.
\<close>

section \<open>State\<close>

record loop =
  lp_epoll_fd :: int

datatype wait_type = WAIT_ACCEPT | WAIT_READ | WAIT_WRITE

text \<open>
  A waiter; fields that \<^verbatim>\<open>async_init_waiter\<close> leaves uninitialised are \<open>None\<close>. The union of callbacks is
  one field; \<open>'c\<close> are the names of callbacks and \<open>'b\<close> those of buffers.
\<close>

record ('c, 'b) waiter_struct =
  wt_loop :: nat
  wt_type :: "wait_type option"
  wt_cb :: "'c option"
  wt_fd :: int
  wt_buffer :: "'b option"
  wt_length :: nat
  wt_num_written :: nat
  wt_flags :: int

text \<open>
  What a thread of the program sees: the kernel, its \<^verbatim>\<open>errno\<close>, the loops and the waiters that are
  allocated, and the contents of the buffers.
\<close>

record ('k, 'c, 'b) ev =
  el_kernel :: 'k
  el_errno :: int
  el_loops :: "nat \<Rightarrow> loop option"
  el_waiters :: "nat \<Rightarrow> ('c, 'b) waiter_struct option"
  el_mem :: "'b \<Rightarrow> byte list"

type_synonym ('k, 'c, 'b, 'z) runner =
  "'c \<Rightarrow> nat \<Rightarrow> 'b option \<Rightarrow> int \<Rightarrow> ('k, 'c, 'b, 'z) ev_scheme \<Rightarrow> ('k, 'c, 'b, 'z) ev_scheme res"

definition initialised :: "'a option \<Rightarrow> 'a res" where
  "initialised x = (case x of None \<Rightarrow> Inl Uninit_read | Some y \<Rightarrow> Inr y)"

definition waiter_at :: "nat \<Rightarrow> ('k, 'c, 'b, 'z) ev_scheme \<Rightarrow> ('c, 'b) waiter_struct res" where
  "waiter_at w st = (case el_waiters st w of None \<Rightarrow> Inl Use_after_free | Some wt \<Rightarrow> Inr wt)"

definition loop_at :: "nat \<Rightarrow> ('k, 'c, 'b, 'z) ev_scheme \<Rightarrow> loop res" where
  "loop_at l st = (case el_loops st l of None \<Rightarrow> Inl Bad_pointer | Some lp \<Rightarrow> Inr lp)"

definition set_waiter ::
  "nat \<Rightarrow> (('c, 'b) waiter_struct \<Rightarrow> ('c, 'b) waiter_struct) \<Rightarrow> ('k, 'c, 'b, 'z) ev_scheme \<Rightarrow> ('k, 'c, 'b, 'z) ev_scheme res" where
  "set_waiter w f st =
     andthen (waiter_at w st) (\<lambda>wt. Inr (st\<lparr>el_waiters := (el_waiters st)(w \<mapsto> f wt)\<rparr>))"

definition ev_call :: "('k \<Rightarrow> (int + 'a) \<times> 'k) \<Rightarrow> ('k, 'c, 'b, 'z) ev_scheme \<Rightarrow> 'a option \<times> ('k, 'c, 'b, 'z) ev_scheme" where
  "ev_call call st =
     (let (r, k) = call (el_kernel st); st = st\<lparr>el_kernel := k\<rparr> in
      case r of Inl err \<Rightarrow> (None, st\<lparr>el_errno := err\<rparr>) | Inr x \<Rightarrow> (Some x, st))"

text \<open>Reading from and writing to a buffer, within its bounds.\<close>

definition read_mem :: "'b \<Rightarrow> nat \<Rightarrow> nat \<Rightarrow> ('k, 'c, 'b, 'z) ev_scheme \<Rightarrow> byte list res" where
  "read_mem b i len st = (if i + len \<le> length (el_mem st b) then Inr (take len (drop i (el_mem st b))) else Inl Out_of_bounds)"

definition write_mem :: "'b \<Rightarrow> byte list \<Rightarrow> ('k, 'c, 'b, 'z) ev_scheme \<Rightarrow> ('k, 'c, 'b, 'z) ev_scheme res" where
  "write_mem b bs st =
     andthen (put_bytes (el_mem st b) 0 bs) (\<lambda>m. Inr (st\<lparr>el_mem := (el_mem st)(b := m)\<rparr>))"

definition call_cb :: "('k, 'c, 'b, 'z) runner \<Rightarrow> nat \<Rightarrow> 'b option \<Rightarrow> int \<Rightarrow> ('k, 'c, 'b, 'z) ev_scheme \<Rightarrow> ('k, 'c, 'b, 'z) ev_scheme res" where
  "call_cb run w b result st =
     andthen (waiter_at w st) (\<lambda>wt. andthen (initialised (wt_cb wt)) (\<lambda>cb. run cb w b result st))"

section \<open>Handlers\<close>

definition socket_errno_cb :: "'k io \<Rightarrow> int \<Rightarrow> ('k, 'c, 'b, 'z) ev_scheme \<Rightarrow> int \<times> ('k, 'c, 'b, 'z) ev_scheme" where
  "socket_errno_cb io fd st =
     (case ev_call (io_getsockopt io fd) st of
        (Some error, st) \<Rightarrow> (- error, st)
      | (None, st) \<Rightarrow> (- el_errno st, st))"

definition arm_waiter :: "'k os \<Rightarrow> nat \<Rightarrow> uint32 \<Rightarrow> ('k, 'c, 'b, 'z) ev_scheme \<Rightarrow> ('k, 'c, 'b, 'z) ev_scheme res" where
  "arm_waiter os w events st =
     andthen (waiter_at w st) (\<lambda>wt.
     andthen (loop_at (wt_loop wt) st) (\<lambda>lp.
     let event = \<lparr>ev_events = events OR EPOLLET OR EPOLLONESHOT, ev_data = w\<rparr>;
         (result, k) = os_epoll_ctl os (lp_epoll_fd lp) EPOLL_CTL_ADD (wt_fd wt) (Some event) (el_kernel st) in
     andthen (c_assert (result = 0)) (\<lambda>_. Inr (st\<lparr>el_kernel := k\<rparr>))))"

definition handle_accept ::
  "('k, 'c, 'b, 'z) runner \<Rightarrow> 'k os \<Rightarrow> 'k io \<Rightarrow> uint32 \<Rightarrow> nat \<Rightarrow> ('k, 'c, 'b, 'z) ev_scheme \<Rightarrow> ('k, 'c, 'b, 'z) ev_scheme res" where
  "handle_accept run os io events w st =
     andthen (waiter_at w st) (\<lambda>wt.
     if events AND EPOLLERR \<noteq> 0 then
       let (error, st) = socket_errno_cb io (wt_fd wt) st in call_cb run w None error st
     else
       andthen (c_assert (events AND EPOLLIN \<noteq> 0)) (\<lambda>_.
       case ev_call (io_accept4 io (wt_fd wt) (SOCK_NONBLOCK OR SOCK_CLOEXEC)) st of
         (None, st) \<Rightarrow>
           andthen (if el_errno st \<noteq> EAGAIN \<or> el_errno st \<noteq> EWOULDBLOCK then call_cb run w None (- el_errno st) st
                    else Inr st) (arm_waiter os w EPOLLIN)
       | (Some (new_sock, _), st) \<Rightarrow> call_cb run w None new_sock st))"

definition handle_read ::
  "('k, 'c, 'b, 'z) runner \<Rightarrow> 'k os \<Rightarrow> 'k io \<Rightarrow> uint32 \<Rightarrow> nat \<Rightarrow> ('k, 'c, 'b, 'z) ev_scheme \<Rightarrow> ('k, 'c, 'b, 'z) ev_scheme res" where
  "handle_read run os io events w st =
     andthen (waiter_at w st) (\<lambda>wt.
     andthen (initialised (wt_buffer wt)) (\<lambda>b.
     if events AND EPOLLERR \<noteq> 0 then
       let (error, st) = socket_errno_cb io (wt_fd wt) st in call_cb run w (Some b) error st
     else
       andthen (c_assert (events AND EPOLLIN \<noteq> 0)) (\<lambda>_.
       case ev_call (io_recv io (wt_fd wt) (wt_length wt) (wt_flags wt)) st of
         (None, st) \<Rightarrow>
           andthen (if el_errno st \<noteq> EAGAIN \<and> el_errno st \<noteq> EWOULDBLOCK then call_cb run w (Some b) (- el_errno st) st
                    else Inr st) (arm_waiter os w EPOLLIN)
       | (Some bytes, st) \<Rightarrow>
           andthen (write_mem b bytes st) (\<lambda>st. call_cb run w (Some b) (int (length bytes)) st))))"

definition handle_write ::
  "('k, 'c, 'b, 'z) runner \<Rightarrow> 'k os \<Rightarrow> 'k io \<Rightarrow> uint32 \<Rightarrow> nat \<Rightarrow> ('k, 'c, 'b, 'z) ev_scheme \<Rightarrow> ('k, 'c, 'b, 'z) ev_scheme res" where
  "handle_write run os io events w st =
     andthen (waiter_at w st) (\<lambda>wt.
     andthen (initialised (wt_buffer wt)) (\<lambda>b.
     if events AND EPOLLERR \<noteq> 0 then
       let (error, st) = socket_errno_cb io (wt_fd wt) st in call_cb run w (Some b) error st
     else
       andthen (c_assert (events AND EPOLLOUT \<noteq> 0)) (\<lambda>_.
       andthen (read_mem b (wt_num_written wt) (wt_length wt - wt_num_written wt) st) (\<lambda>bytes.
       case ev_call (io_send io (wt_fd wt) bytes (wt_flags wt)) st of
         (None, st) \<Rightarrow>
           andthen (if el_errno st \<noteq> EAGAIN \<and> el_errno st \<noteq> EWOULDBLOCK then call_cb run w (Some b) (- el_errno st) st
                    else Inr st) (arm_waiter os w EPOLLOUT)
       | (Some num_written, st) \<Rightarrow>
           andthen (set_waiter w (\<lambda>wt. wt\<lparr>wt_num_written := wt_num_written wt + num_written\<rparr>) st) (\<lambda>st.
           andthen (waiter_at w st) (\<lambda>wt.
           if wt_num_written wt = wt_length wt then call_cb run w (Some b) (int num_written) st
           else arm_waiter os w EPOLLOUT st))))))"

definition handle_event ::
  "('k, 'c, 'b, 'z) runner \<Rightarrow> 'k os \<Rightarrow> 'k io \<Rightarrow> epoll_event \<Rightarrow> ('k, 'c, 'b, 'z) ev_scheme \<Rightarrow> ('k, 'c, 'b, 'z) ev_scheme res" where
  "handle_event run os io event st =
     (let w = ev_data event in
      andthen (waiter_at w st) (\<lambda>wt.
      andthen (loop_at (wt_loop wt) st) (\<lambda>lp.
      let (result, k) = os_epoll_ctl os (lp_epoll_fd lp) EPOLL_CTL_DEL (wt_fd wt) None (el_kernel st);
          st = st\<lparr>el_kernel := k\<rparr> in
      andthen (c_assert (result = 0)) (\<lambda>_.
      andthen (initialised (wt_type wt)) (\<lambda>t.
      case t of
        WAIT_ACCEPT \<Rightarrow> handle_accept run os io (ev_events event) w st
      | WAIT_READ \<Rightarrow> handle_read run os io (ev_events event) w st
      | WAIT_WRITE \<Rightarrow> handle_write run os io (ev_events event) w st)))))"

section \<open>Operations\<close>

definition async_init_waiter :: "nat \<Rightarrow> nat \<Rightarrow> int \<Rightarrow> ('k, 'c, 'b, 'z) ev_scheme \<Rightarrow> ('k, 'c, 'b, 'z) ev_scheme res" where
  "async_init_waiter w l fd st = set_waiter w (\<lambda>wt. wt\<lparr>wt_loop := l, wt_fd := fd\<rparr>) st"

definition async_accept_cb ::
  "('k, 'c, 'b, 'z) runner \<Rightarrow> 'k os \<Rightarrow> 'k io \<Rightarrow> nat \<Rightarrow> 'c \<Rightarrow> ('k, 'c, 'b, 'z) ev_scheme \<Rightarrow> (int \<times> ('k, 'c, 'b, 'z) ev_scheme) res" where
  "async_accept_cb run os io w on_accept st =
     andthen (waiter_at w st) (\<lambda>wt.
     case ev_call (io_accept4 io (wt_fd wt) (SOCK_NONBLOCK OR SOCK_CLOEXEC)) st of
       (Some (new_sock, _), st) \<Rightarrow> andthen (run on_accept w None new_sock st) (\<lambda>st. Inr (new_sock, st))
     | (None, st) \<Rightarrow>
         if el_errno st \<noteq> EAGAIN \<and> el_errno st \<noteq> EWOULDBLOCK then Inr (- el_errno st, st)
         else
           andthen (set_waiter w (\<lambda>wt. wt\<lparr>wt_type := Some WAIT_ACCEPT, wt_cb := Some on_accept\<rparr>) st) (\<lambda>st.
           andthen (arm_waiter os w EPOLLIN st) (\<lambda>st. Inr (0, st))))"

definition async_recv_cb ::
  "('k, 'c, 'b, 'z) runner \<Rightarrow> 'k os \<Rightarrow> 'k io \<Rightarrow> nat \<Rightarrow> 'b \<Rightarrow> nat \<Rightarrow> int \<Rightarrow> 'c \<Rightarrow> ('k, 'c, 'b, 'z) ev_scheme \<Rightarrow>
     (int \<times> ('k, 'c, 'b, 'z) ev_scheme) res" where
  "async_recv_cb run os io w buffer len flags on_read st =
     andthen (waiter_at w st) (\<lambda>wt.
     case ev_call (io_recv io (wt_fd wt) len flags) st of
       (Some bytes, st) \<Rightarrow>
         andthen (write_mem buffer bytes st) (\<lambda>st.
         andthen (run on_read w (Some buffer) (int (length bytes)) st) (\<lambda>st. Inr (int (length bytes), st)))
     | (None, st) \<Rightarrow>
         if el_errno st \<noteq> EAGAIN \<and> el_errno st \<noteq> EWOULDBLOCK then Inr (- el_errno st, st)
         else
           andthen (set_waiter w (\<lambda>wt. wt\<lparr>wt_type := Some WAIT_READ, wt_cb := Some on_read, wt_flags := flags,
                      wt_buffer := Some buffer, wt_length := len\<rparr>) st) (\<lambda>st.
           andthen (arm_waiter os w EPOLLIN st) (\<lambda>st. Inr (0, st))))"

definition async_send_cb ::
  "('k, 'c, 'b, 'z) runner \<Rightarrow> 'k os \<Rightarrow> 'k io \<Rightarrow> nat \<Rightarrow> 'b \<Rightarrow> nat \<Rightarrow> int \<Rightarrow> 'c \<Rightarrow> ('k, 'c, 'b, 'z) ev_scheme \<Rightarrow>
     (int \<times> ('k, 'c, 'b, 'z) ev_scheme) res" where
  "async_send_cb run os io w buffer len flags on_write st =
     andthen (waiter_at w st) (\<lambda>wt.
     andthen (read_mem buffer 0 len st) (\<lambda>bytes.
     case ev_call (io_send io (wt_fd wt) bytes flags) st of
       (Some num_written, st) \<Rightarrow>
         andthen (run on_write w (Some buffer) (int num_written) st) (\<lambda>st. Inr (int num_written, st))
     | (None, st) \<Rightarrow>
         if el_errno st \<noteq> EAGAIN \<and> el_errno st \<noteq> EWOULDBLOCK then Inr (- el_errno st, st)
         else
           andthen (set_waiter w (\<lambda>wt. wt\<lparr>wt_type := Some WAIT_WRITE, wt_cb := Some on_write, wt_flags := flags,
                      wt_buffer := Some buffer, wt_length := len, wt_num_written := 0\<rparr>) st) (\<lambda>st.
           andthen (arm_waiter os w EPOLLOUT st) (\<lambda>st. Inr (0, st)))))"

definition MAX_EVENTS_CB :: nat where
  "MAX_EVENTS_CB = 128"

primrec handle_events ::
  "('k, 'c, 'b, 'z) runner \<Rightarrow> 'k os \<Rightarrow> 'k io \<Rightarrow> epoll_event list \<Rightarrow> ('k, 'c, 'b, 'z) ev_scheme \<Rightarrow> ('k, 'c, 'b, 'z) ev_scheme res" where
  "handle_events run os io [] st = Inr st"
| "handle_events run os io (e # es) st = andthen (handle_event run os io e st) (handle_events run os io es)"

text \<open>The loop runs until \<^verbatim>\<open>epoll_wait\<close> fails; no result means that it still runs after \<open>n\<close> polls.\<close>

primrec async_run_loop ::
  "nat \<Rightarrow> ('k, 'c, 'b, 'z) runner \<Rightarrow> 'k os \<Rightarrow> 'k io \<Rightarrow> nat \<Rightarrow> ('k, 'c, 'b, 'z) ev_scheme \<Rightarrow>
     (int option \<times> ('k, 'c, 'b, 'z) ev_scheme) res" where
  "async_run_loop 0 run os io l st = Inr (None, st)"
| "async_run_loop (Suc n) run os io l st =
     andthen (loop_at l st) (\<lambda>lp.
     case ev_call (os_epoll_wait os (lp_epoll_fd lp) MAX_EVENTS_CB (-1)) st of
       (None, st) \<Rightarrow>
         if el_errno st = EINTR then async_run_loop n run os io l st else Inr (Some (- el_errno st), st)
     | (Some events, st) \<Rightarrow>
         andthen (handle_events run os io events st) (async_run_loop n run os io l))"

definition async_init_loop :: "'k os \<Rightarrow> nat \<Rightarrow> ('k, 'c, 'b, 'z) ev_scheme \<Rightarrow> int \<times> ('k, 'c, 'b, 'z) ev_scheme" where
  "async_init_loop os l st =
     (let ((fd, err), k) = os_epoll_create1 os (el_kernel st);
          st = st\<lparr>el_kernel := k, el_loops := (el_loops st)(l \<mapsto> \<lparr>lp_epoll_fd = fd\<rparr>)\<rparr> in
      if fd = -1 then (- err, st\<lparr>el_errno := err\<rparr>) else (0, st))"

section \<open>Writing a buffer\<close>

lemmas ev_access = waiter_at_def loop_at_def set_waiter_def initialised_def call_cb_def

text \<open>A waiter that waits to write the rest of its buffer.\<close>

definition write_pending :: "nat \<Rightarrow> 'c \<Rightarrow> 'b \<Rightarrow> ('c, 'b) waiter_struct \<Rightarrow> ('k, 'c, 'b, 'z) ev_scheme \<Rightarrow> bool" where
  "write_pending w cb b wt st \<longleftrightarrow> el_waiters st w = Some wt \<and> el_loops st (wt_loop wt) \<noteq> None \<and>
     wt_type wt = Some WAIT_WRITE \<and> wt_cb wt = Some cb \<and> wt_buffer wt = Some b \<and>
     wt_num_written wt < wt_length wt \<and> wt_length wt \<le> length (el_mem st b)"

definition rest_of :: "'b \<Rightarrow> ('c, 'b) waiter_struct \<Rightarrow> ('k, 'c, 'b, 'z) ev_scheme \<Rightarrow> byte list" where
  "rest_of b wt st = take (wt_length wt - wt_num_written wt) (drop (wt_num_written wt) (el_mem st b))"

text \<open>\<^verbatim>\<open>epoll_ctl\<close> succeeds and has nothing to do with what the sockets take.\<close>

definition epoll_calls_ok :: "'k os \<Rightarrow> ('k \<Rightarrow> byte list) \<Rightarrow> ('k \<Rightarrow> nat) \<Rightarrow> bool" where
  "epoll_calls_ok os out m \<longleftrightarrow> (\<forall>e f fd ev k. fst (os_epoll_ctl os e f fd ev k) = 0 \<and>
     out (snd (os_epoll_ctl os e f fd ev k)) = out k \<and> m (snd (os_epoll_ctl os e f fd ev k)) \<le> m k)"

definition writable :: "nat \<Rightarrow> epoll_event" where
  "writable w = \<lparr>ev_events = EPOLLOUT, ev_data = w\<rparr>"

text \<open>\<open>i\<close> events in a row that tell that the socket can be written.\<close>

primrec write_rounds ::
  "nat \<Rightarrow> ('k, 'c, 'b, 'z) runner \<Rightarrow> 'k os \<Rightarrow> 'k io \<Rightarrow> nat \<Rightarrow> ('k, 'c, 'b, 'z) ev_scheme \<Rightarrow> ('k, 'c, 'b, 'z) ev_scheme res" where
  "write_rounds 0 run os io w st = Inr st"
| "write_rounds (Suc i) run os io w st = andthen (handle_event run os io (writable w) st) (write_rounds i run os io w)"

lemma arm_ok:
  assumes "epoll_calls_ok os out m" "el_waiters st w = Some wt" "el_loops st (wt_loop wt) \<noteq> None"
  shows "\<exists>k. arm_waiter os w events st = Inr (st\<lparr>el_kernel := k\<rparr>) \<and> out k = out (el_kernel st) \<and> m k \<le> m (el_kernel st)"
proof -
  obtain lp where lp: "el_loops st (wt_loop wt) = Some lp" using assms(3) by blast
  let ?c = "os_epoll_ctl os (lp_epoll_fd lp) EPOLL_CTL_ADD (wt_fd wt)
    (Some \<lparr>ev_events = events OR EPOLLET OR EPOLLONESHOT, ev_data = w\<rparr>) (el_kernel st)"
  have "arm_waiter os w events st = Inr (st\<lparr>el_kernel := snd ?c\<rparr>)"
    using assms lp by (simp add: arm_waiter_def ev_access epoll_calls_ok_def case_prod_beta Let_def)
  then show ?thesis using assms(1) by (auto simp: epoll_calls_ok_def)
qed

lemma length_rest_of: "write_pending w cb b wt st \<Longrightarrow> length (rest_of b wt st) = wt_length wt - wt_num_written wt"
  by (auto simp: write_pending_def rest_of_def)

lemma write_event:
  assumes "epoll_calls_ok os out m" "write_pending w cb b wt st"
  obtains k1 where "out k1 = out (el_kernel st)" "m k1 \<le> m (el_kernel st)"
    "\<And>run. handle_event run os io (writable w) st = (case io_send io (wt_fd wt) (rest_of b wt st) (wt_flags wt) k1 of
       (Inl e, k2) \<Rightarrow> andthen (if e \<noteq> EAGAIN then run cb w (Some b) (- e) (st\<lparr>el_kernel := k2, el_errno := e\<rparr>)
                            else Inr (st\<lparr>el_kernel := k2, el_errno := e\<rparr>)) (arm_waiter os w EPOLLOUT)
     | (Inr n, k2) \<Rightarrow>
         (let st' = st\<lparr>el_kernel := k2, el_waiters := (el_waiters st)(w \<mapsto> wt\<lparr>wt_num_written := wt_num_written wt + n\<rparr>)\<rparr> in
          if wt_num_written wt + n = wt_length wt then run cb w (Some b) (int n) st' else arm_waiter os w EPOLLOUT st'))"
proof -
  note p = assms(2) [unfolded write_pending_def]
  obtain lp where lp: "el_loops st (wt_loop wt) = Some lp" using p by blast
  define k1 where "k1 = snd (os_epoll_ctl os (lp_epoll_fd lp) EPOLL_CTL_DEL (wt_fd wt) None (el_kernel st))"
  have k1: "out k1 = out (el_kernel st)" "m k1 \<le> m (el_kernel st)"
    using assms(1) by (simp_all add: k1_def epoll_calls_ok_def)
  have ev: "EPOLLOUT AND EPOLLERR = 0" "EPOLLOUT AND EPOLLOUT \<noteq> 0" by (simp_all add: EPOLLOUT_def EPOLLERR_def)
  let ?st1 = "st\<lparr>el_kernel := k1\<rparr>"
  have start: "handle_event run os io (writable w) st = handle_write run os io EPOLLOUT w ?st1" for run
    using p lp assms(1) by (simp add: handle_event_def writable_def ev_access epoll_calls_ok_def case_prod_beta Let_def k1_def)
  have mem: "read_mem b (wt_num_written wt) (wt_length wt - wt_num_written wt) ?st1 = Inr (rest_of b wt st)"
    using p by (simp add: read_mem_def rest_of_def)
  obtain x k2 where send: "io_send io (wt_fd wt) (rest_of b wt st) (wt_flags wt) k1 = (x, k2)" by (meson surj_pair)
  show thesis
    using p ev mem by (intro that [OF k1], unfold start, cases x)
      (simp_all add: send handle_write_def ev_access ev_call_def EAGAIN_def EWOULDBLOCK_def Let_def)
qed

text \<open>One such event: bytes are sent and the waiter is armed again, or the callback is called.\<close>

lemma write_round:
  assumes "stream_kernel io (wt_fd wt) out m" "epoll_calls_ok os out m" "write_pending w cb b wt st"
    and "\<forall>buf flags k e. fst (io_send io (wt_fd wt) buf flags k) = Inl e \<longrightarrow> e = EAGAIN"
  obtains (done_now) k r where "\<And>run. handle_event run os io (writable w) st =
      run cb w (Some b) r (st\<lparr>el_kernel := k, el_waiters := (el_waiters st)(w \<mapsto> wt\<lparr>wt_num_written := wt_length wt\<rparr>)\<rparr>)"
      "out k = out (el_kernel st) @ rest_of b wt st"
  | (armed) n st' where "\<And>run. handle_event run os io (writable w) st = Inr st'"
      "write_pending w cb b (wt\<lparr>wt_num_written := wt_num_written wt + n\<rparr>) st'" "n < length (rest_of b wt st)"
      "out (el_kernel st') = out (el_kernel st) @ take n (rest_of b wt st)" "el_mem st' = el_mem st"
      "m (el_kernel st') \<le> m (el_kernel st)" "n = 0 \<Longrightarrow> m (el_kernel st') < m (el_kernel st)"
proof -
  note p = assms(3) [unfolded write_pending_def]
  let ?rest = "rest_of b wt st"
  obtain k1 where k1: "out k1 = out (el_kernel st)" "m k1 \<le> m (el_kernel st)" and ev: "\<And>run. handle_event run os io (writable w) st =
     (case io_send io (wt_fd wt) ?rest (wt_flags wt) k1 of
       (Inl e, k2) \<Rightarrow> andthen (if e \<noteq> EAGAIN then run cb w (Some b) (- e) (st\<lparr>el_kernel := k2, el_errno := e\<rparr>)
                            else Inr (st\<lparr>el_kernel := k2, el_errno := e\<rparr>)) (arm_waiter os w EPOLLOUT)
     | (Inr n, k2) \<Rightarrow>
         (let st' = st\<lparr>el_kernel := k2, el_waiters := (el_waiters st)(w \<mapsto> wt\<lparr>wt_num_written := wt_num_written wt + n\<rparr>)\<rparr> in
          if wt_num_written wt + n = wt_length wt then run cb w (Some b) (int n) st' else arm_waiter os w EPOLLOUT st'))"
    using write_event [OF assms(2,3), where io = io] by blast
  have len: "length ?rest = wt_length wt - wt_num_written wt" by (rule length_rest_of [OF assms(3)])
  then have ne: "?rest \<noteq> []" using p by auto
  obtain x k2 where send: "io_send io (wt_fd wt) ?rest (wt_flags wt) k1 = (x, k2)" by (meson surj_pair)
  note law = send_law [OF assms(1) ne, of "wt_flags wt" k1, unfolded send]
  show thesis
  proof (cases x)
    case (Inl e)
    then have e: "e = EAGAIN" using assms(4) send by (metis fst_conv)
    let ?st = "st\<lparr>el_kernel := k2, el_errno := e\<rparr>"
    obtain k3 where k3: "arm_waiter os w EPOLLOUT ?st = Inr (?st\<lparr>el_kernel := k3\<rparr>)" "out k3 = out k2" "m k3 \<le> m k2"
      using arm_ok [OF assms(2), of ?st w wt] p by auto
    have "write_pending w cb b (wt\<lparr>wt_num_written := wt_num_written wt + 0\<rparr>) (?st\<lparr>el_kernel := k3\<rparr>)"
      using p by (simp add: write_pending_def)
    then show thesis using ev send law Inl e k1 k3 ne by (intro armed [of "?st\<lparr>el_kernel := k3\<rparr>" 0]) auto
  next
    case (Inr n)
    let ?wt = "wt\<lparr>wt_num_written := wt_num_written wt + n\<rparr>"
    let ?st = "st\<lparr>el_kernel := k2, el_waiters := (el_waiters st)(w \<mapsto> ?wt)\<rparr>"
    have n: "0 < n" "n \<le> length ?rest" "out k2 = out k1 @ take n ?rest" "m k2 \<le> m k1" using law Inr by simp_all
    obtain k3 where k3: "arm_waiter os w EPOLLOUT ?st = Inr (?st\<lparr>el_kernel := k3\<rparr>)" "out k3 = out k2" "m k3 \<le> m k2"
      using arm_ok [OF assms(2), of ?st w ?wt] p by auto
    show thesis
    proof (cases "wt_num_written wt + n = wt_length wt")
      case True
      then show thesis using ev send Inr n len k1(1) by (intro done_now [of "int n" k2]) simp_all
    next
      case False
      moreover have "wt_num_written wt < wt_length wt" using p by blast
      ultimately have "n < length ?rest" using n(2) len by linarith
      moreover from this have "write_pending w cb b ?wt (?st\<lparr>el_kernel := k3\<rparr>)" using p len by (auto simp: write_pending_def)
      ultimately show thesis using ev send Inr False n k1 k3 by (intro armed [of "?st\<lparr>el_kernel := k3\<rparr>" n]) auto
    qed
  qed
qed

lemma write_rounds_complete:
  assumes "epoll_calls_ok os out m" "stream_kernel io fd out m"
    and "\<forall>buf flags k e. fst (io_send io fd buf flags k) = Inl e \<longrightarrow> e = EAGAIN"
  shows "write_pending w cb b wt st \<Longrightarrow> wt_fd wt = fd \<Longrightarrow> length (rest_of b wt st) + m (el_kernel st) \<le> j \<Longrightarrow>
    \<exists>i\<le>j. \<exists>st1 st2 r. (\<forall>run. write_rounds i run os io w st = Inr st1 \<and>
        handle_event run os io (writable w) st1 = run cb w (Some b) r st2) \<and>
      out (el_kernel st2) = out (el_kernel st) @ rest_of b wt st \<and> el_mem st2 = el_mem st \<and>
      el_waiters st2 w = Some (wt\<lparr>wt_num_written := wt_length wt\<rparr>)"
proof (induction j arbitrary: wt st)
  case 0
  then show ?case using length_rest_of [OF 0(1)] by (simp add: write_pending_def)
next
  case (Suc j)
  have fd: "stream_kernel io (wt_fd wt) out m" "\<forall>buf flags k e. fst (io_send io (wt_fd wt) buf flags k) = Inl e \<longrightarrow> e = EAGAIN"
    using assms(2,3) Suc.prems(2) by simp_all
  from fd(1) assms(1) Suc.prems(1) fd(2) show ?case
  proof (cases rule: write_round)
    case (done_now k r)
    then show ?thesis by (intro exI [of _ 0]) auto
  next
    case (armed n st')
    let ?wt = "wt\<lparr>wt_num_written := wt_num_written wt + n\<rparr>"
    have rest: "rest_of b ?wt st' = drop n (rest_of b wt st)"
      using armed(5) by (simp add: rest_of_def drop_take add.commute)
    have "length (rest_of b ?wt st') + m (el_kernel st') \<le> j"
      using Suc.prems(3) armed(3,6,7) unfolding rest by (cases "n = 0") auto
    from Suc.IH [OF armed(2) _ this] Suc.prems(2) obtain i st1 st2 r where i: "i \<le> j"
      "\<forall>run. write_rounds i run os io w st' = Inr st1 \<and> handle_event run os io (writable w) st1 = run cb w (Some b) r st2"
      "out (el_kernel st2) = out (el_kernel st') @ rest_of b ?wt st'" "el_mem st2 = el_mem st'"
      "el_waiters st2 w = Some (?wt\<lparr>wt_num_written := wt_length ?wt\<rparr>)"
      by auto
    have "write_rounds (Suc i) run os io w st = Inr st1" for run using i(2) armed(1) by simp
    with i armed(4,5) show ?thesis unfolding rest by (intro exI [of _ "Suc i"]) auto
  qed
qed

text \<open>An error while reading: the callback is told, and then the waiter is armed again.\<close>

definition readable :: "nat \<Rightarrow> epoll_event" where
  "readable w = \<lparr>ev_events = EPOLLIN, ev_data = w\<rparr>"

lemma read_error:
  assumes "el_waiters st w = Some wt" "el_loops st (wt_loop wt) = Some lp" "wt_type wt = Some WAIT_READ"
    and "wt_cb wt = Some cb" "wt_buffer wt = Some b"
    and "os_epoll_ctl os (lp_epoll_fd lp) EPOLL_CTL_DEL (wt_fd wt) None (el_kernel st) = (0, k1)"
    and "io_recv io (wt_fd wt) (wt_length wt) (wt_flags wt) k1 = (Inl e, k2)" "e \<noteq> EAGAIN"
  shows "handle_event run os io (readable w) st =
    andthen (run cb w (Some b) (- e) (st\<lparr>el_kernel := k2, el_errno := e\<rparr>)) (arm_waiter os w EPOLLIN)"
proof -
  have "EPOLLIN AND EPOLLERR = 0" "EPOLLIN AND EPOLLIN \<noteq> 0" by (simp_all add: EPOLLIN_def EPOLLERR_def)
  with assms show ?thesis
    by (simp add: handle_event_def readable_def ev_access handle_read_def ev_call_def EAGAIN_def EWOULDBLOCK_def)
qed

section \<open>What the library guarantees\<close>

text \<open>
  C26: A buffer whose writing was put off is written whole and in order: there are so many events
  for the socket that send bytes, or find it full, and arm the waiter again without calling
  anything, and at the next one the callback is called, with nothing left to write. The
  number of events is at most that of the bytes and of the times the socket is found full.
\<close>

theorem put_off_write_completes:
  assumes "epoll_calls_ok os out m" "stream_kernel io (wt_fd wt) out m" "write_pending w cb b wt st"
    and "\<forall>buf flags k e. fst (io_send io (wt_fd wt) buf flags k) = Inl e \<longrightarrow> e = EAGAIN"
  shows "\<exists>i\<le>length (rest_of b wt st) + m (el_kernel st). \<exists>st1 st2 r. (\<forall>run. write_rounds i run os io w st = Inr st1 \<and>
      handle_event run os io (writable w) st1 = run cb w (Some b) r st2) \<and>
    out (el_kernel st2) = out (el_kernel st) @ rest_of b wt st \<and>
    el_waiters st2 w = Some (wt\<lparr>wt_num_written := wt_length wt\<rparr>)"
  using write_rounds_complete [OF assms(1,2,4,3)] by blast

text \<open>A socket that is found full so many times and then takes two bytes at a time.\<close>

definition full_io :: "(nat \<times> byte list) io" where
  "full_io = \<lparr>io_read = \<lambda>fd len k. (Inr [], k), io_write = \<lambda>fd buffer k. (Inr (length buffer), k),
     io_accept4 = \<lambda>fd flags k. (Inr (9, []), k), io_connect = \<lambda>fd address k. (Inr (), k),
     io_send = \<lambda>fd buffer flags (i, sent).
       if i > 0 then (Inl EAGAIN, (i - 1, sent)) else (Inr (min 2 (length buffer)), (0, sent @ take 2 buffer)),
     io_recv = \<lambda>fd len flags k. (Inr [], k), io_getsockopt = \<lambda>fd k. (Inr 0, k)\<rparr>"

definition plain_os :: "'k os" where
  "plain_os = \<lparr>os_malloc = \<lambda>n k. (True, k), os_clock_gettime = \<lambda>k. ((0, \<lparr>tv_sec = 1, tv_nsec = 0\<rparr>), k),
     os_epoll_create1 = \<lambda>k. ((3, 0), k), os_epoll_ctl = \<lambda>e f fd ev k. (0, k),
     os_epoll_wait = \<lambda>e n t k. (Inr [], k), os_pthread_attr_init = \<lambda>k. (0, k),
     os_pthread_attr_setstacksize = \<lambda>n k. (0, k), os_pthread_create = \<lambda>l k. (0, k),
     os_sigaction = \<lambda>k. (0, k), os_timer_create = \<lambda>t k. (0, k), os_timer_settime = \<lambda>t k. (0, k),
     os_sched_getaffinity = \<lambda>k. ((0, 2), k)\<rparr>"

definition writing :: "(nat, nat) waiter_struct" where
  "writing = \<lparr>wt_loop = 0, wt_type = Some WAIT_WRITE, wt_cb = Some 4, wt_fd = 7, wt_buffer = Some 6, wt_length = 5,
     wt_num_written = 1, wt_flags = 0\<rparr>"

definition writing_state :: "(nat \<times> byte list, nat, nat) ev" where
  "writing_state = \<lparr>el_kernel = (3, []), el_errno = 0, el_loops = [0 \<mapsto> \<lparr>lp_epoll_fd = 3\<rparr>], el_waiters = [1 \<mapsto> writing],
     el_mem = \<lambda>b. [10, 20, 30, 40, 50, 60]\<rparr>"

theorem put_off_write_completes_witness:
  "\<exists>i\<le>7. \<exists>st1 st2 r. (\<forall>run. write_rounds i run plain_os full_io 1 writing_state = Inr st1 \<and>
      handle_event run plain_os full_io (writable 1) st1 = run 4 1 (Some 6) r st2) \<and>
    snd (el_kernel st2) = [20, 30, 40, 50] \<and> el_waiters st2 1 = Some (writing\<lparr>wt_num_written := 5\<rparr>)"
proof -
  have a: "epoll_calls_ok (plain_os :: (nat \<times> byte list) os) snd fst" by (simp add: epoll_calls_ok_def plain_os_def)
  have b: "stream_kernel full_io (wt_fd writing) snd fst"
    by (auto simp: stream_kernel_def full_io_def EINTR_def EAGAIN_def min_def Suc_le_eq split: prod.splits)
  have c: "write_pending 1 4 6 writing writing_state" by (simp add: write_pending_def writing_def writing_state_def)
  have d: "\<forall>buf flags k e. fst (io_send full_io (wt_fd writing) buf flags k) = Inl e \<longrightarrow> e = EAGAIN"
    by (auto simp: full_io_def split: prod.splits if_splits)
  have "rest_of 6 writing writing_state = [20, 30, 40, 50]" "el_kernel writing_state = (3, [])" "wt_length writing = 5"
    by (simp_all add: rest_of_def writing_def writing_state_def)
  with put_off_write_completes [OF a b c d] show ?thesis by simp
qed

end
