(* ===== verification/Eventserv.thy ===== *)
theory Eventserv
  imports Eventlib Webserver
begin

text \<open>
  \<^verbatim>\<open>src/bench/webserver/eventserv.c\<close>: the web server as callbacks over the event library. A request and its
  waiter share an address, the waiter being the first member of the request; \<^verbatim>\<open>free\<close> takes both away.
\<close>

section \<open>State\<close>

datatype server_cb = On_accept | On_read | Send_http_response_helper | Next_request | Request_done

text \<open>The two buffers inside a request, the page, and the empty string.\<close>

datatype buffer = Read_buffer nat | Sendf_buffer nat | Html_data | Empty_data

record 'p ev_request =
  er_sock :: int
  er_url :: "byte list"
  er_url_length :: nat
  er_done :: bool
  er_keep_alive :: bool
  er_parser :: 'p
  er_response_data :: buffer
  er_response_length :: nat
  er_on_response_done :: server_cb

record ('k, 'p) server = "('k, server_cb, buffer) ev" +
  requests :: "nat \<Rightarrow> 'p ev_request option"

definition BUFFER_SIZE :: nat where
  "BUFFER_SIZE = 512"

text \<open>
  The calls out of the server. \<^verbatim>\<open>malloc\<close> of a request returns its address and whatever its fields hold
  then, or NULL; what it returns depends on the addresses in use, which \<^verbatim>\<open>free\<close> takes from.
\<close>

record ('k, 'p, 'tm) env =
  sv_os :: "'k os"
  sv_io :: "'k io"
  sv_libc :: "('k, 'tm) libc"
  sv_http :: "('p, 'p ev_request) http_lib"
  sv_close :: "int \<Rightarrow> 'k \<Rightarrow> (int + unit) \<times> 'k"
  sv_setsockopt_reuseport :: "int \<Rightarrow> 'k \<Rightarrow> (int + unit) \<times> 'k"
  sv_malloc :: "nat set \<Rightarrow> 'k \<Rightarrow> (nat \<times> 'p ev_request) option \<times> 'k"

type_synonym ('k, 'p) server_runner =
  "server_cb \<Rightarrow> nat \<Rightarrow> buffer option \<Rightarrow> int \<Rightarrow> ('k, 'p) server \<Rightarrow> ('k, 'p) server res"

definition request_at :: "nat \<Rightarrow> ('k, 'p) server \<Rightarrow> 'p ev_request res" where
  "request_at w st = (case requests st w of None \<Rightarrow> Inl Use_after_free | Some r \<Rightarrow> Inr r)"

definition set_request :: "nat \<Rightarrow> ('p ev_request \<Rightarrow> 'p ev_request) \<Rightarrow> ('k, 'p) server \<Rightarrow> ('k, 'p) server res" where
  "set_request w f st = andthen (request_at w st) (\<lambda>r. Inr (st\<lparr>requests := (requests st)(w \<mapsto> f r)\<rparr>))"

definition exit_unless :: "('k \<Rightarrow> (int + 'a) \<times> 'k) \<Rightarrow> ('k, 'p) server \<Rightarrow> ('a \<times> ('k, 'p) server) res" where
  "exit_unless call st = (case ev_call call st of (None, _) \<Rightarrow> Inl Exit_failure | (Some x, st) \<Rightarrow> Inr (x, st))"

section \<open>Callbacks of the parser\<close>

definition on_parse_url :: "byte list \<Rightarrow> 'p ev_request \<Rightarrow> (int \<times> 'p ev_request) res" where
  "on_parse_url buffer request =
     (if (er_url_length request + length buffer) mod size_max > URL_SIZE then Inr (-1, request)
      else
        andthen (put_bytes (er_url request) (er_url_length request) buffer) (\<lambda>u.
        Inr (0, request\<lparr>er_url := u, er_url_length := (er_url_length request + length buffer) mod size_max\<rparr>)))"

definition on_parse_done :: "('p, 'p ev_request) http_lib \<Rightarrow> 'p \<Rightarrow> 'p ev_request \<Rightarrow> (int \<times> 'p ev_request) res" where
  "on_parse_done lib parser request =
     andthen (put_bytes (er_url request) (er_url_length request) [0]) (\<lambda>u.
     Inr (0, request\<lparr>er_url := u, er_done := True, er_keep_alive := hp_should_keep_alive lib parser\<rparr>))"

section \<open>Responses\<close>

definition request_done :: "('k, 'p, 'tm) env \<Rightarrow> nat \<Rightarrow> int \<Rightarrow> ('k, 'p) server \<Rightarrow> ('k, 'p) server res" where
  "request_done env w result st =
     (if result < 0 \<and> result \<noteq> - EPIPE \<and> result \<noteq> - ECONNRESET then Inl Exit_failure
      else
        andthen (request_at w st) (\<lambda>request.
        andthen (exit_unless (sv_close env (er_sock request)) st) (\<lambda>(_, st).
        Inr (st\<lparr>requests := (requests st)(w := None), el_waiters := (el_waiters st)(w := None)\<rparr>))))"

definition sendf_cb ::
  "('k, 'p) server_runner \<Rightarrow> ('k, 'p, 'tm) env \<Rightarrow> nat \<Rightarrow> server_cb \<Rightarrow> string \<Rightarrow> ('k, 'p) server \<Rightarrow> (int \<times> ('k, 'p) server) res" where
  "sendf_cb run env w done_cb txt st =
     (let (written, bytes) = vsnprintf BUFFER_SIZE txt;
          len = (if written \<ge> BUFFER_SIZE then BUFFER_SIZE else written) in
      andthen (request_at w st) (\<lambda>_.
      andthen (write_mem (Sendf_buffer w) bytes st) (\<lambda>st.
      async_send_cb run (sv_os env) (sv_io env) w (Sendf_buffer w) len MSG_NOSIGNAL done_cb st)))"

definition send_http_headers_cb ::
  "('k, 'p) server_runner \<Rightarrow> ('k, 'p, 'tm) env \<Rightarrow> nat \<Rightarrow> string \<Rightarrow> nat \<Rightarrow> string \<Rightarrow> bool \<Rightarrow> server_cb \<Rightarrow> ('k, 'p) server \<Rightarrow>
     (int \<times> ('k, 'p) server) res" where
  "send_http_headers_cb run env w status content_length content_type keep done_cb st =
     andthen (date_string (sv_libc env) (el_kernel st)) (\<lambda>(timestr, k).
     sendf_cb run env w done_cb (header_text keep status timestr content_type content_length) (st\<lparr>el_kernel := k\<rparr>))"

definition send_http_response_helper ::
  "('k, 'p) server_runner \<Rightarrow> ('k, 'p, 'tm) env \<Rightarrow> nat \<Rightarrow> int \<Rightarrow> ('k, 'p) server \<Rightarrow> ('k, 'p) server res" where
  "send_http_response_helper run env w result st =
     (if result < 0 then Inl Exit_failure
      else
        andthen (request_at w st) (\<lambda>request.
        andthen (async_send_cb run (sv_os env) (sv_io env) w (er_response_data request) (er_response_length request)
                   MSG_NOSIGNAL (er_on_response_done request) st) (\<lambda>(result, st).
        if result < 0 then request_done env w result st else Inr st)))"

definition send_http_response_cb ::
  "('k, 'p) server_runner \<Rightarrow> ('k, 'p, 'tm) env \<Rightarrow> nat \<Rightarrow> string \<Rightarrow> buffer \<Rightarrow> nat \<Rightarrow> string \<Rightarrow> bool \<Rightarrow> server_cb \<Rightarrow> ('k, 'p) server \<Rightarrow>
     ('k, 'p) server res" where
  "send_http_response_cb run env w status data len content_type keep done_cb st =
     andthen (set_request w (\<lambda>r. r\<lparr>er_response_data := data, er_response_length := len, er_on_response_done := done_cb\<rparr>) st) (\<lambda>st.
     andthen (send_http_headers_cb run env w status len content_type keep Send_http_response_helper st) (\<lambda>(result, st).
     if result < 0 then request_done env w result st else Inr st))"

section \<open>Callbacks of the event library\<close>

text \<open>\<^verbatim>\<open>async_recv\<close> into the request's buffer, as three of the callbacks do it.\<close>

definition recv_request :: "('k, 'p) server_runner \<Rightarrow> ('k, 'p, 'tm) env \<Rightarrow> nat \<Rightarrow> ('k, 'p) server \<Rightarrow> (int \<times> ('k, 'p) server) res" where
  "recv_request run env w st =
     async_recv_cb run (sv_os env) (sv_io env) w (Read_buffer w) BUFFER_SIZE 0 On_read st"

definition next_request :: "('k, 'p) server_runner \<Rightarrow> ('k, 'p, 'tm) env \<Rightarrow> nat \<Rightarrow> int \<Rightarrow> ('k, 'p) server \<Rightarrow> ('k, 'p) server res" where
  "next_request run env w result st =
     (if result < 0 then Inl Exit_failure
      else
        andthen (set_request w (\<lambda>r. r\<lparr>er_url_length := 0, er_done := False\<rparr>) st) (\<lambda>st.
        andthen (recv_request run env w st) (\<lambda>(num_read, st).
        if num_read < 0 then request_done env w num_read st else Inr st)))"

definition on_read :: "('k, 'p) server_runner \<Rightarrow> ('k, 'p, 'tm) env \<Rightarrow> nat \<Rightarrow> int \<Rightarrow> ('k, 'p) server \<Rightarrow> ('k, 'p) server res" where
  "on_read run env w num_read st =
     (if num_read = - EPIPE \<or> num_read = - ECONNRESET then request_done env w 0 st
      else if num_read < 0 then Inl Exit_failure
      else
        andthen (request_at w st) (\<lambda>request.
        andthen (read_mem (Read_buffer w) 0 (nat num_read) st) (\<lambda>bytes.
        andthen (hp_execute (sv_http env) on_parse_url (on_parse_done (sv_http env)) (er_parser request) bytes request)
          (\<lambda>(parsed, parser, request).
        let request = request\<lparr>er_parser := parser\<rparr>; st = st\<lparr>requests := (requests st)(w \<mapsto> request)\<rparr> in
        if int parsed \<noteq> num_read then request_done env w 0 st
        else if parsed = 0 \<and> \<not> er_done request then request_done env w 0 st
        else if \<not> er_done request then
          andthen (recv_request run env w st) (\<lambda>(num_read, st).
          if num_read < 0 then request_done env w num_read st else Inr st)
        else
          andthen (c_assert (hp_parse_url (sv_http env) (take (er_url_length request) (er_url request)) = 0)) (\<lambda>_.
          let done_cb = (if er_keep_alive request then Next_request else Request_done) in
          if hp_is_get (sv_http env) parser then
            send_http_response_cb run env w ''200 Seek'' Html_data (length HTML) ''text/html'' (er_keep_alive request) done_cb st
          else
            send_http_response_cb run env w ''405 Method Not Allowed'' Empty_data 0 ''text/plain'' (er_keep_alive request) done_cb st)))))"

text \<open>A waiter whose memory was just allocated.\<close>

definition raw_waiter :: "('c, 'b) waiter_struct" where
  "raw_waiter = \<lparr>wt_loop = 0, wt_type = None, wt_cb = None, wt_fd = 0, wt_buffer = None, wt_length = 0, wt_num_written = 0,
     wt_flags = 0\<rparr>"

text \<open>A new request: the waiter as \<^verbatim>\<open>malloc\<close> and \<^verbatim>\<open>async_init_waiter\<close> leave it, and empty buffers.\<close>

definition new_request :: "('k, 'p, 'tm) env \<Rightarrow> nat \<Rightarrow> 'p ev_request \<Rightarrow> nat \<Rightarrow> int \<Rightarrow> ('k, 'p) server \<Rightarrow> ('k, 'p) server res" where
  "new_request env a garbage l sock st =
     (let request = garbage\<lparr>er_sock := sock, er_url_length := 0, er_done := False, er_parser := hp_init (sv_http env)\<rparr> in
      async_init_waiter a l sock
        (st\<lparr>requests := (requests st)(a \<mapsto> request), el_waiters := (el_waiters st)(a \<mapsto> raw_waiter),
           el_mem := (el_mem st)(Read_buffer a := replicate BUFFER_SIZE 0, Sendf_buffer a := replicate BUFFER_SIZE 0)\<rparr>))"

definition on_accept :: "('k, 'p) server_runner \<Rightarrow> ('k, 'p, 'tm) env \<Rightarrow> nat \<Rightarrow> int \<Rightarrow> ('k, 'p) server \<Rightarrow> ('k, 'p) server res" where
  "on_accept run env w sock st =
     (if sock < 0 then Inl Exit_failure
      else
        andthen (async_accept_cb run (sv_os env) (sv_io env) w On_accept st) (\<lambda>(error, st).
        if error < 0 then Inl Exit_failure
        else
          andthen (exit_unless (sv_setsockopt_reuseport env sock) st) (\<lambda>(_, st).
          let (p, k) = sv_malloc env (dom (el_waiters st)) (el_kernel st); st = st\<lparr>el_kernel := k\<rparr> in
          case p of
            None \<Rightarrow> Inl Assert_fail
          | Some (a, garbage) \<Rightarrow>
              andthen (waiter_at w st) (\<lambda>wt.
              andthen (new_request env a garbage (wt_loop wt) sock st) (\<lambda>st.
              andthen (recv_request run env a st) (\<lambda>(num_read, st).
              if num_read < 0 then Inl Exit_failure else Inr st))))))"

text \<open>
  Calling a callback. Callbacks call each other through the library, one level deeper each time;
  the first argument bounds the depth of the stack.
\<close>

primrec run_cb :: "nat \<Rightarrow> ('k, 'p, 'tm) env \<Rightarrow> ('k, 'p) server_runner" where
  "run_cb 0 env cb w b result st = Inl Diverged"
| "run_cb (Suc n) env cb w b result st =
     (case cb of
        On_accept \<Rightarrow> on_accept (run_cb n env) env w result st
      | On_read \<Rightarrow> on_read (run_cb n env) env w result st
      | Send_http_response_helper \<Rightarrow> send_http_response_helper (run_cb n env) env w result st
      | Next_request \<Rightarrow> next_request (run_cb n env) env w result st
      | Request_done \<Rightarrow> request_done env w result st)"

section \<open>The server\<close>

text \<open>No result means that the loop still runs after \<open>i\<close> polls.\<close>

definition ev_main_loop :: "nat \<Rightarrow> nat \<Rightarrow> ('k, 'p, 'tm) env \<Rightarrow> nat \<Rightarrow> ('k, 'p) server \<Rightarrow> ('k, 'p) server res" where
  "ev_main_loop i n env l st =
     andthen (async_run_loop i (run_cb n env) (sv_os env) (sv_io env) l st) (\<lambda>(result, st).
     case result of Some r \<Rightarrow> if r < 0 then Inl Exit_failure else Inr st | None \<Rightarrow> Inr st)"

primrec start_threads :: "nat \<Rightarrow> 'k os \<Rightarrow> nat \<Rightarrow> 'k \<Rightarrow> 'k res" where
  "start_threads 0 os i k = Inr k"
| "start_threads (Suc n) os i k =
     (let (result, k) = os_pthread_create os i k in
      andthen (c_assert (result = 0)) (\<lambda>_. start_threads n os (i + 1) k))"

definition ev_server_main ::
  "nat \<Rightarrow> nat \<Rightarrow> ('k, 'p, 'tm) env \<Rightarrow> 'k sockets \<Rightarrow> nat \<Rightarrow> nat \<Rightarrow> ('k, 'p) server \<Rightarrow> ('k, 'p) server res" where
  "ev_server_main i n env sk l w st =
     andthen (exit_unless (sk_socket sk True) st) (\<lambda>(sock, st).
     andthen (exit_unless (sk_setsockopt_reuse sk sock) st) (\<lambda>(_, st).
     andthen (exit_unless (sk_bind sk sock PORT) st) (\<lambda>(_, st).
     andthen (exit_unless (sk_listen sk sock BACKLOG) st) (\<lambda>(_, st).
     let (result, st) = async_init_loop (sv_os env) l st in
     if result = -1 then Inl Exit_failure
     else
       let ((result, cpu_count), k) = os_sched_getaffinity (sv_os env) (el_kernel st) in
       andthen (c_assert (result = 0)) (\<lambda>_.
       andthen (start_threads (cpu_count - 1) (sv_os env) 0 k) (\<lambda>k.
       andthen (async_init_waiter w l sock (st\<lparr>el_kernel := k, el_waiters := (el_waiters st)(w \<mapsto> raw_waiter)\<rparr>)) (\<lambda>st.
       andthen (async_accept_cb (run_cb n env) (sv_os env) (sv_io env) w On_accept st) (\<lambda>(error, st).
       if error < 0 then Inl Exit_failure else ev_main_loop i n env l st))))))))"

section \<open>Serving a request\<close>

text \<open>
  A system in which \<^verbatim>\<open>send\<close> always takes some prefix, \<open>took\<close> bytes of it, there is nothing to read yet, and the
  other calls succeed.
\<close>

definition serving_calls ::
  "('k, 'p, 'tm) env \<Rightarrow> int \<Rightarrow> ('k \<Rightarrow> byte list) \<Rightarrow> (byte list \<Rightarrow> 'k \<Rightarrow> nat) \<Rightarrow> bool" where
  "serving_calls env fd out took \<longleftrightarrow>
     clock_calls_ok (sv_libc env) out (\<lambda>_. 0) \<and> epoll_calls_ok (sv_os env) out (\<lambda>_. 0) \<and>
     (\<forall>buf flags k. fst (io_send (sv_io env) fd buf flags k) = Inr (took buf k) \<and> took buf k \<le> length buf \<and>
        out (snd (io_send (sv_io env) fd buf flags k)) = out k @ take (took buf k) buf) \<and>
     (\<forall>len flags k. fst (io_recv (sv_io env) fd len flags k) = Inl EAGAIN \<and> out (snd (io_recv (sv_io env) fd len flags k)) = out k) \<and>
     (\<forall>fd k. fst (sv_close env fd k) = Inr () \<and> out (snd (sv_close env fd k)) = out k)"

text \<open>What is left of a connection after a reply: it waits for the next request, or it is gone.\<close>

definition after_reply :: "bool \<Rightarrow> nat \<Rightarrow> ('k, 'p) server \<Rightarrow> bool" where
  "after_reply keep w st \<longleftrightarrow>
     (if keep then (\<exists>r wt. requests st w = Some r \<and> er_url_length r = 0 \<and> \<not> er_done r \<and> el_waiters st w = Some wt \<and>
        wt_type wt = Some WAIT_READ \<and> wt_cb wt = Some On_read \<and> wt_buffer wt = Some (Read_buffer w) \<and>
        wt_length wt = BUFFER_SIZE)
      else requests st w = None \<and> el_waiters st w = None)"

lemma send_step:
  assumes "serving_calls env (wt_fd wt) out took" "el_waiters st w = Some wt" "len \<le> length (el_mem st b)"
  shows "\<exists>k. out k = out (el_kernel st) @ take (took (take len (el_mem st b)) (el_kernel st)) (take len (el_mem st b)) \<and>
    async_send_cb run os (sv_io env) w b len flags cb st =
      andthen (run cb w (Some b) (int (took (take len (el_mem st b)) (el_kernel st))) (st\<lparr>el_kernel := k\<rparr>))
        (\<lambda>st'. Inr (int (took (take len (el_mem st b)) (el_kernel st)), st'))"
proof -
  obtain x k where k: "io_send (sv_io env) (wt_fd wt) (take len (el_mem st b)) flags (el_kernel st) = (x, k)" by (meson surj_pair)
  have "fst (io_send (sv_io env) (wt_fd wt) (take len (el_mem st b)) flags (el_kernel st)) =
      Inr (took (take len (el_mem st b)) (el_kernel st))"
    "out (snd (io_send (sv_io env) (wt_fd wt) (take len (el_mem st b)) flags (el_kernel st))) =
      out (el_kernel st) @ take (took (take len (el_mem st b)) (el_kernel st)) (take len (el_mem st b))"
    using assms(1) by (simp_all add: serving_calls_def)
  with k assms(2,3) show ?thesis
    by (intro exI [of _ k]) (simp add: async_send_cb_def waiter_at_def read_mem_def ev_call_def)
qed

lemma next_request_waits:
  assumes "serving_calls env (wt_fd wt) out took" "el_waiters st w = Some wt" "el_loops st (wt_loop wt) \<noteq> None"
    and "requests st w = Some r"
  shows "\<exists>st'. next_request run env w (int j) st = Inr st' \<and> out (el_kernel st') = out (el_kernel st) \<and> after_reply True w st'"
proof -
  obtain x k where k: "io_recv (sv_io env) (wt_fd wt) BUFFER_SIZE 0 (el_kernel st) = (x, k)" by (meson surj_pair)
  have "fst (io_recv (sv_io env) (wt_fd wt) BUFFER_SIZE 0 (el_kernel st)) = Inl EAGAIN"
    "out (snd (io_recv (sv_io env) (wt_fd wt) BUFFER_SIZE 0 (el_kernel st))) = out (el_kernel st)"
    using assms(1) by (simp_all add: serving_calls_def)
  then have x: "x = Inl EAGAIN" "out k = out (el_kernel st)" using k by simp_all
  let ?wt = "wt\<lparr>wt_type := Some WAIT_READ, wt_cb := Some On_read, wt_flags := 0, wt_buffer := Some (Read_buffer w), wt_length := BUFFER_SIZE\<rparr>"
  let ?st = "st\<lparr>requests := (requests st)(w \<mapsto> r\<lparr>er_url_length := 0, er_done := False\<rparr>), el_kernel := k, el_errno := EAGAIN,
    el_waiters := (el_waiters st)(w \<mapsto> ?wt)\<rparr>"
  have "epoll_calls_ok (sv_os env) out (\<lambda>_. 0)" using assms(1) by (simp add: serving_calls_def)
  then obtain k' where k': "arm_waiter (sv_os env) w EPOLLIN ?st = Inr (?st\<lparr>el_kernel := k'\<rparr>)" "out k' = out k"
    using arm_ok [of "sv_os env" out "\<lambda>_. 0" ?st w ?wt EPOLLIN] assms(3) by auto
  have "next_request run env w (int j) st = Inr (?st\<lparr>el_kernel := k'\<rparr>)"
    using assms(2,4) k x k'(1)
    by (simp add: next_request_def set_request_def request_at_def recv_request_def async_recv_cb_def waiter_at_def ev_call_def
        EAGAIN_def EWOULDBLOCK_def set_waiter_def)
  moreover have "after_reply True w (?st\<lparr>el_kernel := k'\<rparr>)" by (simp add: after_reply_def)
  ultimately show ?thesis using x(2) k'(2) by (intro exI [of _ "?st\<lparr>el_kernel := k'\<rparr>"]) simp
qed

lemma request_done_frees:
  assumes "serving_calls env fd out took" "requests st w = Some r"
  shows "\<exists>st'. request_done env w (int j) st = Inr st' \<and> out (el_kernel st') = out (el_kernel st) \<and> after_reply False w st'"
proof -
  obtain x k where k: "sv_close env (er_sock r) (el_kernel st) = (x, k)" by (meson surj_pair)
  have "fst (sv_close env (er_sock r) (el_kernel st)) = Inr ()" "out (snd (sv_close env (er_sock r) (el_kernel st))) = out (el_kernel st)"
    using assms(1) by (simp_all add: serving_calls_def)
  with k assms(2) show ?thesis
    by (simp add: request_done_def request_at_def exit_unless_def ev_call_def after_reply_def)
qed

lemma after_body:
  assumes "serving_calls env (wt_fd wt) out took" "el_waiters st w = Some wt" "el_loops st (wt_loop wt) \<noteq> None"
    and "requests st w = Some r"
  shows "\<exists>st'. run_cb (Suc n) env (if keep then Next_request else Request_done) w b (int j) st = Inr st' \<and>
    out (el_kernel st') = out (el_kernel st) \<and> after_reply keep w st'"
  using next_request_waits [OF assms] request_done_frees [OF assms(1,4)] by (cases keep) auto

lemma after_head:
  assumes "serving_calls env (wt_fd wt) out took" "el_waiters st w = Some wt" "el_loops st (wt_loop wt) \<noteq> None"
    and "requests st w = Some r" "er_response_length r \<le> length (el_mem st (er_response_data r))"
    and "er_on_response_done r = (if keep then Next_request else Request_done)"
  shows "\<exists>st' k. run_cb (Suc (Suc n)) env Send_http_response_helper w b (int j) st = Inr st' \<and>
    (let body = take (er_response_length r) (el_mem st (er_response_data r)) in
     out (el_kernel st') = out (el_kernel st) @ take (took body k) body) \<and> after_reply keep w st'"
proof -
  let ?body = "take (er_response_length r) (el_mem st (er_response_data r))" and ?run = "run_cb (Suc n) env"
  obtain k where k: "out k = out (el_kernel st) @ take (took ?body (el_kernel st)) ?body"
    "async_send_cb ?run (sv_os env) (sv_io env) w (er_response_data r) (er_response_length r) MSG_NOSIGNAL (er_on_response_done r) st =
      andthen (?run (er_on_response_done r) w (Some (er_response_data r)) (int (took ?body (el_kernel st))) (st\<lparr>el_kernel := k\<rparr>))
        (\<lambda>st'. Inr (int (took ?body (el_kernel st)), st'))"
    using send_step [OF assms(1,2,5)] by blast
  obtain st' where st': "?run (er_on_response_done r) w (Some (er_response_data r)) (int (took ?body (el_kernel st))) (st\<lparr>el_kernel := k\<rparr>) = Inr st'"
    "out (el_kernel st') = out k" "after_reply keep w st'"
    using after_body [OF assms(1), where st = "st\<lparr>el_kernel := k\<rparr>" and w = w and r = r and keep = keep] assms(2-4,6) by auto
  have "run_cb (Suc (Suc n)) env Send_http_response_helper w b (int j) st = Inr st'"
    using assms(4) k(2) st'(1) by (simp add: send_http_response_helper_def request_at_def del: run_cb.simps(2))
      (simp add: send_http_response_helper_def request_at_def)
  with k(1) st' show ?thesis by (auto simp: Let_def)
qed

lemma reply_sent:
  assumes "serving_calls env (wt_fd wt) out took" "el_waiters st w = Some wt" "el_loops st (wt_loop wt) \<noteq> None"
    and "requests st w = Some r" "length (el_mem st (Sendf_buffer w)) = BUFFER_SIZE"
    and "len \<le> length (el_mem st data)" "\<forall>v. data \<noteq> Sendf_buffer v"
    and head: "\<And>date. length date \<le> 24 \<Longrightarrow> length (header_text keep status date content_type len) \<le> 255"
  shows "\<exists>date k1 k2 st'. send_http_response_cb (run_cb (Suc (Suc n)) env) env w status data len content_type keep
      (if keep then Next_request else Request_done) st = Inr st' \<and> length date \<le> 24 \<and> after_reply keep w st' \<and>
    (let head = bytes_of (header_text keep status date content_type len); body = take len (el_mem st data) in
     out (el_kernel st') = out (el_kernel st) @ take (took head k1) head @ take (took body k2) body)"
proof -
  have "clock_calls_ok (sv_libc env) out (\<lambda>_. 0)" using assms(1) by (simp add: serving_calls_def)
  from date_string_ok [OF this, of "el_kernel st"]
  obtain date k where d: "date_string (sv_libc env) (el_kernel st) = Inr (date, k)" "length date \<le> 24" "out k = out (el_kernel st)"
    by blast
  let ?cb = "if keep then Next_request else Request_done" and ?txt = "header_text keep status date content_type len"
  let ?r = "r\<lparr>er_response_data := data, er_response_length := len, er_on_response_done := ?cb\<rparr>"
  define mem where "mem = bytes_of ?txt @ [0] @ drop (length ?txt + 1) (el_mem st (Sendf_buffer w))"
  define st1 where "st1 = st\<lparr>requests := (requests st)(w \<mapsto> ?r), el_kernel := k, el_mem := (el_mem st)(Sendf_buffer w := mem)\<rparr>"
  note fits = head [OF d(2)]
  have h: "take (length ?txt) (el_mem st1 (Sendf_buffer w)) = bytes_of ?txt" "length ?txt \<le> length (el_mem st1 (Sendf_buffer w))"
    "el_waiters st1 w = Some wt"
    using assms(2) by (simp_all add: st1_def mem_def)
  have "put_bytes (el_mem st (Sendf_buffer w)) 0 (bytes_of ?txt @ [0]) = Inr mem"
    using fits assms(5) by (simp add: put_bytes_def BUFFER_SIZE_def mem_def)
  then have run: "sendf_cb run env w cb ?txt (st\<lparr>requests := (requests st)(w \<mapsto> ?r), el_kernel := k\<rparr>) =
      async_send_cb run (sv_os env) (sv_io env) w (Sendf_buffer w) (length ?txt) MSG_NOSIGNAL cb st1" for run cb
    using fits by (simp add: sendf_cb_def vsnprintf_def BUFFER_SIZE_def Let_def request_at_def write_mem_def st1_def)
  let ?run = "run_cb (Suc (Suc n)) env"
  obtain j k1 where j: "j = took (bytes_of ?txt) (el_kernel st1)" "out k1 = out (el_kernel st1) @ take j (bytes_of ?txt)"
    "async_send_cb ?run (sv_os env) (sv_io env) w (Sendf_buffer w) (length ?txt) MSG_NOSIGNAL Send_http_response_helper st1 =
       andthen (?run Send_http_response_helper w (Some (Sendf_buffer w)) (int j) (st1\<lparr>el_kernel := k1\<rparr>)) (\<lambda>st'. Inr (int j, st'))"
    using send_step [OF assms(1) h(3,2), unfolded h(1)] by blast
  have m1: "el_mem st1 data = el_mem st data" using assms(7) by (simp add: st1_def)
  let ?s = "st1\<lparr>el_kernel := k1\<rparr>"
  have q: "el_waiters ?s w = Some wt" "el_loops ?s (wt_loop wt) \<noteq> None" "requests ?s w = Some ?r"
    "er_response_length ?r \<le> length (el_mem ?s (er_response_data ?r))" "er_on_response_done ?r = ?cb"
    using assms(2,3,6,7) by (simp_all add: st1_def)
  have body: "take (er_response_length ?r) (el_mem ?s (er_response_data ?r)) = take len (el_mem st data)" using m1 by simp
  obtain st' k2 where st': "?run Send_http_response_helper w (Some (Sendf_buffer w)) (int j) ?s = Inr st'"
    "out (el_kernel st') = out (el_kernel ?s) @ take (took (take len (el_mem st data)) k2) (take len (el_mem st data))" "after_reply keep w st'"
    using after_head [OF assms(1) q, of n "Some (Sendf_buffer w)" j, unfolded body Let_def] by blast
  have "send_http_response_cb ?run env w status data len content_type keep ?cb st = Inr st'"
    using assms(4) d(1) j(3) st'(1)
    by (simp add: send_http_response_cb_def send_http_headers_cb_def set_request_def request_at_def run del: run_cb.simps)
  moreover have "out (el_kernel st1) = out (el_kernel st)" using d(3) by (simp add: st1_def)
  ultimately show ?thesis using st' j(1,2) d(2)
    by (intro exI [of _ date] exI [of _ "el_kernel st1"] exI [of _ k2] exI [of _ st']) (simp add: Let_def)
qed

section \<open>A server for the examples\<close>

text \<open>
  A kernel whose state is what was sent; every request is a complete GET, and connections come
  without end.
\<close>

definition eager_http :: "(nat, nat ev_request) http_lib" where
  "eager_http = \<lparr>hp_init = 0, hp_execute = \<lambda>uf df p bs r. andthen (df p r) (\<lambda>(_, r). Inr (length bs, p, r)),
     hp_should_keep_alive = \<lambda>p. True, hp_is_get = \<lambda>p. True, hp_parse_url = \<lambda>u. 0\<rparr>"

definition eager_io :: "byte list io" where
  "eager_io = \<lparr>io_read = \<lambda>fd len k. (Inr [], k), io_write = \<lambda>fd buffer k. (Inr (length buffer), k),
     io_accept4 = \<lambda>fd flags k. (Inr (9, []), k), io_connect = \<lambda>fd address k. (Inr (), k),
     io_send = \<lambda>fd buffer flags sent. (Inr (length buffer), sent @ buffer),
     io_recv = \<lambda>fd len flags k. (Inl EAGAIN, k), io_getsockopt = \<lambda>fd k. (Inr 0, k)\<rparr>"

definition eager_env :: "(byte list, nat, int) env" where
  "eager_env = \<lparr>sv_os = plain_os, sv_io = eager_io, sv_libc = toy_clock, sv_http = eager_http, sv_close = \<lambda>fd k. (Inr (), k),
     sv_setsockopt_reuseport = \<lambda>fd k. (Inr (), k), sv_malloc = \<lambda>used k. (None, k)\<rparr>"

definition fresh_request :: "nat ev_request" where
  "fresh_request = \<lparr>er_sock = 7, er_url = replicate 128 7, er_url_length = 0, er_done = False, er_keep_alive = False, er_parser = 0,
     er_response_data = Empty_data, er_response_length = 0, er_on_response_done = Request_done\<rparr>"

definition reading_waiter :: "(server_cb, buffer) waiter_struct" where
  "reading_waiter = \<lparr>wt_loop = 0, wt_type = Some WAIT_READ, wt_cb = Some On_read, wt_fd = 7, wt_buffer = Some (Read_buffer 1),
     wt_length = BUFFER_SIZE, wt_num_written = 0, wt_flags = 0\<rparr>"

definition reading_server :: "(byte list, nat) server" where
  "reading_server = \<lparr>el_kernel = [], el_errno = 0, el_loops = [0 \<mapsto> \<lparr>lp_epoll_fd = 3\<rparr>], el_waiters = [1 \<mapsto> reading_waiter],
     el_mem = \<lambda>b. (case b of Html_data \<Rightarrow> HTML | Empty_data \<Rightarrow> [] | _ \<Rightarrow> replicate BUFFER_SIZE 0),
     requests = [1 \<mapsto> fresh_request]\<rparr>"

lemma eager_calls: "serving_calls eager_env fd (\<lambda>sent. sent) (\<lambda>buf k. length buf)"
  using toy_clock_ok [of "\<lambda>sent. sent" "\<lambda>_. 0"]
  by (simp add: serving_calls_def eager_env_def eager_io_def epoll_calls_ok_def plain_os_def)

section \<open>What the server does\<close>

text \<open>
  C27: A client that resets its connection while the server waits to read from it: the callback frees
  the request and with it the waiter, and then the library arms the freed waiter.
\<close>

theorem client_reset_use_after_free:
  assumes "el_waiters st w = Some wt" "el_loops st (wt_loop wt) = Some lp" "wt_type wt = Some WAIT_READ"
    and "wt_cb wt = Some On_read" "wt_buffer wt = Some (Read_buffer w)" "requests st w = Some request"
    and "os_epoll_ctl (sv_os env) (lp_epoll_fd lp) EPOLL_CTL_DEL (wt_fd wt) None (el_kernel st) = (0, k1)"
    and "io_recv (sv_io env) (wt_fd wt) (wt_length wt) (wt_flags wt) k1 = (Inl ECONNRESET, k2)"
    and "sv_close env (er_sock request) k2 = (Inr (), k3)"
  shows "handle_event (run_cb (Suc n) env) (sv_os env) (sv_io env) (readable w) st = Inl Use_after_free"
proof -
  have "ECONNRESET \<noteq> EAGAIN" by (simp add: ECONNRESET_def EAGAIN_def)
  from read_error [OF assms(1-5,7,8) this, of "run_cb (Suc n) env"] assms(6,9) show ?thesis
    by (simp add: on_read_def request_done_def request_at_def exit_unless_def ev_call_def arm_waiter_def waiter_at_def)
qed

theorem client_reset_use_after_free_witness:
  "handle_event (run_cb 5 (eager_env\<lparr>sv_io := eager_io\<lparr>io_recv := \<lambda>fd len flags k. (Inl ECONNRESET, k)\<rparr>\<rparr>)) plain_os
     (eager_io\<lparr>io_recv := \<lambda>fd len flags k. (Inl ECONNRESET, k)\<rparr>) (readable 1) reading_server = Inl Use_after_free"
proof -
  let ?env = "eager_env\<lparr>sv_io := eager_io\<lparr>io_recv := \<lambda>fd len flags k. (Inl ECONNRESET, k)\<rparr>\<rparr>"
  have "handle_event (run_cb (Suc 4) ?env) (sv_os ?env) (sv_io ?env) (readable 1) reading_server = Inl Use_after_free"
    by (rule client_reset_use_after_free [where wt = reading_waiter and lp = "\<lparr>lp_epoll_fd = 3\<rparr>" and request = fresh_request and ?k1.0 = "[]"
          and ?k2.0 = "[]" and ?k3.0 = "[]"])
      (simp_all add: reading_server_def reading_waiter_def eager_env_def eager_io_def plain_os_def fresh_request_def)
  moreover have "Suc 4 = 5" by simp
  ultimately show ?thesis by (simp add: eager_env_def del: run_cb.simps)
qed

text \<open>
  C28: The callback for a new connection accepts the next one before it serves its own, and that is
  answered by a call of the same callback: while connections keep coming, the recursion does
  not end, whatever the size of the stack.
\<close>

theorem accept_recursion_unbounded:
  assumes "\<forall>k. \<exists>fd a k'. io_accept4 (sv_io env) (wt_fd wt) (SOCK_NONBLOCK OR SOCK_CLOEXEC) k = (Inr (fd, a), k') \<and> 0 \<le> fd"
    and "el_waiters st w = Some wt" "0 \<le> sock"
  shows "run_cb n env On_accept w b sock st = Inl Diverged"
  using assms(2,3)
proof (induction n arbitrary: b sock st)
  case (Suc n)
  obtain fd a k where acc: "io_accept4 (sv_io env) (wt_fd wt) (SOCK_NONBLOCK OR SOCK_CLOEXEC) (el_kernel st) = (Inr (fd, a), k)" "0 \<le> fd"
    using assms(1) by blast
  have "run_cb n env On_accept w None fd (st\<lparr>el_kernel := k\<rparr>) = Inl Diverged"
    by (rule Suc.IH) (simp_all add: Suc.prems acc(2))
  with Suc.prems acc show ?case
    by (simp add: on_accept_def async_accept_cb_def waiter_at_def ev_call_def)
qed simp

theorem accept_recursion_unbounded_witness:
  "run_cb 9 eager_env On_accept 1 None 8 reading_server = Inl Diverged"
proof -
  have "\<forall>k. \<exists>fd a k'. io_accept4 (sv_io eager_env) (wt_fd reading_waiter) (SOCK_NONBLOCK OR SOCK_CLOEXEC) k = (Inr (fd, a), k') \<and> 0 \<le> fd"
    by (simp add: eager_env_def eager_io_def)
  moreover have "el_waiters reading_server 1 = Some reading_waiter" by (simp add: reading_server_def)
  ultimately show ?thesis by (rule accept_recursion_unbounded) simp
qed

definition as_web_request :: "'p ev_request \<Rightarrow> web_request" where
  "as_web_request r = \<lparr>url = er_url r, url_length = er_url_length r, req_done = er_done r, keep_alive = er_keep_alive r\<rparr>"

text \<open>
  The two servers take a URL in the same way: the callbacks of the parser do to a request of the
  one what they do to a request of the other.
\<close>

theorem servers_parse_alike:
  assumes "hp_should_keep_alive lib = hp_should_keep_alive lib'"
  shows "andthen (on_parse_url bytes r) (\<lambda>(e, r'). Inr (e, as_web_request r')) = on_url bytes (as_web_request r) \<and>
    andthen (on_parse_done lib p r) (\<lambda>(e, r'). Inr (e, as_web_request r')) = on_done lib' p (as_web_request r)"
  using assms
  by (simp add: on_parse_url_def on_url_def on_parse_done_def on_done_def as_web_request_def andthen_assoc)

theorem servers_parse_alike_witness:
  "andthen (on_parse_url [47] fresh_request) (\<lambda>(e, r'). Inr (e, as_web_request r')) = on_url [47] (as_web_request fresh_request) \<and>
   andthen (on_parse_done eager_http 0 fresh_request) (\<lambda>(e, r'). Inr (e, as_web_request r')) =
     on_done \<lparr>hp_init = (0 :: nat), hp_execute = \<lambda>u d p bs r. Inr (length bs, p, r), hp_should_keep_alive = \<lambda>p. True,
       hp_is_get = \<lambda>p. True, hp_parse_url = \<lambda>u. 0\<rparr> 0 (as_web_request fresh_request)"
  by (rule servers_parse_alike) (simp add: eager_http_def)

text \<open>
  C25: A request that the read buffer completes is answered: the head and the body are sent, in
  order, and the connection waits for the next request or is closed and freed, as the client
  asked. Each of the two parts is cut after what the first \<^verbatim>\<open>send\<close> takes of it, so the reply is whole
  exactly when the socket takes each part at once.
\<close>

theorem request_served:
  assumes "serving_calls env (wt_fd wt) out took" "el_waiters st w = Some wt" "el_loops st (wt_loop wt) \<noteq> None"
    and "requests st w = Some r" "length (el_mem st (Sendf_buffer w)) = BUFFER_SIZE" "el_mem st Html_data = HTML"
    and "num \<le> length (el_mem st (Read_buffer w))"
    and "hp_execute (sv_http env) on_parse_url (on_parse_done (sv_http env)) (er_parser r)
      (take num (el_mem st (Read_buffer w))) r = Inr (num, p, r')"
    and "er_done r'" "hp_parse_url (sv_http env) (take (er_url_length r') (er_url r')) = 0"
  shows "\<exists>date k1 k2 st'. run_cb (Suc (Suc (Suc n))) env On_read w b (int num) st = Inr st' \<and>
    after_reply (er_keep_alive r') w st' \<and>
    (let head = reply_head (hp_is_get (sv_http env) p) (er_keep_alive r') date; body = reply_body (hp_is_get (sv_http env) p) in
     out (el_kernel st') = out (el_kernel st) @ take (took head k1) head @ take (took body k2) body)"
proof -
  let ?get = "hp_is_get (sv_http env) p" and ?keep = "er_keep_alive r'"
  let ?st = "st\<lparr>requests := (requests st)(w \<mapsto> r'\<lparr>er_parser := p\<rparr>)\<rparr>"
  let ?cb = "if ?keep then Next_request else Request_done" and ?run = "run_cb (Suc (Suc n)) env"
  have h: "length date \<le> 24 \<Longrightarrow> length (header_text ?keep ''200 Seek'' date ''text/html'' (length HTML)) \<le> 255"
    "length date \<le> 24 \<Longrightarrow> length (header_text ?keep ''405 Method Not Allowed'' date ''text/plain'' 0) \<le> 255" for date
    using header_fits [of date True ?keep] header_fits [of date False ?keep] by (simp_all add: reply_head_def)
  have "int num \<noteq> - EPIPE" "int num \<noteq> - ECONNRESET" by (simp_all add: EPIPE_def ECONNRESET_def)
  then have run: "run_cb (Suc (Suc (Suc n))) env On_read w b (int num) st =
      (if ?get then send_http_response_cb ?run env w ''200 Seek'' Html_data (length HTML) ''text/html'' ?keep ?cb ?st
       else send_http_response_cb ?run env w ''405 Method Not Allowed'' Empty_data 0 ''text/plain'' ?keep ?cb ?st)"
    using assms(4,7-10) unfolding run_cb.simps(2) [of "Suc (Suc n)"]
    by (simp add: on_read_def request_at_def read_mem_def Let_def del: run_cb.simps)
  have pre: "el_waiters ?st w = Some wt" "el_loops ?st (wt_loop wt) \<noteq> None" "requests ?st w = Some (r'\<lparr>er_parser := p\<rparr>)"
    "length (el_mem ?st (Sendf_buffer w)) = BUFFER_SIZE"
    using assms(2,3,5) by simp_all
  show ?thesis
  proof (cases ?get)
    case True
    have d: "length HTML \<le> length (el_mem ?st Html_data)" "\<forall>v. Html_data \<noteq> Sendf_buffer v" using assms(6) by simp_all
    from reply_sent [OF assms(1) pre d h(1), of n] obtain date k1 k2 st' where
      "send_http_response_cb ?run env w ''200 Seek'' Html_data (length HTML) ''text/html'' ?keep ?cb ?st = Inr st'"
      "after_reply ?keep w st'"
      "let head = bytes_of (header_text ?keep ''200 Seek'' date ''text/html'' (length HTML)); body = take (length HTML) (el_mem ?st Html_data) in
        out (el_kernel st') = out (el_kernel ?st) @ take (took head k1) head @ take (took body k2) body"
      by blast
    with True run assms(6) show ?thesis
      by (intro exI [of _ date] exI [of _ k1] exI [of _ k2] exI [of _ st']) (simp add: reply_head_def reply_body_def Let_def del: run_cb.simps)
  next
    case False
    have d: "0 \<le> length (el_mem ?st Empty_data)" "\<forall>v. Empty_data \<noteq> Sendf_buffer v" by simp_all
    from reply_sent [OF assms(1) pre d h(2), of n] obtain date k1 k2 st' where
      "send_http_response_cb ?run env w ''405 Method Not Allowed'' Empty_data 0 ''text/plain'' ?keep ?cb ?st = Inr st'"
      "after_reply ?keep w st'"
      "let head = bytes_of (header_text ?keep ''405 Method Not Allowed'' date ''text/plain'' 0); body = take 0 (el_mem ?st Empty_data) in
        out (el_kernel st') = out (el_kernel ?st) @ take (took head k1) head @ take (took body k2) body"
      by blast
    with False run show ?thesis
      by (intro exI [of _ date] exI [of _ k1] exI [of _ k2] exI [of _ st']) (simp add: reply_head_def reply_body_def Let_def del: run_cb.simps)
  qed
qed

theorem request_served_witness:
  "\<exists>date st'. run_cb 3 eager_env On_read 1 None 40 reading_server = Inr st' \<and>
     after_reply True 1 st' \<and> el_kernel st' = reply_head True True date @ HTML"
proof -
  let ?r = "fresh_request\<lparr>er_url := 0 # replicate 127 7, er_done := True, er_keep_alive := True\<rparr>"
  have url: "put_bytes (replicate 128 7) 0 [0] = Inr (0 # replicate 127 7)"
    by (simp add: put_bytes_def numeral_eq_Suc)
  have exec: "hp_execute (sv_http eager_env) on_parse_url (on_parse_done (sv_http eager_env)) (er_parser fresh_request)
      (take 40 (el_mem reading_server (Read_buffer 1))) fresh_request = Inr (40, 0, ?r)"
    using url by (simp add: eager_env_def eager_http_def on_parse_done_def fresh_request_def reading_server_def BUFFER_SIZE_def)
  have st: "el_waiters reading_server 1 = Some reading_waiter" "el_loops reading_server (wt_loop reading_waiter) \<noteq> None"
    "requests reading_server 1 = Some fresh_request" "length (el_mem reading_server (Sendf_buffer 1)) = BUFFER_SIZE"
    "el_mem reading_server Html_data = HTML" "40 \<le> length (el_mem reading_server (Read_buffer 1))"
    by (simp_all add: reading_server_def reading_waiter_def BUFFER_SIZE_def)
  have r: "er_done ?r" "hp_parse_url (sv_http eager_env) (take (er_url_length ?r) (er_url ?r)) = 0"
    by (simp_all add: eager_env_def eager_http_def)
  have "hp_is_get (sv_http eager_env) 0" "el_kernel reading_server = []" "er_keep_alive ?r" "Suc (Suc (Suc 0)) = 3" "int 40 = 40"
    by (simp_all add: eager_env_def eager_http_def reading_server_def)
  with request_served [OF eager_calls st exec r, of 0 None] show ?thesis
    by (simp add: Let_def reply_body_def del: run_cb.simps)
qed

end
