(* ===== verification/Event_Safety.thy ===== *)
theory Event_Safety
  imports Eventserv
begin

text \<open>
  Memory safety of the event-driven server: an invariant of its waiters, requests and buffers, a
  contract of the calls it makes, and that the callbacks, the event library and the loop keep
  the one under the other.
\<close>

section \<open>The invariant\<close>

definition url_fits :: "'p ev_request \<Rightarrow> bool" where
  "url_fits r \<longleftrightarrow> length (er_url r) = URL_SIZE \<and> er_url_length r \<le> URL_SIZE"

text \<open>The body that \<open>send_http_response_helper\<close> is to send is there, and what follows it is known.\<close>

definition response_ok :: "('k, 'p) server \<Rightarrow> 'p ev_request \<Rightarrow> bool" where
  "response_ok st r \<longleftrightarrow> er_response_data r \<in> {Html_data, Empty_data} \<and>
     er_response_length r \<le> length (el_mem st (er_response_data r)) \<and> er_on_response_done r \<in> {Next_request, Request_done}"

definition request_ok :: "('k, 'p) server \<Rightarrow> nat \<Rightarrow> 'p ev_request \<Rightarrow> bool" where
  "request_ok st w r \<longleftrightarrow> url_fits r \<and> el_waiters st w \<noteq> None \<and> length (el_mem st (Read_buffer w)) = BUFFER_SIZE \<and>
     length (el_mem st (Sendf_buffer w)) = BUFFER_SIZE"

text \<open>A callback may be called after a write to the connection of \<open>w\<close>.\<close>

definition write_cb_ok :: "('k, 'p) server \<Rightarrow> nat \<Rightarrow> server_cb \<Rightarrow> bool" where
  "write_cb_ok st w cb \<longleftrightarrow> (\<exists>r. requests st w = Some r \<and>
     (cb \<in> {Next_request, Request_done} \<or> cb = Send_http_response_helper \<and> response_ok st r))"

text \<open>
  The fields of a waiter go with what it waits for: the callback has the signature that the
  handler calls it with, and the buffer is one it may touch.
\<close>

definition pending_ok :: "('k, 'p) server \<Rightarrow> nat \<Rightarrow> (server_cb, buffer) waiter_struct \<Rightarrow> bool" where
  "pending_ok st w wt \<longleftrightarrow>
     (case wt_type wt of
        None \<Rightarrow> True
      | Some WAIT_ACCEPT \<Rightarrow> wt_cb wt = Some On_accept
      | Some WAIT_READ \<Rightarrow> requests st w \<noteq> None \<and> wt_cb wt = Some On_read \<and> wt_buffer wt = Some (Read_buffer w) \<and>
          wt_length wt = BUFFER_SIZE
      | Some WAIT_WRITE \<Rightarrow> (\<exists>cb b. wt_cb wt = Some cb \<and> wt_buffer wt = Some b \<and> write_cb_ok st w cb \<and>
          b \<in> {Sendf_buffer w, Html_data, Empty_data} \<and> wt_num_written wt \<le> wt_length wt \<and> wt_length wt \<le> length (el_mem st b)))"

text \<open>
  \<open>reg k\<close> are the addresses that the kernel may report an event for: only allocated waiters.
\<close>

definition server_wf :: "('k \<Rightarrow> nat set) \<Rightarrow> ('k, 'p) server \<Rightarrow> bool" where
  "server_wf reg st \<longleftrightarrow> el_mem st Html_data = HTML \<and> (\<forall>w r. requests st w = Some r \<longrightarrow> request_ok st w r) \<and>
     (\<forall>w wt. el_waiters st w = Some wt \<longrightarrow> el_loops st (wt_loop wt) \<noteq> None \<and> pending_ok st w wt) \<and>
     reg (el_kernel st) \<subseteq> dom (el_waiters st)"

definition settled :: "('k, 'p) server \<Rightarrow> nat \<Rightarrow> bool" where
  "settled st w \<longleftrightarrow> (\<forall>wt. el_waiters st w = Some wt \<longrightarrow> wt_type wt \<noteq> None)"

text \<open>When a callback may be called, and what a call for \<open>w\<close> leaves: \<open>w\<close> waits again or is gone, and nothing else was freed.\<close>

definition ready :: "('k \<Rightarrow> nat set) \<Rightarrow> ('k, 'p) server \<Rightarrow> server_cb \<Rightarrow> nat \<Rightarrow> int \<Rightarrow> bool" where
  "ready reg st cb w result \<longleftrightarrow> w \<notin> reg (el_kernel st) \<and>
     (case cb of
        On_accept \<Rightarrow> el_waiters st w \<noteq> None
      | On_read \<Rightarrow> requests st w \<noteq> None \<and> result \<le> int BUFFER_SIZE
      | _ \<Rightarrow> write_cb_ok st w cb)"

definition done_by :: "('k \<Rightarrow> nat set) \<Rightarrow> nat \<Rightarrow> ('k, 'p) server \<Rightarrow> ('k, 'p) server \<Rightarrow> bool" where
  "done_by reg w st st' \<longleftrightarrow> server_wf reg st' \<and> el_loops st' = el_loops st \<and>
     (\<forall>v. v \<noteq> w \<longrightarrow> el_waiters st v \<noteq> None \<longrightarrow>
        el_waiters st' v \<noteq> None \<and> (v \<in> reg (el_kernel st') \<longrightarrow> v \<in> reg (el_kernel st))) \<and>
     settled st' w \<and> (\<forall>v. settled st v \<longrightarrow> settled st' v)"

definition outcome :: "('k \<Rightarrow> nat set) \<Rightarrow> server_cb \<Rightarrow> nat \<Rightarrow> ('k, 'p) server \<Rightarrow> ('k, 'p) server \<Rightarrow> bool" where
  "outcome reg cb w st st' \<longleftrightarrow> done_by reg w st st' \<and> (cb = On_accept \<longrightarrow> el_waiters st' w \<noteq> None)"

section \<open>The contract of the calls\<close>

definition quiet :: "('k \<Rightarrow> nat set) \<Rightarrow> ('k \<Rightarrow> 'a \<times> 'k) \<Rightarrow> bool" where
  "quiet reg call \<longleftrightarrow> (\<forall>k. reg (snd (call k)) \<subseteq> reg k)"

text \<open>A call that fails sets \<^verbatim>\<open>errno\<close> to a positive number; \<open>P\<close> holds of what it returns otherwise.\<close>

definition call_ok :: "('k \<Rightarrow> nat set) \<Rightarrow> ('a \<Rightarrow> bool) \<Rightarrow> ('k \<Rightarrow> (int + 'a) \<times> 'k) \<Rightarrow> bool" where
  "call_ok reg P call \<longleftrightarrow> quiet reg call \<and> (\<forall>k. case fst (call k) of Inl e \<Rightarrow> 0 < e | Inr x \<Rightarrow> P x)"

text \<open>
  The kernel: every waiter is registered with \<^verbatim>\<open>EPOLLONESHOT\<close>, so what \<^verbatim>\<open>epoll_wait\<close> reports is registered, is
  reported once, and is not reported again before it is registered again.
\<close>

definition epoll_ok :: "('k \<Rightarrow> nat set) \<Rightarrow> 'k os \<Rightarrow> bool" where
  "epoll_ok reg os \<longleftrightarrow>
     (\<forall>e f fd ev k. reg (snd (os_epoll_ctl os e f fd ev k)) \<subseteq> reg k \<union> ev_data ` set_option ev) \<and>
     (\<forall>e n t k. reg (snd (os_epoll_wait os e n t k)) \<subseteq> reg k \<and>
        (\<forall>es. fst (os_epoll_wait os e n t k) = Inr es \<longrightarrow>
           distinct (map ev_data es) \<and> ev_data ` set es \<subseteq> reg k - reg (snd (os_epoll_wait os e n t k)))) \<and>
     quiet reg (os_epoll_create1 os) \<and> quiet reg (os_sched_getaffinity os) \<and> (\<forall>i. quiet reg (os_pthread_create os i))"

text \<open>The parser calls the server's two callbacks, with what they keep of a request, and does nothing else to it.\<close>

inductive parsing :: "('p, 'p ev_request) http_lib \<Rightarrow> 'p ev_request \<Rightarrow> 'p ev_request res \<Rightarrow> bool" for lib r where
  none: "parsing lib r (Inr r)"
| url: "parsing lib r (Inr r1) \<Longrightarrow> length f < 2 ^ 63 \<Longrightarrow> on_parse_url f r1 = Inr (e, r2) \<Longrightarrow> parsing lib r (Inr r2)"
| url_fault: "parsing lib r (Inr r1) \<Longrightarrow> length f < 2 ^ 63 \<Longrightarrow> on_parse_url f r1 = Inl x \<Longrightarrow> parsing lib r (Inl x)"
| complete: "parsing lib r (Inr r1) \<Longrightarrow> on_parse_done lib p r1 = Inr (e, r2) \<Longrightarrow> parsing lib r (Inr r2)"
| complete_fault: "parsing lib r (Inr r1) \<Longrightarrow> on_parse_done lib p r1 = Inl x \<Longrightarrow> parsing lib r (Inl x)"

abbreviation parse :: "('p, 'p ev_request) http_lib \<Rightarrow> 'p \<Rightarrow> byte list \<Rightarrow> 'p ev_request \<Rightarrow> (nat \<times> 'p \<times> 'p ev_request) res" where
  "parse lib \<equiv> hp_execute lib on_parse_url (on_parse_done lib)"

definition env_ok :: "('k \<Rightarrow> nat set) \<Rightarrow> ('k, 'p, 'tm) env \<Rightarrow> bool" where
  "env_ok reg env \<longleftrightarrow> epoll_ok reg (sv_os env) \<and>
     (\<forall>fd len flags. call_ok reg (\<lambda>bytes. length bytes \<le> len) (io_recv (sv_io env) fd len flags)) \<and>
     (\<forall>fd bytes flags. call_ok reg (\<lambda>n. n \<le> length bytes) (io_send (sv_io env) fd bytes flags)) \<and>
     (\<forall>fd flags. call_ok reg (\<lambda>_. True) (io_accept4 (sv_io env) fd flags)) \<and>
     (\<forall>fd. call_ok reg (\<lambda>e. 0 \<le> e) (io_getsockopt (sv_io env) fd)) \<and>
     (\<forall>fd. quiet reg (sv_close env fd)) \<and> (\<forall>fd. quiet reg (sv_setsockopt_reuseport env fd)) \<and>
     (\<forall>used. quiet reg (sv_malloc env used)) \<and>
     (\<forall>used k a g. fst (sv_malloc env used k) = Some (a, g) \<longrightarrow> a \<notin> used \<and> length (er_url g) = URL_SIZE) \<and>
     quiet reg (lc_time (sv_libc env)) \<and> (\<forall>tm. lc_asctime_r (sv_libc env) tm \<noteq> Some []) \<and>
     (\<forall>p bs r. parsing (sv_http env) r
        (case parse (sv_http env) p bs r of Inl f \<Rightarrow> Inl f | Inr (_, _, r') \<Rightarrow> Inr r'))"

text \<open>
  How a callback may stop: the program ends itself, an assertion fails, the stack of nested
  callbacks is full, or the parser's callbacks overrun the URL of a request.
\<close>

definition stops :: "('k, 'p, 'tm) env \<Rightarrow> fault set" where
  "stops env = {Exit_failure, Assert_fail, Diverged} \<union> {f. f = Out_of_bounds \<and> (\<exists>p bs r. parse (sv_http env) p bs r = Inl f)}"

definition safely :: "('k, 'p, 'tm) env \<Rightarrow> ('a \<Rightarrow> bool) \<Rightarrow> 'a res \<Rightarrow> bool" where
  "safely env P x = (case x of Inl f \<Rightarrow> f \<in> stops env | Inr y \<Rightarrow> P y)"

lemma safely_simps [simp]:
  "safely env P (Inr x) = P x" "safely env P (Inl f) \<longleftrightarrow> f \<in> stops env"
  by (simp_all add: safely_def)

lemma stops_simps [simp]: "Exit_failure \<in> stops env" "Assert_fail \<in> stops env" "Diverged \<in> stops env"
  by (simp_all add: stops_def)

lemma safely_andthen: "safely env P m \<Longrightarrow> (\<And>x. P x \<Longrightarrow> safely env Q (f x)) \<Longrightarrow> safely env Q (andthen m f)"
  by (cases m) simp_all

lemma safely_mono: "safely env P m \<Longrightarrow> (\<And>x. P x \<Longrightarrow> Q x) \<Longrightarrow> safely env Q m"
  by (cases m) simp_all

lemma safely_assert [simp]: "safely env P (andthen (c_assert b) f) \<longleftrightarrow> (b \<longrightarrow> safely env P (f ()))"
  by (simp add: c_assert_def)

section \<open>Updates that keep the invariant\<close>

lemma pending_ok_mono:
  assumes "pending_ok st w wt" "requests st w \<noteq> None \<Longrightarrow> requests st' w \<noteq> None"
    and "\<And>cb. write_cb_ok st w cb \<Longrightarrow> write_cb_ok st' w cb" "\<And>b. length (el_mem st b) \<le> length (el_mem st' b)"
  shows "pending_ok st' w wt"
  using assms(1,2) unfolding pending_ok_def
  by (auto split: option.splits wait_type.splits dest: assms(3) intro: le_trans [OF _ assms(4)])

lemma server_wfI:
  assumes "server_wf reg st" "el_mem st' Html_data = HTML" "el_loops st' = el_loops st"
    and "\<And>v r. requests st' v = Some r \<Longrightarrow> request_ok st' v r"
    and "\<And>v wt. el_waiters st' v = Some wt \<Longrightarrow> el_loops st (wt_loop wt) \<noteq> None \<and> pending_ok st' v wt"
    and "reg (el_kernel st') \<subseteq> dom (el_waiters st')"
  shows "server_wf reg st'"
  using assms by (simp add: server_wf_def)

lemma server_wfD:
  assumes "server_wf reg st"
  shows "el_mem st Html_data = HTML" "requests st w = Some r \<Longrightarrow> request_ok st w r"
    "el_waiters st w = Some wt \<Longrightarrow> el_loops st (wt_loop wt) \<noteq> None"
    "el_waiters st w = Some wt \<Longrightarrow> pending_ok st w wt" "reg (el_kernel st) \<subseteq> dom (el_waiters st)"
  using assms by (auto simp: server_wf_def)

lemma same_requests [simp]:
  "request_ok (st\<lparr>el_kernel := k\<rparr>) = request_ok st" "request_ok (st\<lparr>el_errno := e\<rparr>) = request_ok st"
  "response_ok (st\<lparr>el_kernel := k\<rparr>) = response_ok st" "response_ok (st\<lparr>el_errno := e\<rparr>) = response_ok st"
  "request_ok (st\<lparr>el_loops := ls\<rparr>) = request_ok st" "write_cb_ok (st\<lparr>el_loops := ls\<rparr>) = write_cb_ok st"
  "response_ok (st\<lparr>requests := rs\<rparr>) = response_ok st" "response_ok (st\<lparr>el_waiters := ws\<rparr>) = response_ok st"
  "write_cb_ok (st\<lparr>el_kernel := k\<rparr>) = write_cb_ok st" "write_cb_ok (st\<lparr>el_errno := e\<rparr>) = write_cb_ok st"
  "write_cb_ok (st\<lparr>el_waiters := ws\<rparr>) = write_cb_ok st"
  by (auto simp: fun_eq_iff request_ok_def write_cb_ok_def response_ok_def)

lemma same_waiters [simp]:
  "pending_ok (st\<lparr>el_kernel := k\<rparr>) = pending_ok st" "pending_ok (st\<lparr>el_errno := e\<rparr>) = pending_ok st"
  "pending_ok (st\<lparr>el_waiters := ws\<rparr>) = pending_ok st" "pending_ok (st\<lparr>el_loops := ls\<rparr>) = pending_ok st"
  by (simp_all add: fun_eq_iff pending_ok_def cong: option.case_cong wait_type.case_cong)

lemma server_wf_kernel [simp]:
  "server_wf reg st \<Longrightarrow> reg k \<subseteq> reg (el_kernel st) \<Longrightarrow> server_wf reg (st\<lparr>el_kernel := k\<rparr>)"
  by (auto simp: server_wf_def)

lemma server_wf_errno [simp]: "server_wf reg (st\<lparr>el_errno := e\<rparr>) = server_wf reg st"
  by (simp add: server_wf_def)

lemma server_wf_request:
  assumes "server_wf reg st" "requests st w = Some r" "url_fits r'" "response_ok st r \<Longrightarrow> response_ok st r'"
  shows "server_wf reg (st\<lparr>requests := (requests st)(w \<mapsto> r')\<rparr>)" (is "server_wf reg ?st")
proof -
  have cb: "write_cb_ok st v cb \<Longrightarrow> write_cb_ok ?st v cb" for v cb
    using assms(2,4) by (auto simp: write_cb_ok_def)
  have "request_ok ?st v r0" if "requests ?st v = Some r0" for v r0
    using that server_wfD(2) [OF assms(1), of v] assms(2,3) by (auto simp: request_ok_def split: if_splits)
  moreover have "pending_ok ?st v wt" if "el_waiters st v = Some wt" for v wt
    by (rule pending_ok_mono [OF server_wfD(4) [OF assms(1) that]]) (use cb in auto)
  ultimately show ?thesis using assms(1) by (simp add: server_wf_def)
qed

lemma server_wf_waiter:
  assumes "server_wf reg st" "el_waiters st w = Some wt" "wt_loop wt' = wt_loop wt" "pending_ok st w wt'"
  shows "server_wf reg (st\<lparr>el_waiters := (el_waiters st)(w \<mapsto> wt')\<rparr>)"
  using assms by (auto simp: server_wf_def request_ok_def)

lemma server_wf_mem:
  assumes "server_wf reg st" "b \<noteq> Html_data" "length bs = length (el_mem st b)"
  shows "server_wf reg (st\<lparr>el_mem := (el_mem st)(b := bs)\<rparr>)" (is "server_wf reg ?st")
proof -
  have cb: "write_cb_ok st v cb \<Longrightarrow> write_cb_ok ?st v cb" for v cb
    using assms(3) by (auto simp: write_cb_ok_def response_ok_def)
  have "pending_ok ?st v wt" if "el_waiters st v = Some wt" for v wt
    by (rule pending_ok_mono [OF server_wfD(4) [OF assms(1) that]]) (use cb assms(3) in auto)
  then show ?thesis using assms by (auto simp: server_wf_def request_ok_def)
qed

lemma server_wf_free:
  assumes "server_wf reg st" "w \<notin> reg (el_kernel st)"
  shows "server_wf reg (st\<lparr>requests := (requests st)(w := None), el_waiters := (el_waiters st)(w := None)\<rparr>)" (is "server_wf reg ?st")
proof -
  have "pending_ok ?st v wt" if "el_waiters st v = Some wt" "v \<noteq> w" for v wt
    by (rule pending_ok_mono [OF server_wfD(4) [OF assms(1) that(1)]]) (use that(2) in \<open>auto simp: write_cb_ok_def\<close>)
  then show ?thesis using assms by (auto simp: server_wf_def request_ok_def)
qed

lemma server_wf_new:
  assumes "server_wf reg st" "el_waiters st a = None" "el_loops st l \<noteq> None" "length (er_url g) = URL_SIZE"
  shows "server_wf reg (st\<lparr>requests := (requests st)(a \<mapsto> g\<lparr>er_sock := sock, er_url_length := 0, er_done := False, er_parser := p\<rparr>),
    el_waiters := (el_waiters st)(a \<mapsto> raw_waiter\<lparr>wt_loop := l, wt_fd := fd\<rparr>),
    el_mem := (el_mem st)(Read_buffer a := replicate BUFFER_SIZE 0, Sendf_buffer a := replicate BUFFER_SIZE 0)\<rparr>)" (is "server_wf reg ?st")
proof -
  have none: "requests st a = None" using assms(2) server_wfD(2) [OF assms(1), of a] by (cases "requests st a") (auto simp: request_ok_def)
  have "write_cb_ok st v cb \<Longrightarrow> v \<noteq> a \<Longrightarrow> write_cb_ok ?st v cb" for v cb by (auto simp: write_cb_ok_def response_ok_def)
  then have "pending_ok ?st v wt" if "el_waiters st v = Some wt" "v \<noteq> a" for v wt
    using server_wfD(4) [OF assms(1) that(1)] that(2)
    by (auto simp: pending_ok_def split: option.splits wait_type.splits)
  moreover have "pending_ok ?st a (raw_waiter\<lparr>wt_loop := l, wt_fd := fd\<rparr>)" by (simp add: pending_ok_def raw_waiter_def)
  moreover have "request_ok ?st v r" if "requests ?st v = Some r" for v r
    using that server_wfD(2) [OF assms(1), of v r] assms(4) by (auto simp: request_ok_def url_fits_def split: if_splits)
  ultimately show ?thesis
    using assms(1,3) by (intro server_wfI [OF assms(1)]) (auto simp: server_wf_def raw_waiter_def split: if_splits)
qed

section \<open>Steps\<close>

text \<open>A state in which the same waiters exist, the others as settled as before, and no more can be reported.\<close>

definition stage :: "('k \<Rightarrow> nat set) \<Rightarrow> nat \<Rightarrow> ('k, 'p) server \<Rightarrow> ('k, 'p) server \<Rightarrow> bool" where
  "stage reg w st st1 \<longleftrightarrow> el_loops st1 = el_loops st \<and> dom (el_waiters st1) = dom (el_waiters st) \<and>
     (\<forall>v. v \<noteq> w \<longrightarrow> el_waiters st1 v = el_waiters st v) \<and> reg (el_kernel st1) \<subseteq> insert w (reg (el_kernel st))"

lemma stage_refl [simp]: "stage reg w st st"
  by (auto simp: stage_def)

lemma stage_same [simp]:
  "stage reg w st0 (st\<lparr>el_errno := e\<rparr>) = stage reg w st0 st" "stage reg w st0 (st\<lparr>el_mem := m\<rparr>) = stage reg w st0 st"
  "stage reg w st0 (st\<lparr>requests := rs\<rparr>) = stage reg w st0 st"
  "reg k \<subseteq> reg (el_kernel st) \<Longrightarrow> stage reg w st0 st \<Longrightarrow> stage reg w st0 (st\<lparr>el_kernel := k\<rparr>)"
  unfolding stage_def by (simp_all, blast)

lemma stage_other: "stage reg w st st1 \<Longrightarrow> v \<noteq> w \<Longrightarrow> el_waiters st1 v = el_waiters st v \<and> (v \<in> reg (el_kernel st1) \<longrightarrow> v \<in> reg (el_kernel st))"
  by (auto simp: stage_def)

lemma stage_done:
  assumes "stage reg w st st1" "done_by reg w st1 st2"
  shows "done_by reg w st st2"
proof -
  have "settled st2 v" if "settled st v" for v
  proof (cases "v = w")
    case False
    with that stage_other [OF assms(1), of v] have "settled st1 v" by (simp add: settled_def)
    with assms(2) show ?thesis by (simp add: done_by_def)
  qed (use assms(2) in \<open>simp add: done_by_def\<close>)
  moreover have "el_waiters st2 v \<noteq> None \<and> (v \<in> reg (el_kernel st2) \<longrightarrow> v \<in> reg (el_kernel st))"
    if "v \<noteq> w" "el_waiters st v \<noteq> None" for v
    using assms(2) stage_other [OF assms(1) that(1)] that by (simp add: done_by_def)
  ultimately show ?thesis using assms by (simp add: done_by_def stage_def)
qed

lemma stage_outcome: "stage reg w st st1 \<Longrightarrow> outcome reg cb w st1 st2 \<Longrightarrow> outcome reg cb w st st2"
  by (auto simp: outcome_def intro: stage_done)

lemma done_by_trans: "done_by reg w st st1 \<Longrightarrow> done_by reg w st1 st2 \<Longrightarrow> done_by reg w st st2"
  unfolding done_by_def by simp

lemma stage_settled:
  assumes "stage reg w st st1" "server_wf reg st1" "el_waiters st1 w = Some wt" "wt_type wt \<noteq> None"
  shows "outcome reg cb w st st1"
  using stage_other [OF assms(1)] assms(2-4) by (simp add: outcome_def done_by_def settled_def) (metis assms(1,3,4) option.inject stage_def)

lemma wf_live: "server_wf reg st \<Longrightarrow> requests st w = Some r \<Longrightarrow> \<exists>wt. el_waiters st w = Some wt"
  using server_wfD(2) [of reg st w r] by (auto simp: request_ok_def)

text \<open>Calls of the kernel.\<close>

lemma ev_call_cases:
  assumes "call_ok reg P call"
  obtains (failed) k e where "ev_call call st = (None, st\<lparr>el_kernel := k, el_errno := e\<rparr>)" "reg k \<subseteq> reg (el_kernel st)" "0 < e"
    "call (el_kernel st) = (Inl e, k)"
  | (returned) x k where "ev_call call st = (Some x, st\<lparr>el_kernel := k\<rparr>)" "reg k \<subseteq> reg (el_kernel st)" "P x"
proof -
  obtain r k where k: "call (el_kernel st) = (r, k)" by (meson surj_pair)
  have "reg (snd (call (el_kernel st))) \<subseteq> reg (el_kernel st)" "case fst (call (el_kernel st)) of Inl e \<Rightarrow> 0 < e | Inr x \<Rightarrow> P x"
    using assms by (simp_all add: call_ok_def quiet_def)
  with k have "reg k \<subseteq> reg (el_kernel st)" "case r of Inl e \<Rightarrow> 0 < e | Inr x \<Rightarrow> P x" by simp_all
  with k that show thesis by (cases r) (simp_all add: ev_call_def)
qed

lemma env_okD:
  assumes "env_ok reg env"
  shows "epoll_ok reg (sv_os env)" "call_ok reg (\<lambda>bytes. length bytes \<le> len) (io_recv (sv_io env) fd len flags)"
    "call_ok reg (\<lambda>n. n \<le> length buf) (io_send (sv_io env) fd buf flags)" "call_ok reg (\<lambda>_. True) (io_accept4 (sv_io env) fd aflags)"
    "call_ok reg (\<lambda>e. 0 \<le> e) (io_getsockopt (sv_io env) fd)" "quiet reg (sv_close env fd)"
    "quiet reg (sv_setsockopt_reuseport env fd)" "quiet reg (sv_malloc env used)"
    "fst (sv_malloc env used k) = Some (a, g) \<Longrightarrow> a \<notin> used \<and> length (er_url g) = URL_SIZE"
    "quiet reg (lc_time (sv_libc env))" "lc_asctime_r (sv_libc env) tm \<noteq> Some []"
    "parsing (sv_http env) r (case parse (sv_http env) p bs r of Inl f \<Rightarrow> Inl f | Inr (_, _, r') \<Rightarrow> Inr r')"
  using assms by (auto simp: env_ok_def)

lemma quietD: "quiet reg call \<Longrightarrow> call k = (x, k') \<Longrightarrow> reg k' \<subseteq> reg k"
  by (metis quiet_def snd_conv)

text \<open>A call without which the server gives up.\<close>

lemma exit_unless_ok:
  assumes "quiet reg call" "\<And>x k. reg k \<subseteq> reg (el_kernel st) \<Longrightarrow> safely env Q (f (x, st\<lparr>el_kernel := k\<rparr>))"
  shows "safely env Q (andthen (exit_unless call st) f)"
proof -
  obtain r k where k: "call (el_kernel st) = (r, k)" by (meson surj_pair)
  with assms(2) [OF quietD [OF assms(1) k]] show ?thesis by (cases r) (simp_all add: exit_unless_def ev_call_def)
qed

lemma arm_safely:
  assumes "epoll_ok reg (sv_os env)" "server_wf reg st" "el_waiters st w = Some wt" "wt_type wt \<noteq> None" "stage reg w st0 st"
    and "outcome reg cb w st0 = Q"
  shows "safely env Q (arm_waiter (sv_os env) w events st)"
proof -
  obtain lp where lp: "el_loops st (wt_loop wt) = Some lp" using server_wfD(3) [OF assms(2,3)] by auto
  let ?ev = "\<lparr>ev_events = events OR EPOLLET OR EPOLLONESHOT, ev_data = w\<rparr>"
  obtain r k where k: "os_epoll_ctl (sv_os env) (lp_epoll_fd lp) EPOLL_CTL_ADD (wt_fd wt) (Some ?ev) (el_kernel st) = (r, k)"
    by (meson surj_pair)
  have "reg (snd (os_epoll_ctl (sv_os env) (lp_epoll_fd lp) EPOLL_CTL_ADD (wt_fd wt) (Some ?ev) (el_kernel st))) \<subseteq>
      reg (el_kernel st) \<union> ev_data ` set_option (Some ?ev)"
    using assms(1) unfolding epoll_ok_def by blast
  then have sub: "reg k \<subseteq> insert w (reg (el_kernel st))" using k by auto
  have "server_wf reg (st\<lparr>el_kernel := k\<rparr>)" using assms(2,3) sub by (auto simp: server_wf_def)
  moreover have "stage reg w st0 (st\<lparr>el_kernel := k\<rparr>)" using assms(5) sub by (auto simp: stage_def)
  ultimately have "outcome reg cb w st0 (st\<lparr>el_kernel := k\<rparr>)" using assms(3,4) by (intro stage_settled) auto
  with k lp assms(3,6) show ?thesis by (simp add: arm_waiter_def waiter_at_def loop_at_def)
qed

lemma arm_after_failure:
  assumes "epoll_ok reg (sv_os env)" "server_wf reg st" "el_waiters st w = Some wt" "stage reg w st0 st"
    and "reg k \<subseteq> reg (el_kernel st)" "wt_loop wt' = wt_loop wt" "wt_type wt' \<noteq> None" "pending_ok st w wt'"
  shows "safely env (outcome reg cb w st0)
    (arm_waiter (sv_os env) w events (st\<lparr>el_kernel := k, el_errno := e, el_waiters := (el_waiters st)(w \<mapsto> wt')\<rparr>))"
    (is "safely _ _ (arm_waiter _ _ _ ?st)")
proof -
  have "server_wf reg (st\<lparr>el_kernel := k, el_errno := e\<rparr>)" using assms(2,5) by simp
  from server_wf_waiter [OF this, of w wt wt'] assms(3,6,8) have "server_wf reg ?st" by simp
  moreover have "stage reg w st0 ?st" using assms(3-5) by (auto simp: stage_def)
  ultimately show ?thesis using assms(7) by (intro arm_safely [OF assms(1), where wt = wt']) simp_all
qed

lemma request_done_ok:
  assumes "env_ok reg env" "server_wf reg st" "requests st w \<noteq> None" "w \<notin> reg (el_kernel st)" "stage reg w st0 st"
  shows "safely env (done_by reg w st0) (request_done env w result st)"
proof -
  have "done_by reg w st0 (st\<lparr>el_kernel := k, requests := (requests st)(w := None), el_waiters := (el_waiters st)(w := None)\<rparr>)"
    if "reg k \<subseteq> reg (el_kernel st)" for k
  proof -
    have "w \<notin> reg (el_kernel (st\<lparr>el_kernel := k\<rparr>))" using assms(4) that by auto
    from server_wf_free [OF server_wf_kernel [OF assms(2) that] this]
    have "done_by reg w st (st\<lparr>el_kernel := k, requests := (requests st)(w := None), el_waiters := (el_waiters st)(w := None)\<rparr>)"
      using that by (auto simp: done_by_def settled_def)
    with stage_done [OF assms(5)] show ?thesis .
  qed
  then show ?thesis
    using assms(3) by (auto simp: request_done_def request_at_def intro!: exit_unless_ok [OF env_okD(6) [OF assms(1)]])
qed

section \<open>The parser\<close>

lemma put_bytes_length: "put_bytes a i bs = Inr u \<Longrightarrow> length u = length a"
  by (auto simp: put_bytes_def split: if_splits)

lemma put_bytes_fault: "put_bytes a i bs = Inl f \<Longrightarrow> f = Out_of_bounds"
  by (simp add: put_bytes_def split: if_splits)

lemma parsing_keeps:
  "parsing lib r x \<Longrightarrow> url_fits r \<Longrightarrow>
   case x of Inl f \<Rightarrow> f = Out_of_bounds | Inr r' \<Rightarrow> url_fits r' \<and> er_response_data r' = er_response_data r \<and>
     er_response_length r' = er_response_length r \<and> er_on_response_done r' = er_on_response_done r"
proof (induction rule: parsing.induct)
  case (url r1 f e r2)
  then have "er_url_length r1 + length f < size_max" by (simp add: url_fits_def URL_SIZE_def size_max_def)
  with url show ?case
    by (auto simp: on_parse_url_def andthen_eq_Inr_iff url_fits_def put_bytes_length split: if_splits)
next
  case (url_fault r1 f x)
  then show ?case by (auto simp: on_parse_url_def andthen_eq_Inl_iff split: if_splits dest: put_bytes_fault)
next
  case (complete r1 p e r2)
  then show ?case by (auto simp: on_parse_done_def andthen_eq_Inr_iff url_fits_def put_bytes_length)
next
  case (complete_fault r1 p x)
  then show ?case by (auto simp: on_parse_done_def andthen_eq_Inl_iff dest: put_bytes_fault)
qed (simp add: url_fits_def)

lemma parse_ok:
  fixes st :: "('k, 'p) server"
  assumes "env_ok reg env" "url_fits r"
  shows "safely env (\<lambda>(n, p', r'). url_fits r' \<and> response_ok st r' = response_ok st r) (parse (sv_http env) p bs r)"
proof (cases "parse (sv_http env) p bs r")
  case (Inl f)
  with parsing_keeps [OF env_okD(12) [OF assms(1), of r p bs] assms(2)] have "f = Out_of_bounds" by simp
  with Inl show ?thesis by (auto simp: stops_def)
next
  case (Inr y)
  with parsing_keeps [OF env_okD(12) [OF assms(1), of r p bs] assms(2)] show ?thesis by (cases y) (simp add: response_ok_def)
qed

section \<open>Callbacks\<close>

text \<open>What an operation that may complete at once leaves: an error and nothing done, or what its callback leaves.\<close>

definition attempt :: "('k \<Rightarrow> nat set) \<Rightarrow> nat \<Rightarrow> ('k, 'p) server \<Rightarrow> int \<times> ('k, 'p) server \<Rightarrow> bool" where
  "attempt reg w st = (\<lambda>(result, st'). if result < 0
     then server_wf reg st' \<and> requests st' w \<noteq> None \<and> w \<notin> reg (el_kernel st') \<and> stage reg w st st'
     else done_by reg w st st')"

lemma attempt_finish:
  assumes "safely env (attempt reg w st) m" "env_ok reg env"
  shows "safely env (done_by reg w st) (andthen m (\<lambda>(result, st'). if result < 0 then request_done env w result st' else Inr st'))"
  using assms(1)
proof (rule safely_andthen)
  fix x assume "attempt reg w st x"
  then show "safely env (done_by reg w st) (case x of (result, st') \<Rightarrow> if result < 0 then request_done env w result st' else Inr st')"
    by (cases x) (auto simp: attempt_def intro!: request_done_ok [OF assms(2)])
qed

text \<open>The library's view of its client: calling a callback that is ready leaves the server in order.\<close>

locale sound_callbacks =
  fixes reg :: "'k \<Rightarrow> nat set" and env :: "('k, 'p, 'tm) env" and run :: "('k, 'p) server_runner"
  assumes run_ok: "env_ok reg env \<Longrightarrow> server_wf reg st \<Longrightarrow> ready reg st cb w result \<Longrightarrow>
    safely env (outcome reg cb w st) (run cb w b result st)"
begin

lemma run_done:
  assumes "env_ok reg env" "server_wf reg st" "ready reg st cb w result" "stage reg w st0 st"
  shows "safely env (done_by reg w st0) (run cb w b result st)"
  by (rule safely_mono [OF run_ok [OF assms(1-3)]]) (auto simp: outcome_def intro: stage_done [OF assms(4)])

lemma async_send_ok:
  assumes env: "env_ok reg env" and wf: "server_wf reg st" and free: "w \<notin> reg (el_kernel st)" and st0: "stage reg w st0 st"
    and cb: "write_cb_ok st w cb" and b: "b \<in> {Sendf_buffer w, Html_data, Empty_data}" "len \<le> length (el_mem st b)"
  shows "safely env (attempt reg w st0) (async_send_cb run (sv_os env) (sv_io env) w b len flags cb st)"
proof -
  obtain r where r: "requests st w = Some r" using cb by (auto simp: write_cb_ok_def)
  obtain wt where wt: "el_waiters st w = Some wt" using wf_live [OF wf r] by blast
  let ?bytes = "take len (el_mem st b)"
  from env_okD(3) [OF env, where buf = ?bytes and fd = "wt_fd wt" and flags = flags] show ?thesis
  proof (cases rule: ev_call_cases [where st = st])
    case (failed k e)
    let ?wt = "wt\<lparr>wt_type := Some WAIT_WRITE, wt_cb := Some cb, wt_flags := flags, wt_buffer := Some b, wt_length := len,
      wt_num_written := 0\<rparr>"
    let ?st = "st\<lparr>el_kernel := k, el_errno := e, el_waiters := (el_waiters st)(w \<mapsto> ?wt)\<rparr>"
    have "safely env (outcome reg cb w st0) (arm_waiter (sv_os env) w EPOLLOUT ?st)"
      using cb b by (intro arm_after_failure [OF env_okD(1) [OF env] wf wt st0 failed(2)]) (simp_all add: pending_ok_def)
    then have "safely env (attempt reg w st0) (andthen (arm_waiter (sv_os env) w EPOLLOUT ?st) (\<lambda>st. Inr (0, st)))"
      by (rule safely_andthen) (simp add: attempt_def outcome_def)
    moreover have "attempt reg w st0 (- e, st\<lparr>el_kernel := k, el_errno := e\<rparr>)" if "0 < e"
      using that wf free st0 failed(2) r by (auto simp: attempt_def)
    ultimately show ?thesis using wt b(2) failed
      by (auto simp: async_send_cb_def waiter_at_def read_mem_def set_waiter_def)
  next
    case (returned n k)
    have cbs: "cb \<in> {Next_request, Request_done, Send_http_response_helper}" using cb by (auto simp: write_cb_ok_def)
    then have "ready reg (st\<lparr>el_kernel := k\<rparr>) cb w (int n)" using free returned(2) cb by (auto simp: ready_def)
    moreover have "stage reg w st0 (st\<lparr>el_kernel := k\<rparr>)" using st0 returned(2) by simp
    ultimately have "safely env (done_by reg w st0) (run cb w (Some b) (int n) (st\<lparr>el_kernel := k\<rparr>))"
      using wf returned(2) by (intro run_done [OF env]) simp_all
    then have "safely env (attempt reg w st0) (andthen (run cb w (Some b) (int n) (st\<lparr>el_kernel := k\<rparr>)) (\<lambda>st. Inr (int n, st)))"
      by (rule safely_andthen) (simp add: attempt_def)
    with wt b(2) returned show ?thesis by (simp add: async_send_cb_def waiter_at_def read_mem_def)
  qed
qed

lemma recv_request_ok:
  assumes env: "env_ok reg env" and wf: "server_wf reg st" and r: "requests st w = Some r"
    and free: "w \<notin> reg (el_kernel st)" and st0: "stage reg w st0 st"
  shows "safely env (attempt reg w st0) (recv_request run env w st)"
proof -
  obtain wt where wt: "el_waiters st w = Some wt" using wf_live [OF wf r] by blast
  from env_okD(2) [OF env, where len = BUFFER_SIZE and fd = "wt_fd wt" and flags = 0] show ?thesis
  proof (cases rule: ev_call_cases [where st = st])
    case (failed k e)
    let ?wt = "wt\<lparr>wt_type := Some WAIT_READ, wt_cb := Some On_read, wt_flags := 0, wt_buffer := Some (Read_buffer w),
      wt_length := BUFFER_SIZE\<rparr>"
    let ?st = "st\<lparr>el_kernel := k, el_errno := e, el_waiters := (el_waiters st)(w \<mapsto> ?wt)\<rparr>"
    have "safely env (outcome reg On_read w st0) (arm_waiter (sv_os env) w EPOLLIN ?st)"
      using r by (intro arm_after_failure [OF env_okD(1) [OF env] wf wt st0 failed(2)]) (simp_all add: pending_ok_def)
    then have "safely env (attempt reg w st0) (andthen (arm_waiter (sv_os env) w EPOLLIN ?st) (\<lambda>st. Inr (0, st)))"
      by (rule safely_andthen) (simp add: attempt_def outcome_def)
    moreover have "attempt reg w st0 (- e, st\<lparr>el_kernel := k, el_errno := e\<rparr>)" if "0 < e"
      using that wf free st0 failed(2) r by (auto simp: attempt_def)
    ultimately show ?thesis using wt failed
      by (auto simp: recv_request_def async_recv_cb_def waiter_at_def set_waiter_def)
  next
    case (returned bytes k)
    have len: "length bytes \<le> length (el_mem st (Read_buffer w))"
      using server_wfD(2) [OF wf r] returned(3) by (simp add: request_ok_def)
    let ?m = "bytes @ drop (length bytes) (el_mem st (Read_buffer w))"
    let ?st = "st\<lparr>el_kernel := k, el_mem := (el_mem st)(Read_buffer w := ?m)\<rparr>"
    have put: "write_mem (Read_buffer w) bytes (st\<lparr>el_kernel := k\<rparr>) = Inr ?st"
      using len by (simp add: write_mem_def put_bytes_def)
    have "server_wf reg ?st"
      using server_wf_mem [OF server_wf_kernel [OF wf returned(2)], of "Read_buffer w" ?m] len by simp
    moreover have "ready reg ?st On_read w (int (length bytes))"
      using free returned(2,3) r by (auto simp: ready_def)
    moreover have "stage reg w st0 ?st" using st0 returned(2) by simp
    ultimately have "safely env (done_by reg w st0) (run On_read w (Some (Read_buffer w)) (int (length bytes)) ?st)"
      by (intro run_done [OF env])
    then have "safely env (attempt reg w st0)
        (andthen (run On_read w (Some (Read_buffer w)) (int (length bytes)) ?st) (\<lambda>st. Inr (int (length bytes), st)))"
      by (rule safely_andthen) (simp add: attempt_def)
    with wt put returned show ?thesis by (simp add: recv_request_def async_recv_cb_def waiter_at_def)
  qed
qed

text \<open>Responses.\<close>

lemma helper_ok:
  assumes "env_ok reg env" "server_wf reg st" "w \<notin> reg (el_kernel st)" "write_cb_ok st w Send_http_response_helper"
  shows "safely env (done_by reg w st) (send_http_response_helper run env w result st)"
proof -
  obtain r where r: "requests st w = Some r" "response_ok st r" using assms(4) by (auto simp: write_cb_ok_def)
  then have "write_cb_ok st w (er_on_response_done r)" by (auto simp: write_cb_ok_def response_ok_def)
  from async_send_ok [OF assms(1-3) stage_refl this, of "er_response_data r" "er_response_length r" MSG_NOSIGNAL] r(2)
  have "safely env (attempt reg w st) (async_send_cb run (sv_os env) (sv_io env) w (er_response_data r)
      (er_response_length r) MSG_NOSIGNAL (er_on_response_done r) st)"
    by (auto simp: response_ok_def)
  from attempt_finish [OF this assms(1)] r(1) show ?thesis
    by (simp add: send_http_response_helper_def request_at_def)
qed

lemma sendf_ok:
  assumes env: "env_ok reg env" and wf: "server_wf reg st" and free: "w \<notin> reg (el_kernel st)" and st0: "stage reg w st0 st"
    and r: "requests st w = Some r" "response_ok st r"
  shows "safely env (attempt reg w st0) (sendf_cb run env w Send_http_response_helper txt st)"
proof -
  let ?bytes = "snd (vsnprintf BUFFER_SIZE txt)" and ?b = "Sendf_buffer w"
  have len: "length ?bytes \<le> length (el_mem st ?b)"
    using server_wfD(2) [OF wf r(1)] by (simp add: request_ok_def vsnprintf_def bytes_of_def BUFFER_SIZE_def)
  let ?m = "?bytes @ drop (length ?bytes) (el_mem st ?b)"
  let ?st = "st\<lparr>el_mem := (el_mem st)(?b := ?m)\<rparr>"
  let ?len = "if length txt \<ge> BUFFER_SIZE then BUFFER_SIZE else length txt"
  have put: "write_mem ?b ?bytes st = Inr ?st" using len by (simp add: write_mem_def put_bytes_def)
  have wf': "server_wf reg ?st" using server_wf_mem [OF wf, of ?b ?m] len by simp
  have cb: "write_cb_ok ?st w Send_http_response_helper" using r by (auto simp: write_cb_ok_def response_ok_def)
  have "length ?m = BUFFER_SIZE" using server_wfD(2) [OF wf r(1)] len by (simp add: request_ok_def)
  then have "safely env (attempt reg w st0) (async_send_cb run (sv_os env) (sv_io env) w ?b ?len MSG_NOSIGNAL Send_http_response_helper ?st)"
    using free st0 by (intro async_send_ok [OF env wf' _ _ cb]) auto
  with put r(1) show ?thesis
    by (simp add: sendf_cb_def vsnprintf_def request_at_def Let_def)
qed

lemma headers_ok:
  assumes env: "env_ok reg env" and wf: "server_wf reg st" and free: "w \<notin> reg (el_kernel st)" and st0: "stage reg w st0 st"
    and r: "requests st w = Some r" "response_ok st r"
  shows "safely env (attempt reg w st0) (send_http_headers_cb run env w status len content_type keep Send_http_response_helper st)"
proof -
  obtain now k where k: "lc_time (sv_libc env) (el_kernel st) = (now, k)" by (meson surj_pair)
  have sub: "reg k \<subseteq> reg (el_kernel st)" by (rule quietD [OF env_okD(10) [OF env] k])
  have "safely env (attempt reg w st0) (sendf_cb run env w Send_http_response_helper msg (st\<lparr>el_kernel := k\<rparr>))" for msg
    using wf free st0 r sub by (intro sendf_ok [OF env]) auto
  then show ?thesis using k env_okD(11) [OF env]
    by (auto simp: send_http_headers_cb_def date_string_def split: option.split)
qed

lemma response_cb_ok:
  assumes env: "env_ok reg env" and wf: "server_wf reg st" and free: "w \<notin> reg (el_kernel st)" and st0: "stage reg w st0 st"
    and r: "requests st w = Some r" and data: "response_ok st (r\<lparr>er_response_data := data, er_response_length := len, er_on_response_done := cb\<rparr>)"
  shows "safely env (done_by reg w st0) (send_http_response_cb run env w status data len content_type keep cb st)"
proof -
  let ?r = "r\<lparr>er_response_data := data, er_response_length := len, er_on_response_done := cb\<rparr>"
  let ?st = "st\<lparr>requests := (requests st)(w \<mapsto> ?r)\<rparr>"
  have "url_fits ?r" using server_wfD(2) [OF wf r] by (simp add: request_ok_def url_fits_def)
  from server_wf_request [OF wf r this] data have "server_wf reg ?st" by simp
  from headers_ok [OF env this _ _ _, of w st0 ?r status len content_type keep] free st0 data
  have "safely env (attempt reg w st0) (send_http_headers_cb run env w status len content_type keep Send_http_response_helper ?st)"
    by simp
  from attempt_finish [OF this env] r show ?thesis
    by (simp add: send_http_response_cb_def set_request_def request_at_def)
qed

text \<open>Reading.\<close>

lemma recv_finish:
  assumes "env_ok reg env" "server_wf reg st" "requests st w \<noteq> None" "w \<notin> reg (el_kernel st)" "stage reg w st0 st"
  shows "safely env (done_by reg w st0) (andthen (recv_request run env w st)
    (\<lambda>(num_read, st). if num_read < 0 then request_done env w num_read st else Inr st))"
proof -
  obtain r where "requests st w = Some r" using assms(3) by blast
  from attempt_finish [OF recv_request_ok [OF assms(1,2) this assms(4,5)] assms(1)] show ?thesis .
qed

lemma next_request_ok:
  assumes env: "env_ok reg env" and wf: "server_wf reg st" and free: "w \<notin> reg (el_kernel st)" and r: "requests st w = Some r"
  shows "safely env (done_by reg w st) (next_request run env w result st)"
proof -
  let ?r = "r\<lparr>er_url_length := 0, er_done := False\<rparr>"
  have "url_fits ?r" "response_ok st r \<Longrightarrow> response_ok st ?r"
    using server_wfD(2) [OF wf r] by (simp_all add: request_ok_def url_fits_def response_ok_def)
  from server_wf_request [OF wf r this] recv_finish [OF env, of "st\<lparr>requests := (requests st)(w \<mapsto> ?r)\<rparr>" w st] free r
  show ?thesis by (simp add: next_request_def set_request_def request_at_def)
qed

lemma on_read_ok:
  assumes env: "env_ok reg env" and wf: "server_wf reg st" and free: "w \<notin> reg (el_kernel st)" and r: "requests st w = Some r"
    and num: "num_read \<le> int BUFFER_SIZE"
  shows "safely env (done_by reg w st) (on_read run env w num_read st)"
proof -
  note gone = request_done_ok [OF env, where w = w and ?st0.0 = st]
  have fits: "url_fits r" "nat num_read \<le> length (el_mem st (Read_buffer w))"
    using server_wfD(2) [OF wf r] num by (simp_all add: request_ok_def)
  define rest where "rest = (\<lambda>(parsed, parser, request).
     let request = request\<lparr>er_parser := parser\<rparr>; st = st\<lparr>requests := (requests st)(w \<mapsto> request)\<rparr> in
     if int parsed \<noteq> num_read then request_done env w 0 st
     else if parsed = 0 \<and> \<not> er_done request then request_done env w 0 st
     else if \<not> er_done request then
       andthen (recv_request run env w st) (\<lambda>(num_read, st). if num_read < 0 then request_done env w num_read st else Inr st)
     else
       andthen (c_assert (hp_parse_url (sv_http env) (take (er_url_length request) (er_url request)) = 0)) (\<lambda>_.
       let done_cb = (if er_keep_alive request then Next_request else Request_done) in
       if hp_is_get (sv_http env) parser then
         send_http_response_cb run env w ''200 Seek'' Html_data (length HTML) ''text/html'' (er_keep_alive request) done_cb st
       else
         send_http_response_cb run env w ''405 Method Not Allowed'' Empty_data 0 ''text/plain'' (er_keep_alive request) done_cb st))"
  have "safely env (done_by reg w st) (rest (parsed, p, r'))" if ok: "url_fits r'" "response_ok st r' = response_ok st r" for parsed p r'
  proof -
    let ?r = "r'\<lparr>er_parser := p\<rparr>" and ?st = "st\<lparr>requests := (requests st)(w \<mapsto> r'\<lparr>er_parser := p\<rparr>)\<rparr>"
    have "url_fits ?r" "response_ok st r \<Longrightarrow> response_ok st ?r" using ok by (simp_all add: url_fits_def response_ok_def)
    from server_wf_request [OF wf r this] have wf': "server_wf reg ?st" .
    have page: "el_mem st Html_data = HTML" by (rule server_wfD(1) [OF wf])
    have "safely env (done_by reg w st) (send_http_response_cb run env w status data len content_type keep cb ?st)"
      if "(data, len) \<in> {(Html_data, length HTML), (Empty_data, 0)}" "cb \<in> {Next_request, Request_done}" for status data len content_type keep cb
      using that page free by (intro response_cb_ok [OF env wf', where r = ?r]) (auto simp: response_ok_def)
    then show ?thesis using gone [of ?st 0] recv_finish [OF env wf', of w st] wf' free
      by (auto simp: rest_def Let_def)
  qed
  then have "safely env (done_by reg w st) (andthen (parse (sv_http env) (er_parser r) bytes r) rest)" for bytes
    by (intro safely_andthen [OF parse_ok [OF env fits(1)]]) auto
  moreover have "safely env (done_by reg w st) (request_done env w 0 st)" using wf free r by (intro gone) simp_all
  ultimately show ?thesis using r fits(2) unfolding on_read_def rest_def by (simp add: request_at_def read_mem_def)
qed

text \<open>Accepting.\<close>

lemma async_accept_ok:
  assumes env: "env_ok reg env" and wf: "server_wf reg st" and free: "w \<notin> reg (el_kernel st)" and wt: "el_waiters st w = Some wt"
  shows "safely env (\<lambda>(error, st'). error < 0 \<or> outcome reg On_accept w st st')
    (async_accept_cb run (sv_os env) (sv_io env) w On_accept st)"
  using env_okD(4) [OF env, where fd = "wt_fd wt" and aflags = "SOCK_NONBLOCK OR SOCK_CLOEXEC"]
proof (cases rule: ev_call_cases [where st = st])
  case (failed k e)
  let ?wt = "wt\<lparr>wt_type := Some WAIT_ACCEPT, wt_cb := Some On_accept\<rparr>"
  let ?st = "st\<lparr>el_kernel := k, el_errno := e, el_waiters := (el_waiters st)(w \<mapsto> ?wt)\<rparr>"
  have "safely env (outcome reg On_accept w st) (arm_waiter (sv_os env) w EPOLLIN ?st)"
    by (intro arm_after_failure [OF env_okD(1) [OF env] wf wt stage_refl failed(2)]) (simp_all add: pending_ok_def)
  then have "safely env (\<lambda>(error, st'). error < 0 \<or> outcome reg On_accept w st st')
      (andthen (arm_waiter (sv_os env) w EPOLLIN ?st) (\<lambda>st. Inr (0, st)))"
    by (rule safely_andthen) simp
  with wt failed show ?thesis by (auto simp: async_accept_cb_def waiter_at_def set_waiter_def)
next
  case (returned x k)
  obtain sock a where x: "x = (sock, a)" by (cases x)
  have "ready reg (st\<lparr>el_kernel := k\<rparr>) On_accept w sock" using wt free returned(2) by (auto simp: ready_def)
  from run_ok [OF env server_wf_kernel [OF wf returned(2)] this, of None]
  have "safely env (\<lambda>(error, st'). error < 0 \<or> outcome reg On_accept w st st')
      (andthen (run On_accept w None sock (st\<lparr>el_kernel := k\<rparr>)) (\<lambda>st. Inr (sock, st)))"
    by (rule safely_andthen) (use returned(2) in \<open>auto intro: stage_outcome [of _ _ st "st\<lparr>el_kernel := k\<rparr>"]\<close>)
  with wt returned(1) x show ?thesis by (simp add: async_accept_cb_def waiter_at_def)
qed

lemma serve_ok:
  assumes env: "env_ok reg env" and wf: "server_wf reg st" and wt: "el_waiters st w = Some wt" and set: "settled st w"
    and a: "el_waiters st a = None" "length (er_url g) = URL_SIZE"
  shows "safely env (outcome reg On_accept w st) (andthen (new_request env a g (wt_loop wt) sock st) (\<lambda>st.
    andthen (recv_request run env a st) (\<lambda>(num_read, st). if num_read < 0 then Inl Exit_failure else Inr st)))"
proof -
  let ?r = "g\<lparr>er_sock := sock, er_url_length := 0, er_done := False, er_parser := hp_init (sv_http env)\<rparr>"
  let ?st = "st\<lparr>requests := (requests st)(a \<mapsto> ?r), el_waiters := (el_waiters st)(a \<mapsto> raw_waiter\<lparr>wt_loop := wt_loop wt, wt_fd := sock\<rparr>),
    el_mem := (el_mem st)(Read_buffer a := replicate BUFFER_SIZE 0, Sendf_buffer a := replicate BUFFER_SIZE 0)\<rparr>"
  have new: "new_request env a g (wt_loop wt) sock st = Inr ?st"
    by (simp add: new_request_def async_init_waiter_def set_waiter_def waiter_at_def Let_def)
  have "server_wf reg ?st" using server_wf_new [OF wf a(1) server_wfD(3) [OF wf wt] a(2)] .
  moreover have "a \<notin> reg (el_kernel st)" using server_wfD(5) [OF wf] a(1) by auto
  ultimately have "safely env (attempt reg a ?st) (recv_request run env a ?st)" by (intro recv_request_ok [OF env, where r = ?r]) simp_all
  then have "safely env (outcome reg On_accept w st)
      (andthen (recv_request run env a ?st) (\<lambda>(num_read, st). if num_read < 0 then Inl Exit_failure else Inr st))"
  proof (rule safely_andthen)
    fix x assume "attempt reg a ?st x"
    moreover have "outcome reg On_accept w st st'" if d: "done_by reg a ?st st'" for st'
    proof -
      have wa: "w \<noteq> a" using wt a(1) by auto
      have old: "el_waiters st' v \<noteq> None \<and> (v \<in> reg (el_kernel st') \<longrightarrow> v \<in> reg (el_kernel st))" if "el_waiters st v \<noteq> None" for v
      proof -
        have "v \<noteq> a" using that a(1) by auto
        with d that show ?thesis by (auto simp: done_by_def)
      qed
      have "settled st' v" if "settled st v" for v
      proof (cases "v = a")
        case False
        with that have "settled ?st v" by (simp add: settled_def)
        with d show ?thesis by (simp add: done_by_def)
      qed (use d in \<open>simp add: done_by_def\<close>)
      with d old set wt show ?thesis by (simp add: outcome_def done_by_def)
    qed
    ultimately show "safely env (outcome reg On_accept w st) (case x of (num_read, st) \<Rightarrow> if num_read < 0 then Inl Exit_failure else Inr st)"
      by (cases x) (auto simp: attempt_def)
  qed
  with new show ?thesis by simp
qed

lemma on_accept_ok:
  assumes env: "env_ok reg env" and wf: "server_wf reg st" and free: "w \<notin> reg (el_kernel st)" and live: "el_waiters st w \<noteq> None"
  shows "safely env (outcome reg On_accept w st) (on_accept run env w sock st)"
proof -
  obtain wt where wt: "el_waiters st w = Some wt" using live by blast
  have "safely env (outcome reg On_accept w st)
      (let (p, k) = sv_malloc env (dom (el_waiters st1)) k1; st1 = st1\<lparr>el_kernel := k\<rparr> in
       case p of None \<Rightarrow> Inl Assert_fail
       | Some (a, g) \<Rightarrow> andthen (waiter_at w st1) (\<lambda>wt. andthen (new_request env a g (wt_loop wt) sock st1) (\<lambda>st.
           andthen (recv_request run env a st) (\<lambda>(num_read, st). if num_read < 0 then Inl Exit_failure else Inr st))))"
    if o: "outcome reg On_accept w st st1" and k1: "reg k1 \<subseteq> reg (el_kernel st1)" for st1 k1
  proof -
    obtain p k where k: "sv_malloc env (dom (el_waiters st1)) k1 = (p, k)" by (meson surj_pair)
    let ?st = "st1\<lparr>el_kernel := k\<rparr>"
    have sub: "reg k \<subseteq> reg (el_kernel st1)" using quietD [OF env_okD(8) [OF env] k] k1 by blast
    obtain wt1 where wt1: "el_waiters ?st w = Some wt1" using o by (auto simp: outcome_def)
    have wf1: "server_wf reg ?st" "settled ?st w" using o sub by (simp_all add: outcome_def done_by_def settled_def)
    have "safely env (outcome reg On_accept w st) (andthen (new_request env a g (wt_loop wt1) sock ?st) (\<lambda>st.
        andthen (recv_request run env a st) (\<lambda>(num_read, st). if num_read < 0 then Inl Exit_failure else Inr st)))"
      if p: "p = Some (a, g)" for a g
    proof -
      have "a \<notin> dom (el_waiters st1)" "length (er_url g) = URL_SIZE"
        using env_okD(9) [OF env, of "dom (el_waiters st1)" k1 a g] k p by simp_all
      then have "el_waiters ?st a = None" "length (er_url g) = URL_SIZE" by auto
      note served = serve_ok [OF env wf1(1) wt1 wf1(2) this, of sock]
      have "stage reg w st1 ?st" using sub by simp
      from stage_outcome [OF this] o have "outcome reg On_accept w st st2" if "outcome reg On_accept w ?st st2" for st2
        using that by (auto simp: outcome_def intro: done_by_trans stage_done)
      from safely_mono [OF served this] show ?thesis .
    qed
    with k wt1 show ?thesis by (auto simp: waiter_at_def Let_def split: option.split)
  qed
  then show ?thesis unfolding on_accept_def
    by (auto intro!: safely_andthen [OF async_accept_ok [OF env wf free wt]] exit_unless_ok [OF env_okD(7) [OF env]])
qed

lemma run_one_ok:
  assumes env: "env_ok reg env" and wf: "server_wf reg st" and rdy: "ready reg st cb w result"
  shows "safely env (outcome reg cb w st)
    (case cb of
       On_accept \<Rightarrow> on_accept run env w result st
     | On_read \<Rightarrow> on_read run env w result st
     | Send_http_response_helper \<Rightarrow> send_http_response_helper run env w result st
     | Next_request \<Rightarrow> next_request run env w result st
     | Request_done \<Rightarrow> request_done env w result st)"
proof -
  have free: "w \<notin> reg (el_kernel st)" using rdy by (simp add: ready_def)
  have out: "safely env (outcome reg cb w st) m" if "safely env (done_by reg w st) m" "cb \<noteq> On_accept" for m
    using that by (auto simp: outcome_def elim!: safely_mono)
  show ?thesis
  proof (cases cb)
    case On_accept
    with rdy on_accept_ok [OF env wf free] show ?thesis by (simp add: ready_def)
  next
    case On_read
    with rdy obtain r where "requests st w = Some r" "result \<le> int BUFFER_SIZE" by (auto simp: ready_def)
    from out [OF on_read_ok [OF env wf free this]] On_read show ?thesis by simp
  next
    case Send_http_response_helper
    with rdy have "write_cb_ok st w Send_http_response_helper" by (simp add: ready_def)
    from out [OF helper_ok [OF env wf free this]] Send_http_response_helper show ?thesis by simp
  next
    case Next_request
    with rdy obtain r where "requests st w = Some r" by (auto simp: ready_def write_cb_ok_def)
    from out [OF next_request_ok [OF env wf free this]] Next_request show ?thesis by simp
  next
    case Request_done
    with rdy have "requests st w \<noteq> None" by (auto simp: ready_def write_cb_ok_def)
    from out [OF request_done_ok [OF env wf this free stage_refl]] Request_done show ?thesis by simp
  qed
qed

end

section \<open>Events\<close>

text \<open>
  No read or write fails because the client has gone. Without this the library arms waiters that
  its callbacks have freed (\<open>client_reset_use_after_free\<close>).
\<close>

definition no_resets :: "('k, 'p, 'tm) env \<Rightarrow> bool" where
  "no_resets env \<longleftrightarrow>
     (\<forall>fd len flags k e. fst (io_recv (sv_io env) fd len flags k) = Inl e \<longrightarrow> e \<noteq> EPIPE \<and> e \<noteq> ECONNRESET) \<and>
     (\<forall>fd bytes flags k e. fst (io_send (sv_io env) fd bytes flags k) = Inl e \<longrightarrow> e \<noteq> EPIPE \<and> e \<noteq> ECONNRESET)"

lemma no_resetsD:
  assumes "no_resets env"
  shows "io_recv (sv_io env) fd len flags k = (Inl e, k') \<Longrightarrow> e \<noteq> EPIPE \<and> e \<noteq> ECONNRESET"
    "io_send (sv_io env) fd bytes flags k = (Inl e, k') \<Longrightarrow> e \<noteq> EPIPE \<and> e \<noteq> ECONNRESET"
  using assms unfolding no_resets_def by (metis fst_conv)+

lemma write_ready: "write_cb_ok st w cb \<Longrightarrow> w \<notin> reg (el_kernel st) \<Longrightarrow> ready reg st cb w result"
  by (auto simp: ready_def write_cb_ok_def)

lemma socket_errno_ok:
  assumes "env_ok reg env"
  obtains e k e' where "socket_errno_cb (sv_io env) fd st = (e, st\<lparr>el_kernel := k, el_errno := e'\<rparr>)" "e \<le> 0" "reg k \<subseteq> reg (el_kernel st)"
proof -
  from env_okD(5) [OF assms, of fd] show thesis
  proof (cases rule: ev_call_cases [where st = st])
    case (failed k e)
    then show thesis by (intro that [where e = "- e" and k = k and e' = e]) (simp_all add: socket_errno_cb_def)
  next
    case (returned x k)
    then show thesis by (intro that [where e = "- x" and k = k and e' = "el_errno st"]) (simp_all add: socket_errno_cb_def)
  qed
qed

text \<open>Callbacks that end the program on every other failure.\<close>

locale strict_callbacks = sound_callbacks +
  assumes run_failure: "result < 0 \<Longrightarrow> cb = On_accept \<or> result \<notin> {- EPIPE, - ECONNRESET} \<Longrightarrow>
    safely env (\<lambda>_. False) (run cb w b result st)"
begin

lemma call_then_arm:
  assumes "env_ok reg env" "server_wf reg st" "el_waiters st w = Some wt" "wt_type wt \<noteq> None" "wt_cb wt = Some cb" "stage reg w st0 st"
    and "0 < e" "cb = On_accept \<or> e \<noteq> EPIPE \<and> e \<noteq> ECONNRESET"
  shows "safely env (done_by reg w st0) (andthen (if P then call_cb run w b (- e) st else Inr st) (arm_waiter (sv_os env) w events))"
proof (cases P)
  case True
  from run_failure [of "- e" cb w b st] assms(7,8) have "safely env (\<lambda>_. False) (run cb w b (- e) st)" by auto
  with True assms(3,5) show ?thesis by (auto simp: call_cb_def waiter_at_def initialised_def intro: safely_andthen)
next
  case False
  from arm_safely [OF env_okD(1) [OF assms(1)] assms(2-4,6) refl, of On_accept events] False show ?thesis
    by (auto simp: outcome_def elim!: safely_mono)
qed

lemma call_done:
  assumes "env_ok reg env" "server_wf reg st" "el_waiters st w = Some wt" "wt_cb wt = Some cb" "ready reg st cb w result" "stage reg w st0 st"
  shows "safely env (done_by reg w st0) (call_cb run w b result st)"
  using run_done [OF assms(1,2,5,6)] assms(3,4) by (simp add: call_cb_def waiter_at_def initialised_def)

lemma handle_accept_ok:
  assumes env: "env_ok reg env" and wf: "server_wf reg st" and free: "w \<notin> reg (el_kernel st)" and st0: "stage reg w st0 st"
    and wt: "el_waiters st w = Some wt" "wt_type wt = Some WAIT_ACCEPT"
  shows "safely env (done_by reg w st0) (handle_accept run (sv_os env) (sv_io env) events w st)"
proof -
  have cb: "wt_cb wt = Some On_accept" using server_wfD(4) [OF wf wt(1)] wt(2) by (simp add: pending_ok_def)
  have called: "safely env (done_by reg w st0) (call_cb run w None result (st\<lparr>el_kernel := k, el_errno := e\<rparr>))"
    if "reg k \<subseteq> reg (el_kernel st)" for k e result
    using that wf free wt st0 by (intro call_done [OF env _ _ cb]) (auto simp: ready_def)
  obtain e k e' where err: "socket_errno_cb (sv_io env) (wt_fd wt) st = (e, st\<lparr>el_kernel := k, el_errno := e'\<rparr>)"
      "reg k \<subseteq> reg (el_kernel st)"
    using socket_errno_ok [OF env] by metis
  from env_okD(4) [OF env, where fd = "wt_fd wt" and aflags = "SOCK_NONBLOCK OR SOCK_CLOEXEC"] show ?thesis
  proof (cases rule: ev_call_cases [where st = st])
    case (failed k1 e1)
    have "safely env (done_by reg w st0) (andthen (if P then call_cb run w None (- e1) (st\<lparr>el_kernel := k1, el_errno := e1\<rparr>)
        else Inr (st\<lparr>el_kernel := k1, el_errno := e1\<rparr>)) (arm_waiter (sv_os env) w EPOLLIN))" for P
      using call_then_arm [OF env _ _ _ cb, of "st\<lparr>el_kernel := k1, el_errno := e1\<rparr>" w st0 e1 P None EPOLLIN] wf failed(2,3) wt st0 by simp
    from this [of True] this [of False] failed(1) err called [OF err(2)] wt(1) show ?thesis
      by (auto simp: handle_accept_def waiter_at_def)
  next
    case (returned x k1)
    obtain sock a where "x = (sock, a)" by (cases x)
    with returned err called [OF err(2)] called [OF returned(2), of sock "el_errno st"] wt(1) show ?thesis
      by (simp add: handle_accept_def waiter_at_def)
  qed
qed

lemma handle_read_ok:
  assumes env: "env_ok reg env" and calm: "no_resets env" and wf: "server_wf reg st" and free: "w \<notin> reg (el_kernel st)"
    and st0: "stage reg w st0 st" and wt: "el_waiters st w = Some wt" "wt_type wt = Some WAIT_READ"
  shows "safely env (done_by reg w st0) (handle_read run (sv_os env) (sv_io env) events w st)"
proof -
  let ?b = "Read_buffer w"
  have p: "requests st w \<noteq> None" "wt_cb wt = Some On_read" "wt_buffer wt = Some ?b" "wt_length wt = BUFFER_SIZE"
    using server_wfD(4) [OF wf wt(1)] wt(2) by (simp_all add: pending_ok_def)
  have size: "length (el_mem st ?b) = BUFFER_SIZE" using p(1) server_wfD(2) [OF wf] by (auto simp: request_ok_def)
  obtain e k e' where err: "socket_errno_cb (sv_io env) (wt_fd wt) st = (e, st\<lparr>el_kernel := k, el_errno := e'\<rparr>)" "e \<le> 0"
      "reg k \<subseteq> reg (el_kernel st)"
    using socket_errno_ok [OF env] by metis
  have "safely env (done_by reg w st0) (call_cb run w (Some ?b) e (st\<lparr>el_kernel := k, el_errno := e'\<rparr>))"
    using wf free wt st0 err(2,3) p(1) by (intro call_done [OF env _ _ p(2)]) (auto simp: ready_def)
  note on_err = this [folded err(1)]
  from env_okD(2) [OF env, where fd = "wt_fd wt" and len = BUFFER_SIZE and flags = "wt_flags wt"] show ?thesis
  proof (cases rule: ev_call_cases [where st = st])
    case (failed k1 e1)
    have "safely env (done_by reg w st0) (andthen (if P then call_cb run w (Some ?b) (- e1) (st\<lparr>el_kernel := k1, el_errno := e1\<rparr>)
        else Inr (st\<lparr>el_kernel := k1, el_errno := e1\<rparr>)) (arm_waiter (sv_os env) w EPOLLIN))" for P
      using call_then_arm [OF env _ _ _ p(2), of "st\<lparr>el_kernel := k1, el_errno := e1\<rparr>" w st0 e1 P "Some ?b" EPOLLIN] wf failed(2,3) wt st0
        no_resetsD(1) [OF calm failed(4)] by simp
    from this [of True] this [of False] failed(1) err(1) on_err wt(1) p(3,4) show ?thesis
      by (auto simp: handle_read_def waiter_at_def initialised_def)
  next
    case (returned bytes k1)
    let ?m = "bytes @ drop (length bytes) (el_mem st ?b)"
    let ?st = "st\<lparr>el_kernel := k1, el_mem := (el_mem st)(?b := ?m)\<rparr>"
    have put: "write_mem ?b bytes (st\<lparr>el_kernel := k1\<rparr>) = Inr ?st"
      using size returned(3) by (simp add: write_mem_def put_bytes_def)
    have "server_wf reg ?st"
      using server_wf_mem [OF server_wf_kernel [OF wf returned(2)], of ?b ?m] size returned(3) by simp
    moreover have "ready reg ?st On_read w (int (length bytes))"
      using free returned(2,3) p(1) by (auto simp: ready_def)
    ultimately have "safely env (done_by reg w st0) (call_cb run w (Some ?b) (int (length bytes)) ?st)"
      using wt st0 returned(2) by (intro call_done [OF env _ _ p(2)]) auto
    with put returned(1) err(1) on_err wt(1) p(3,4) show ?thesis by (simp add: handle_read_def waiter_at_def initialised_def)
  qed
qed

lemma handle_write_ok:
  assumes env: "env_ok reg env" and calm: "no_resets env" and wf: "server_wf reg st" and free: "w \<notin> reg (el_kernel st)"
    and st0: "stage reg w st0 st" and wt: "el_waiters st w = Some wt" "wt_type wt = Some WAIT_WRITE"
  shows "safely env (done_by reg w st0) (handle_write run (sv_os env) (sv_io env) events w st)"
proof -
  obtain cb b where p: "wt_cb wt = Some cb" "wt_buffer wt = Some b" "write_cb_ok st w cb" "wt_num_written wt \<le> wt_length wt"
      "wt_length wt \<le> length (el_mem st b)" "b \<in> {Sendf_buffer w, Html_data, Empty_data}"
    using server_wfD(4) [OF wf wt(1)] wt(2) by (auto simp: pending_ok_def)
  let ?bytes = "take (wt_length wt - wt_num_written wt) (drop (wt_num_written wt) (el_mem st b))"
  have bytes: "read_mem b (wt_num_written wt) (wt_length wt - wt_num_written wt) st = Inr ?bytes"
    using p(4,5) by (simp add: read_mem_def)
  obtain e k e' where err: "socket_errno_cb (sv_io env) (wt_fd wt) st = (e, st\<lparr>el_kernel := k, el_errno := e'\<rparr>)" "e \<le> 0"
      "reg k \<subseteq> reg (el_kernel st)"
    using socket_errno_ok [OF env] by metis
  have on_err: "safely env (done_by reg w st0) (call_cb run w (Some b) e (st\<lparr>el_kernel := k, el_errno := e'\<rparr>))"
    using wf free wt st0 err(2,3) p(3) by (intro call_done [OF env _ _ p(1)] write_ready) auto
  note unfold = handle_write_def waiter_at_def initialised_def
  from env_okD(3) [OF env, where fd = "wt_fd wt" and buf = ?bytes and flags = "wt_flags wt"] show ?thesis
  proof (cases rule: ev_call_cases [where st = st])
    case (failed k1 e1)
    have "safely env (done_by reg w st0) (andthen (if P then call_cb run w (Some b) (- e1) (st\<lparr>el_kernel := k1, el_errno := e1\<rparr>)
        else Inr (st\<lparr>el_kernel := k1, el_errno := e1\<rparr>)) (arm_waiter (sv_os env) w EPOLLOUT))" for P
      using call_then_arm [OF env _ _ _ p(1), of "st\<lparr>el_kernel := k1, el_errno := e1\<rparr>" w st0 e1 P "Some b" EPOLLOUT] wf failed(2,3) wt st0
        no_resetsD(2) [OF calm failed(4)] by simp
    from this [of True] this [of False] failed(1) err(1) on_err wt(1) p(2) bytes show ?thesis by (auto simp: unfold)
  next
    case (returned n k1)
    let ?wt = "wt\<lparr>wt_num_written := wt_num_written wt + n\<rparr>"
    let ?st = "st\<lparr>el_kernel := k1, el_waiters := (el_waiters st)(w \<mapsto> ?wt)\<rparr>"
    have "wt_num_written ?wt \<le> wt_length ?wt" using returned(3) p(4,5) by simp
    with p wt(2) have "pending_ok st w ?wt" by (simp add: pending_ok_def)
    with server_wf_waiter [OF server_wf_kernel [OF wf returned(2)], of w wt ?wt] wt(1) have wf': "server_wf reg ?st" by simp
    have st1: "stage reg w st0 ?st" using st0 returned(2) wt(1) by (auto simp: stage_def)
    have "safely env (done_by reg w st0) (call_cb run w (Some b) (int n) ?st)"
      using wf' st1 free returned(2) p(1,3) by (intro call_done [OF env, where wt = ?wt and cb = cb] write_ready) auto
    moreover have "safely env (done_by reg w st0) (arm_waiter (sv_os env) w EPOLLOUT ?st)"
      using arm_safely [OF env_okD(1) [OF env] wf' _ _ st1 refl, of ?wt On_accept EPOLLOUT] wt(2)
      by (auto simp: outcome_def elim!: safely_mono)
    ultimately show ?thesis using returned(1) err(1) on_err wt(1) p(2) bytes
      by (auto simp: unfold set_waiter_def)
  qed
qed

lemma handle_event_ok:
  assumes env: "env_ok reg env" and calm: "no_resets env" and wf: "server_wf reg st" and free: "ev_data event \<notin> reg (el_kernel st)"
    and live: "el_waiters st (ev_data event) \<noteq> None" and set: "settled st (ev_data event)"
  shows "safely env (done_by reg (ev_data event) st) (handle_event run (sv_os env) (sv_io env) event st)"
proof -
  let ?w = "ev_data event"
  obtain wt where wt: "el_waiters st ?w = Some wt" using live by blast
  then obtain t where t: "wt_type wt = Some t" using set by (auto simp: settled_def)
  obtain lp where lp: "el_loops st (wt_loop wt) = Some lp" using server_wfD(3) [OF wf wt] by blast
  obtain r k where k: "os_epoll_ctl (sv_os env) (lp_epoll_fd lp) EPOLL_CTL_DEL (wt_fd wt) None (el_kernel st) = (r, k)"
    by (meson surj_pair)
  have "reg (snd (os_epoll_ctl (sv_os env) (lp_epoll_fd lp) EPOLL_CTL_DEL (wt_fd wt) None (el_kernel st))) \<subseteq>
      reg (el_kernel st) \<union> ev_data ` set_option None"
    using env_okD(1) [OF env] unfolding epoll_ok_def by blast
  then have sub: "reg k \<subseteq> reg (el_kernel st)" using k by simp
  let ?st = "st\<lparr>el_kernel := k\<rparr>"
  have pre: "server_wf reg ?st" "?w \<notin> reg (el_kernel ?st)" "stage reg ?w st ?st" "el_waiters ?st ?w = Some wt"
    using wf free sub wt by auto
  show ?thesis
    using handle_accept_ok [OF env pre] handle_read_ok [OF env calm pre] handle_write_ok [OF env calm pre] wt t lp k
    by (simp add: handle_event_def waiter_at_def loop_at_def initialised_def Let_def split: wait_type.split)
qed

text \<open>The loop.\<close>

lemma handle_events_ok:
  assumes env: "env_ok reg env" and calm: "no_resets env"
  shows "server_wf reg st \<Longrightarrow> (\<forall>v. settled st v) \<Longrightarrow> distinct (map ev_data es) \<Longrightarrow>
    (\<forall>e\<in>set es. el_waiters st (ev_data e) \<noteq> None \<and> ev_data e \<notin> reg (el_kernel st)) \<Longrightarrow>
    safely env (\<lambda>st'. server_wf reg st' \<and> (\<forall>v. settled st' v) \<and> el_loops st' = el_loops st)
      (handle_events run (sv_os env) (sv_io env) es st)"
proof (induction es arbitrary: st)
  case (Cons e es)
  have "safely env (done_by reg (ev_data e) st) (handle_event run (sv_os env) (sv_io env) e st)"
    using Cons.prems by (intro handle_event_ok [OF env calm]) auto
  then show ?case unfolding handle_events.simps
  proof (rule safely_andthen)
    fix st1 assume st1: "done_by reg (ev_data e) st st1"
    have "\<forall>e'\<in>set es. el_waiters st1 (ev_data e') \<noteq> None \<and> ev_data e' \<notin> reg (el_kernel st1)"
    proof
      fix e' assume e': "e' \<in> set es"
      with Cons.prems(3) have "ev_data e' \<noteq> ev_data e" by (auto simp: image_iff)
      with st1 e' Cons.prems(4) show "el_waiters st1 (ev_data e') \<noteq> None \<and> ev_data e' \<notin> reg (el_kernel st1)"
        by (auto simp: done_by_def)
    qed
    with Cons.IH [of st1] Cons.prems(2,3) st1
    show "safely env (\<lambda>st'. server_wf reg st' \<and> (\<forall>v. settled st' v) \<and> el_loops st' = el_loops st)
        (handle_events run (sv_os env) (sv_io env) es st1)"
      by (simp add: done_by_def)
  qed
qed simp

lemma run_loop_ok:
  assumes env: "env_ok reg env" and calm: "no_resets env"
  shows "server_wf reg st \<Longrightarrow> (\<forall>v. settled st v) \<Longrightarrow> el_loops st l \<noteq> None \<Longrightarrow>
    safely env (\<lambda>(_, st'). server_wf reg st' \<and> (\<forall>v. settled st' v)) (async_run_loop i run (sv_os env) (sv_io env) l st)"
proof (induction i arbitrary: st)
  case (Suc i)
  obtain lp where lp: "el_loops st l = Some lp" using Suc.prems(3) by blast
  let ?wait = "os_epoll_wait (sv_os env) (lp_epoll_fd lp) MAX_EVENTS_CB (-1) (el_kernel st)"
  obtain r k where k: "?wait = (r, k)" by (meson surj_pair)
  have "reg (snd ?wait) \<subseteq> reg (el_kernel st)" "fst ?wait = Inr es \<Longrightarrow>
      distinct (map ev_data es) \<and> ev_data ` set es \<subseteq> reg (el_kernel st) - reg (snd ?wait)" for es
    using env_okD(1) [OF env] unfolding epoll_ok_def by blast+
  then have sub: "reg k \<subseteq> reg (el_kernel st)"
    and es: "r = Inr es \<Longrightarrow> distinct (map ev_data es) \<and> ev_data ` set es \<subseteq> reg (el_kernel st) - reg k" for es
    using k by simp_all
  show ?case
  proof (cases r)
    case (Inl e)
    have "safely env (\<lambda>(_, st'). server_wf reg st' \<and> (\<forall>v. settled st' v))
        (async_run_loop i run (sv_os env) (sv_io env) l (st\<lparr>el_kernel := k, el_errno := e\<rparr>))"
      using Suc.prems sub by (intro Suc.IH) (simp_all add: settled_def)
    with Inl k lp Suc.prems sub show ?thesis by (auto simp: loop_at_def ev_call_def settled_def)
  next
    case (Inr events)
    let ?st = "st\<lparr>el_kernel := k\<rparr>"
    have "\<forall>e\<in>set events. el_waiters ?st (ev_data e) \<noteq> None \<and> ev_data e \<notin> reg (el_kernel ?st)"
      using es [OF Inr] server_wfD(5) [OF Suc.prems(1)] by (auto simp: image_subset_iff)
    from handle_events_ok [OF env calm _ _ _ this] Suc.prems sub es [OF Inr]
    have "safely env (\<lambda>st'. server_wf reg st' \<and> (\<forall>v. settled st' v) \<and> el_loops st' = el_loops st)
        (handle_events run (sv_os env) (sv_io env) events ?st)"
      by (simp add: settled_def)
    then have "safely env (\<lambda>(_, st'). server_wf reg st' \<and> (\<forall>v. settled st' v))
        (andthen (handle_events run (sv_os env) (sv_io env) events ?st) (async_run_loop i run (sv_os env) (sv_io env) l))"
      using Suc.prems(3) by (elim safely_andthen) (auto intro!: Suc.IH)
    with Inr k lp show ?thesis by (simp add: loop_at_def ev_call_def)
  qed
qed simp

end

interpretation server_cbs: sound_callbacks reg env "run_cb n env"
proof (unfold_locales, induction n)
  case (Suc n)
  from sound_callbacks.run_one_ok [OF sound_callbacks.intro, OF Suc.IH Suc.prems] show ?case by (simp only: run_cb.simps)
qed simp

lemma request_done_failure:
  "result < 0 \<Longrightarrow> result \<notin> {- EPIPE, - ECONNRESET} \<Longrightarrow> request_done env w result st = Inl Exit_failure"
  by (simp add: request_done_def)

interpretation strict_cbs: strict_callbacks reg env "run_cb n env"
proof
  fix result cb w b st
  assume "result < 0" "cb = On_accept \<or> result \<notin> {- EPIPE, - ECONNRESET}"
  then show "safely env (\<lambda>_. False) (run_cb n env cb w b result st)"
    by (cases n; cases cb)
      (auto simp: on_accept_def on_read_def send_http_response_helper_def next_request_def request_done_failure)
qed

section \<open>The server\<close>

definition sockets_quiet :: "('k \<Rightarrow> nat set) \<Rightarrow> 'k sockets \<Rightarrow> bool" where
  "sockets_quiet reg sk \<longleftrightarrow> (\<forall>b. quiet reg (sk_socket sk b)) \<and> (\<forall>fd. quiet reg (sk_setsockopt_reuse sk fd)) \<and>
     (\<forall>fd p. quiet reg (sk_bind sk fd p)) \<and> (\<forall>fd n. quiet reg (sk_listen sk fd n))"

lemma start_threads_ok:
  assumes "epoll_ok reg (sv_os env)"
  shows "safely env (\<lambda>k'. reg k' \<subseteq> reg k) (start_threads n (sv_os env) i k)"
proof (induction n arbitrary: i k)
  case (Suc n)
  obtain r k1 where k1: "os_pthread_create (sv_os env) i k = (r, k1)" by (meson surj_pair)
  have "quiet reg (os_pthread_create (sv_os env) i)" using assms by (simp add: epoll_ok_def)
  then have "reg k1 \<subseteq> reg k" by (rule quietD) (rule k1)
  with safely_mono [OF Suc.IH [where i = "i + 1" and k = k1]] k1 show ?case by auto
qed simp

lemma server_wf_loop [simp]: "server_wf reg st \<Longrightarrow> server_wf reg (st\<lparr>el_loops := (el_loops st)(l \<mapsto> lp)\<rparr>)"
  by (auto simp: server_wf_def)

lemma server_wf_listening:
  assumes "server_wf reg st" "el_waiters st w = None" "el_loops st l \<noteq> None"
  shows "server_wf reg (st\<lparr>el_waiters := (el_waiters st)(w \<mapsto> raw_waiter\<lparr>wt_loop := l, wt_fd := fd\<rparr>)\<rparr>)"
  using assms by (auto simp: server_wf_def pending_ok_def raw_waiter_def request_ok_def)

lemma main_loop_ok:
  assumes "env_ok reg env" "no_resets env" "server_wf reg st" "\<forall>v. settled st v" "el_loops st l \<noteq> None"
  shows "safely env (\<lambda>st'. server_wf reg st' \<and> (\<forall>v. settled st' v)) (ev_main_loop i n env l st)"
  unfolding ev_main_loop_def
  by (rule safely_andthen [OF strict_cbs.run_loop_ok [OF assms]]) (auto split: option.split)

lemma listen_ok:
  assumes env: "env_ok reg env" and calm: "no_resets env" and wf: "server_wf reg st" and set: "\<forall>v. settled st v"
    and new: "el_waiters st w = None" and l: "el_loops st l \<noteq> None" and k: "reg k \<subseteq> reg (el_kernel st)"
  shows "safely env (\<lambda>st'. server_wf reg st' \<and> (\<forall>v. settled st' v))
    (andthen (async_init_waiter w l sock (st\<lparr>el_kernel := k, el_waiters := (el_waiters st)(w \<mapsto> raw_waiter)\<rparr>))
      (\<lambda>st. andthen (async_accept_cb (run_cb n env) (sv_os env) (sv_io env) w On_accept st) (\<lambda>(error, st).
       if error < 0 then Inl Exit_failure else ev_main_loop i n env l st)))"
proof -
  let ?st = "st\<lparr>el_kernel := k, el_waiters := (el_waiters st)(w \<mapsto> raw_waiter\<lparr>wt_loop := l, wt_fd := sock\<rparr>)\<rparr>"
  have wf': "server_wf reg ?st"
    using server_wf_listening [OF server_wf_kernel [OF wf k], of w l sock] new l by simp
  have "w \<notin> reg k" using k server_wfD(5) [OF wf] new by auto
  then have "safely env (\<lambda>(error, st'). error < 0 \<or> outcome reg On_accept w ?st st')
      (async_accept_cb (run_cb n env) (sv_os env) (sv_io env) w On_accept ?st)"
    by (intro server_cbs.async_accept_ok [OF env wf']) simp_all
  moreover have "safely env (\<lambda>st'. server_wf reg st' \<and> (\<forall>v. settled st' v)) (ev_main_loop i n env l st')"
    if "outcome reg On_accept w ?st st'" for st'
  proof (rule main_loop_ok [OF env calm])
    have d: "done_by reg w ?st st'" using that by (simp add: outcome_def)
    have "settled st' v" for v
    proof (cases "v = w")
      case False
      then have "settled ?st v" using set by (simp add: settled_def)
      with d show ?thesis by (simp add: done_by_def)
    qed (use d in \<open>simp add: done_by_def\<close>)
    then show "\<forall>v. settled st' v" ..
    show "server_wf reg st'" "el_loops st' l \<noteq> None" using that l by (simp_all add: outcome_def done_by_def)
  qed
  ultimately have "safely env (\<lambda>st'. server_wf reg st' \<and> (\<forall>v. settled st' v))
      (andthen (async_accept_cb (run_cb n env) (sv_os env) (sv_io env) w On_accept ?st) (\<lambda>(error, st).
       if error < 0 then Inl Exit_failure else ev_main_loop i n env l st))"
    by (elim safely_andthen) auto
  then show ?thesis by (simp add: async_init_waiter_def set_waiter_def waiter_at_def)
qed

lemma server_main_ok:
  assumes env: "env_ok reg env" and calm: "no_resets env" and sk: "sockets_quiet reg sk"
    and wf: "server_wf reg st" and set: "\<forall>v. settled st v" and new: "el_waiters st w = None"
  shows "safely env (\<lambda>st'. server_wf reg st' \<and> (\<forall>v. settled st' v)) (ev_server_main i n env sk l w st)"
proof -
  define go where "go = (\<lambda>sock (st :: ('a, 'b) server) k.
     andthen (async_init_waiter w l sock (st\<lparr>el_kernel := k, el_waiters := (el_waiters st)(w \<mapsto> raw_waiter)\<rparr>)) (\<lambda>st.
     andthen (async_accept_cb (run_cb n env) (sv_os env) (sv_io env) w On_accept st) (\<lambda>(error, st).
     if error < 0 then Inl Exit_failure else ev_main_loop i n env l st)))"
  define rest where "rest = (\<lambda>sock st1.
     let (result, st1) = async_init_loop (sv_os env) l st1 in
     if result = -1 then Inl Exit_failure
     else
       let ((result, cpu_count), k) = os_sched_getaffinity (sv_os env) (el_kernel st1) in
       andthen (c_assert (result = 0)) (\<lambda>_. andthen (start_threads (cpu_count - 1) (sv_os env) 0 k) (go sock st1)))"
  have main: "safely env (\<lambda>st'. server_wf reg st' \<and> (\<forall>v. settled st' v)) (rest sock (st\<lparr>el_kernel := k1\<rparr>))"
    if k1: "reg k1 \<subseteq> reg (el_kernel st)" for sock k1
  proof -
    obtain fd err k2 where k2: "os_epoll_create1 (sv_os env) k1 = ((fd, err), k2)" by (metis surj_pair)
    obtain r c k3 where k3: "os_sched_getaffinity (sv_os env) k2 = ((r, c), k3)" by (metis surj_pair)
    have "quiet reg (os_epoll_create1 (sv_os env))" "quiet reg (os_sched_getaffinity (sv_os env))"
      using env_okD(1) [OF env] by (simp_all add: epoll_ok_def)
    note q = quietD [OF this(1) k2] quietD [OF this(2) k3]
    let ?st = "st\<lparr>el_kernel := k2, el_loops := (el_loops st)(l \<mapsto> \<lparr>lp_epoll_fd = fd\<rparr>)\<rparr>"
    have "reg k2 \<subseteq> reg (el_kernel st)" using q(1) k1 by blast
    then have ready: "server_wf reg ?st" using server_wf_loop [OF server_wf_kernel [OF wf]] by simp
    have go: "safely env (\<lambda>st'. server_wf reg st' \<and> (\<forall>v. settled st' v))
        (andthen (start_threads (c - 1) (sv_os env) 0 k3) (go sock st2))" if "st2 = ?st \<or> st2 = ?st\<lparr>el_errno := err\<rparr>" for st2
    proof (rule safely_andthen [OF start_threads_ok [OF env_okD(1) [OF env]]])
      fix k assume "reg k \<subseteq> reg k3"
      then have "reg k \<subseteq> reg k2" using q(2) by blast
      with that ready set new show "safely env (\<lambda>st'. server_wf reg st' \<and> (\<forall>v. settled st' v)) (go sock st2 k)"
        unfolding go_def by (intro listen_ok [OF env calm]) (auto simp: settled_def)
    qed
    show ?thesis
      using go [of ?st] go [of "?st\<lparr>el_errno := err\<rparr>"] k2 k3
      by (cases "fd = -1") (simp_all add: rest_def async_init_loop_def Let_def)
  qed
  have "quiet reg (sk_socket sk True)" "quiet reg (sk_setsockopt_reuse sk fd)" "quiet reg (sk_bind sk fd PORT)"
    "quiet reg (sk_listen sk fd BACKLOG)" for fd using sk by (simp_all add: sockets_quiet_def)
  moreover have "ev_server_main i n env sk l w st =
     andthen (exit_unless (sk_socket sk True) st) (\<lambda>(sock, st).
     andthen (exit_unless (sk_setsockopt_reuse sk sock) st) (\<lambda>(_, st).
     andthen (exit_unless (sk_bind sk sock PORT) st) (\<lambda>(_, st).
     andthen (exit_unless (sk_listen sk sock BACKLOG) st) (\<lambda>(_, st). rest sock st))))"
    by (simp only: ev_server_main_def rest_def go_def)
  ultimately show ?thesis by (simp only:) (auto intro!: exit_unless_ok [where reg = reg] main, blast)
qed

section \<open>A server for the examples\<close>

text \<open>
  A kernel that remembers the registered waiters and how many connections wait; every connection
  sends three bytes that are a whole request, and nothing is ever reported.
\<close>

definition small_env :: "(nat list \<times> nat, nat, int) env" where
  "small_env = \<lparr>sv_os = plain_os\<lparr>os_epoll_ctl := \<lambda>e f fd ev (ws, c). (0, (case ev of Some x \<Rightarrow> ev_data x # ws | None \<Rightarrow> ws, c))\<rparr>,
     sv_io = \<lparr>io_read = \<lambda>fd len k. (Inr [], k), io_write = \<lambda>fd buffer k. (Inr (length buffer), k),
       io_accept4 = \<lambda>fd flags (ws, c). if c = 0 then (Inl EAGAIN, (ws, c)) else (Inr (9, []), (ws, c - 1)),
       io_connect = \<lambda>fd address k. (Inr (), k), io_send = \<lambda>fd buffer flags k. (Inr (length buffer), k),
       io_recv = \<lambda>fd len flags k. (Inr (take len [71, 69, 84]), k), io_getsockopt = \<lambda>fd k. (Inr 0, k)\<rparr>,
     sv_libc = toy_clock, sv_http = eager_http\<lparr>hp_should_keep_alive := \<lambda>_. False\<rparr>, sv_close = \<lambda>fd k. (Inr (), k),
     sv_setsockopt_reuseport = \<lambda>fd k. (Inr (), k),
     sv_malloc = \<lambda>used k. (if 5 \<in> used then None else Some (5, fresh_request), k)\<rparr>"

definition small_sockets :: "(nat list \<times> nat) sockets" where
  "small_sockets = \<lparr>sk_socket = \<lambda>b k. (Inr 4, k), sk_setsockopt_reuse = \<lambda>fd k. (Inr (), k),
     sk_bind = \<lambda>fd p k. (Inr (), k), sk_listen = \<lambda>fd n k. (Inr (), k)\<rparr>"

definition new_server :: "(nat list \<times> nat, nat) server" where
  "new_server = \<lparr>el_kernel = ([], 2), el_errno = 0, el_loops = Map.empty, el_waiters = Map.empty,
     el_mem = \<lambda>b. (case b of Html_data \<Rightarrow> HTML | _ \<Rightarrow> []), requests = Map.empty\<rparr>"

abbreviation small_reg :: "nat list \<times> nat \<Rightarrow> nat set" where
  "small_reg k \<equiv> set (fst k)"

lemma eager_parsing:
  "parsing (eager_http\<lparr>hp_should_keep_alive := h\<rparr>) r
     (case parse (eager_http\<lparr>hp_should_keep_alive := h\<rparr>) p bs r of Inl f \<Rightarrow> Inl f | Inr (_, _, r') \<Rightarrow> Inr r')"
proof (cases "on_parse_done (eager_http\<lparr>hp_should_keep_alive := h\<rparr>) p r")
  case (Inl f)
  then show ?thesis using parsing.complete_fault [OF parsing.none Inl] by (simp add: eager_http_def)
next
  case (Inr x)
  then obtain e r' where x: "x = (e, r')" by (cases x)
  with Inr parsing.complete [OF parsing.none, of _ p r e r'] show ?thesis by (simp add: eager_http_def)
qed

lemma small_env_ok: "env_ok small_reg small_env"
  using eager_parsing [of "\<lambda>_. False"]
  by (auto simp: env_ok_def small_env_def epoll_ok_def quiet_def call_ok_def plain_os_def toy_clock_def fresh_request_def URL_SIZE_def
      EAGAIN_def split: option.splits)

lemma small_calm: "no_resets small_env" "sockets_quiet small_reg small_sockets"
  by (simp_all add: no_resets_def small_env_def sockets_quiet_def small_sockets_def quiet_def)

lemma new_server_ok: "server_wf small_reg new_server" "\<forall>v. settled new_server v" "el_waiters new_server 1 = None"
  by (simp_all add: server_wf_def new_server_def settled_def)

text \<open>A connection at 5 that waits to read.\<close>

definition open_server :: "(nat list \<times> nat, nat) server" where
  "open_server = new_server\<lparr>el_loops := [0 \<mapsto> \<lparr>lp_epoll_fd = 3\<rparr>], el_waiters := [5 \<mapsto> reading_waiter\<lparr>wt_buffer := Some (Read_buffer 5)\<rparr>],
     requests := [5 \<mapsto> fresh_request],
     el_mem := \<lambda>b. (case b of Html_data \<Rightarrow> HTML | Empty_data \<Rightarrow> [] | _ \<Rightarrow> replicate BUFFER_SIZE 0)\<rparr>"

lemma open_connection_ok: "server_wf small_reg open_server" "ready small_reg open_server On_read 5 3"
  by (auto simp: server_wf_def open_server_def new_server_def pending_ok_def reading_waiter_def request_ok_def url_fits_def
      fresh_request_def URL_SIZE_def ready_def BUFFER_SIZE_def split: if_splits)

section \<open>What is shown\<close>

text \<open>
  C24: The callbacks keep the invariant that types the waiters of the server (what a waiter waits for
  goes with its callback and its buffer): a callback that is ready runs without using freed or
  uninitialised memory and leaves every waiter well-formed, its own armed or freed and no other freed. The ways
  it can stop otherwise are that the program exits, an assertion fails, the stack is used up, or the parser's
  callbacks run past the end of the URL.
\<close>

theorem callbacks_type_safe:
  assumes "env_ok reg env" "server_wf reg st" "ready reg st cb w result"
  shows "case run_cb n env cb w b result st of
      Inr st' \<Rightarrow> server_wf reg st' \<and> settled st' w \<and> (\<forall>v. v \<noteq> w \<longrightarrow> el_waiters st v \<noteq> None \<longrightarrow> el_waiters st' v \<noteq> None)
    | Inl f \<Rightarrow> f \<in> {Exit_failure, Assert_fail, Diverged} \<or> f = Out_of_bounds \<and> (\<exists>p bs r. parse (sv_http env) p bs r = Inl f)"
  using server_cbs.run_ok [OF assms, of n b]
  by (auto simp: safely_def stops_def outcome_def done_by_def split: sum.split_asm)

theorem callbacks_type_safe_witness:
  "case run_cb 9 small_env On_read 5 None 3 open_server of
      Inr st' \<Rightarrow> server_wf small_reg st' \<and> settled st' 5 \<and> (\<forall>v. v \<noteq> 5 \<longrightarrow> el_waiters open_server v \<noteq> None \<longrightarrow> el_waiters st' v \<noteq> None)
    | Inl f \<Rightarrow> f \<in> {Exit_failure, Assert_fail, Diverged} \<or> f = Out_of_bounds \<and> (\<exists>p bs r. parse (sv_http small_env) p bs r = Inl f)"
  by (rule callbacks_type_safe [OF small_env_ok open_connection_ok])



end
